(* ===== verification/Prelude.thy ===== *)
theory Prelude
  imports Main "HOL-Library.Word"
begin

unbundle bit_operations_syntax

text \<open>
  Shared vocabulary of the development.

  \<^item> Machine integers: the \<open>u8\<close> .. \<open>u64\<close> types of the source are words of that
    width, \<open>usize\<close> values that count or index array cells are \<^typ>\<open>nat\<close>. The checked and
    saturating operations of the Rust standard library are the functions \<open>checked_add\<close>,
    \<open>saturating_add\<close>, \<open>saturating_sub\<close> and \<open>saturating_mul\<close>. A plain
    \<open>+\<close> or \<open>-\<close> of the source is the wrapping word operation, which is what the
    release profile of the workspace compiles to.
  \<^item> Fallible operations: \<open>Result<T, E>\<close> is the sum \<^typ>\<open>'e + 'a\<close> with the error on the left.
    An operation on \<open>&mut self\<close> returns the pair of its result and the state it leaves,
    also when the result is an error.
  \<^item> Fixed arrays: \<open>[T; N]\<close> is a list of length \<open>N\<close>; the loops that open and close a
    gap in such an array are \<open>shift_right\<close> and \<open>shift_left\<close>.

  The collection \<open>word_to_nat\<close> turns comparisons and arithmetic on words into natural
  number arithmetic; \<open>rust_arith\<close> collects the characterisations of the library
  operations.
\<close>

type_synonym u8 = "8 word"
type_synonym u16 = "16 word"
type_synonym u32 = "32 word"
type_synonym u64 = "64 word"

named_theorems word_to_nat \<open>comparisons and arithmetic of words, read through unat\<close>
named_theorems rust_arith \<open>characterisations of checked and saturating operations\<close>

section \<open>Checked and saturating arithmetic\<close>

definition checked_add :: "'a::len word \<Rightarrow> 'a word \<Rightarrow> 'a word option" where
  "checked_add a b = (if unat a + unat b < 2 ^ LENGTH('a) then Some (a + b) else None)"

definition saturating_add :: "'a::len word \<Rightarrow> 'a word \<Rightarrow> 'a word" where
  "saturating_add a b = (if unat a + unat b < 2 ^ LENGTH('a) then a + b else - 1)"

definition saturating_sub :: "'a::len word \<Rightarrow> 'a word \<Rightarrow> 'a word" where
  "saturating_sub a b = (if b \<le> a then a - b else 0)"

definition saturating_mul :: "'a::len word \<Rightarrow> 'a word \<Rightarrow> 'a word" where
  "saturating_mul a b = (if unat a * unat b < 2 ^ LENGTH('a) then a * b else - 1)"

lemmas word_order_unat = word_less_nat_alt word_le_nat_alt

declare word_less_nat_alt [word_to_nat] word_le_nat_alt [word_to_nat]
declare unat_div_distrib [word_to_nat] unat_mod_distrib [word_to_nat]
declare word_unat_eq_iff [word_to_nat]

lemma unat_less_exp: "unat (w :: 'a::len word) < 2 ^ LENGTH('a)"
  by (rule unsigned_less)

lemma unat_lt_64: "unat (x :: u64) < 18446744073709551616"
  using unat_less_exp [of x] by simp

lemma checked_add_eq_Some [rust_arith]:
  "checked_add a b = Some c \<longleftrightarrow> unat c = unat a + unat b"
proof -
  have "unat c = unat a + unat b \<Longrightarrow> unat a + unat b < 2 ^ LENGTH('a)"
    using unat_less_exp [of c] by simp
  moreover have "unat a + unat b < 2 ^ LENGTH('a) \<Longrightarrow> (a + b = c) = (unat c = unat a + unat b)"
    by (auto simp: word_unat_eq_iff unat_add_lem)
  ultimately show ?thesis
    by (auto simp: checked_add_def)
qed

lemma checked_add_eq_None [rust_arith]:
  "checked_add (a :: 'a::len word) b = None \<longleftrightarrow> 2 ^ LENGTH('a) \<le> unat a + unat b"
  by (simp add: checked_add_def not_less)

lemma checked_add_cases:
  fixes a b :: u64
  obtains (Some) c where "checked_add a b = Some c" "unat c = unat a + unat b"
  | (None) "checked_add a b = None" "18446744073709551616 \<le> unat a + unat b"
  by (cases "checked_add a b") (auto simp: rust_arith)

lemma unat_saturating_sub [rust_arith]: "unat (saturating_sub a b) = unat a - unat b"
  by (simp add: saturating_sub_def unat_sub word_le_nat_alt)

lemma unat_saturating_add [rust_arith]:
  "unat (saturating_add (a :: 'a::len word) b) = min (unat a + unat b) (2 ^ LENGTH('a) - 1)"
proof (cases "unat a + unat b < 2 ^ LENGTH('a)")
  case True
  then show ?thesis
    by (simp add: saturating_add_def unat_add_lem [THEN iffD1])
next
  case False
  then show ?thesis
    by (simp add: saturating_add_def unsigned_minus_1_eq_mask mask_eq_exp_minus_1)
qed

lemma saturating_mul_exact [rust_arith]:
  "unat a * unat b < 2 ^ LENGTH('a) \<Longrightarrow> unat (saturating_mul (a :: 'a::len word) b) = unat a * unat b"
  by (simp add: saturating_mul_def unat_mult_lem [THEN iffD1])

lemma unat_add_exact:
  "unat a + unat b < 2 ^ LENGTH('a) \<Longrightarrow> unat ((a :: 'a::len word) + b) = unat a + unat b"
  by (simp add: unat_add_lem)

lemma unat_offset:
  assumes "unat (b :: u64) + n * unat c < 2 ^ 64"
  shows "unat (b + of_nat n * c) = unat b + n * unat c"
proof -
  have "b + of_nat n * c = of_nat (unat b + n * unat c)"
    by simp
  also have "unat \<dots> = unat b + n * unat c"
    unfolding unat_of_nat using assms by simp
  finally show ?thesis .
qed

section \<open>Alignment by masking\<close>

lemma unat_and_not_mask:
  "unat ((v :: 'a::len word) AND NOT (mask n)) = (unat v div 2 ^ n) * 2 ^ n"
proof -
  have eq: "v AND NOT (mask n) = push_bit n (drop_bit n v)"
    by (rule bit_eqI) (auto simp: bit_simps)
  have "push_bit n (drop_bit n v) + take_bit n v = v"
    by (rule bits_ident)
  then have "push_bit n (drop_bit n v) = v - take_bit n v"
    by (metis add_diff_cancel_right')
  moreover have "take_bit n v \<le> v"
    by (simp add: word_le_nat_alt unsigned_take_bit_eq take_bit_nat_def)
  ultimately have "unat (v AND NOT (mask n)) = unat v - unat v mod 2 ^ n"
    using eq by (simp add: unat_sub unsigned_take_bit_eq take_bit_nat_def)
  then show ?thesis
    by (simp add: minus_mod_eq_div_mult)
qed

lemma unat_and_not_4095: "unat ((v :: u64) AND NOT 4095) = (unat v div 4096) * 4096"
  using unat_and_not_mask [of v 12] by (simp add: mask_eq_exp_minus_1)

section \<open>Gaps in fixed arrays\<close>

text \<open>
  \<open>shift_right lo cursor a\<close> is the loop
  \<^verbatim>\<open>while cursor > lo { a[cursor] = a[cursor - 1]; cursor -= 1; }\<close>, which opens a gap at
  \<open>lo\<close>; \<open>shift_left cursor len a\<close> is
  \<^verbatim>\<open>while cursor + 1 < len { a[cursor] = a[cursor + 1]; cursor += 1; }\<close>, which closes one.
\<close>

fun shift_right :: "nat \<Rightarrow> nat \<Rightarrow> 'a list \<Rightarrow> 'a list" where
  "shift_right lo cursor a =
     (if lo < cursor then shift_right lo (cursor - 1) (a[cursor := a ! (cursor - 1)]) else a)"

function shift_left :: "nat \<Rightarrow> nat \<Rightarrow> 'a list \<Rightarrow> 'a list" where
  "shift_left cursor len a =
     (if cursor + 1 < len then shift_left (cursor + 1) len (a[cursor := a ! (cursor + 1)]) else a)"
  by pat_completeness auto
termination
  by (relation "measure (\<lambda>(cursor, len, a). len - cursor)") auto

text \<open>Arrays of a concrete size, for evaluation.\<close>

lemma replicate_small:
  "replicate 2 x = [x, x]" "replicate 3 x = [x, x, x]" "replicate 4 x = [x, x, x, x]"
  by (simp_all add: numeral_eq_Suc)

declare shift_right.simps [simp del] shift_left.simps [simp del]

lemma length_shift_right [simp]: "length (shift_right lo cursor a) = length a"
  by (induction lo cursor a rule: shift_right.induct) (subst shift_right.simps, auto)

lemma length_shift_left [simp]: "length (shift_left cursor len a) = length a"
  by (induction cursor len a rule: shift_left.induct) (subst shift_left.simps, auto)

lemma nth_shift_right:
  assumes "lo \<le> cursor" "cursor < length a" "i < length a"
  shows "shift_right lo cursor a ! i = (if lo < i \<and> i \<le> cursor then a ! (i - 1) else a ! i)"
  using assms
proof (induction lo cursor a rule: shift_right.induct)
  case (1 lo cursor a)
  show ?case
  proof (cases "lo < cursor")
    case True
    with 1 show ?thesis
      by (subst shift_right.simps) (auto simp: nth_list_update)
  next
    case False
    then show ?thesis
      by (subst shift_right.simps) auto
  qed
qed

lemma nth_shift_left:
  assumes "len \<le> length a" "i < length a"
  shows "shift_left cursor len a ! i = (if cursor \<le> i \<and> i + 1 < len then a ! (i + 1) else a ! i)"
  using assms
proof (induction cursor len a rule: shift_left.induct)
  case (1 cursor len a)
  show ?case
  proof (cases "cursor + 1 < len")
    case True
    with 1 show ?thesis
      by (subst shift_left.simps) (auto simp: nth_list_update)
  next
    case False
    then show ?thesis
      by (subst shift_left.simps) auto
  qed
qed

lemma take_shift_right_insert:
  assumes "lo \<le> len" "len < length a"
  shows "take (Suc len) ((shift_right lo len a)[lo := x]) = take lo a @ x # drop lo (take len a)"
proof (rule nth_equalityI)
  show "length (take (Suc len) ((shift_right lo len a)[lo := x]))
      = length (take lo a @ x # drop lo (take len a))"
    using assms by simp
next
  fix i assume "i < length (take (Suc len) ((shift_right lo len a)[lo := x]))"
  then have "i < Suc len" "i < length a"
    using assms by simp_all
  then show "take (Suc len) ((shift_right lo len a)[lo := x]) ! i
      = (take lo a @ x # drop lo (take len a)) ! i"
    using assms
    by (auto simp: nth_list_update nth_shift_right nth_append nth_Cons min_def not_less
        less_Suc_eq_le split: nat.split intro!: arg_cong [where f = "(!) a"])
qed

lemma take_shift_left_remove:
  assumes "index < len" "len \<le> length a"
  shows "take (len - 1) ((shift_left index len a)[len - 1 := e])
       = take index a @ drop (Suc index) (take len a)"
proof (rule nth_equalityI)
  show "length (take (len - 1) ((shift_left index len a)[len - 1 := e]))
      = length (take index a @ drop (Suc index) (take len a))"
    using assms by simp
next
  fix i assume "i < length (take (len - 1) ((shift_left index len a)[len - 1 := e]))"
  then have "i < len - 1" "i < length a"
    using assms by simp_all
  then show "take (len - 1) ((shift_left index len a)[len - 1 := e]) ! i
      = (take index a @ drop (Suc index) (take len a)) ! i"
    using assms by (auto simp: nth_list_update nth_shift_left nth_append min_def)
qed

text \<open>The same facts with the live part of the array split around the affected cell.\<close>

lemma take_update_mid: "take len a = us @ p # vs \<Longrightarrow> take len (a[length us := m]) = us @ m # vs"
  by (simp add: take_update_swap)

lemma take_length_mid:
  assumes "take len a = us @ p # vs" "len \<le> length a"
  shows "length us < len" "take (length us) a = us" "drop (Suc (length us)) (take len a) = vs"
proof -
  have "len = Suc (length us + length vs)"
    using arg_cong [OF assms(1), of length] assms(2) by simp
  then show lt: "length us < len" by simp
  have "take (length us) (take len a) = us"
    using assms(1) by simp
  with lt show "take (length us) a = us"
    by (simp add: min_def)
  show "drop (Suc (length us)) (take len a) = vs"
    using assms(1) by simp
qed

lemma take_remove_mid:
  assumes "take len a = us @ p # vs" "len \<le> length a"
  shows "take (len - 1) ((shift_left (length us) len a)[len - 1 := e]) = us @ vs"
  using take_shift_left_remove [OF take_length_mid(1) [OF assms] assms(2), of e] take_length_mid [OF assms]
  by simp

lemma take_insert_mid:
  assumes "take len a = us @ vs" "len < length a"
  shows "take (Suc len) ((shift_right (length us) len a)[length us := m]) = us @ m # vs"
proof -
  have le: "length us \<le> len"
    using arg_cong [OF assms(1), of length] assms(2) by simp
  then have "take (length us) a = take (length us) (take len a)"
    by (simp add: min_def)
  with assms(1) have "take (length us) a = us"
    by simp
  with assms(1) show ?thesis
    by (simp add: take_shift_right_insert [OF le assms(2)])
qed

lemma take_split_mid:
  assumes "take len a = us @ p # vs" "len < length a"
  shows "take (Suc len) ((shift_right (Suc (length us)) len a)[length us := m, Suc (length us) := m'])
    = us @ m # m' # vs"
proof -
  have "take len a = (us @ [p]) @ vs"
    using assms(1) by simp
  from take_insert_mid [OF this assms(2), of m']
  have "take (Suc len) ((shift_right (Suc (length us)) len a)[Suc (length us) := m']) = us @ p # m' # vs"
    by simp
  from take_update_mid [OF this, of m] show ?thesis
    by (simp add: list_update_swap)
qed

section \<open>Searching a list\<close>

text \<open>\<open>Iterator::position\<close>: the index of the first element that satisfies a predicate.\<close>

fun position :: "('a \<Rightarrow> bool) \<Rightarrow> 'a list \<Rightarrow> nat option" where
  "position P [] = None"
| "position P (x # xs) = (if P x then Some 0 else map_option Suc (position P xs))"

lemma position_SomeD:
  "position P xs = Some i \<Longrightarrow> i < length xs \<and> P (xs ! i) \<and> (\<forall>j < i. \<not> P (xs ! j))"
proof (induction xs arbitrary: i)
  case (Cons x xs)
  then show ?case
    by (cases i) (auto simp: less_Suc_eq_0_disj split: if_splits)
qed simp

lemma position_None: "position P xs = None \<longleftrightarrow> (\<forall>x \<in> set xs. \<not> P x)"
  by (induction xs) auto

lemma map_filter_Some [simp]: "List.map_filter id (map Some xs) = xs"
  by (simp add: List.map_filter_def comp_def)

lemma option_eqI: "(\<And>y. x = Some y \<longleftrightarrow> x' = Some y) \<Longrightarrow> x = x'"
  by (cases x; cases x') auto

end
