(* ===== verification/Core_Ids.thy ===== *)
theory Core_Ids
  imports Prelude
begin

text \<open>
  The error type and the identifier newtypes of the core crate
  (\<open>crates/aegishv-hypervisor-core/src/error.rs\<close> and \<open>ids.rs\<close>). A newtype with a
  private field is a one-constructor datatype; its values in the program are the ones the
  \<open>new\<close> functions (and the two constants) build, which the \<open>_valid\<close> predicates
  describe.
\<close>

section \<open>Errors\<close>

datatype core_error_kind =
    InvalidId
  | InvalidAddress
  | InvalidArgument
  | InvalidMemoryMap
  | CapacityExceeded
  | Overlap
  | OutOfMemory
  | DoubleFree
  | ZeroingFailed
  | InvalidTransition
  | RingFull
  | UnknownCommand
  | Unsupported
  | PermissionViolation
  | SerialTimeout
  | InvalidState

datatype core_error = CoreError (kind: core_error_kind) (message: string)

type_synonym 'a core_result = "core_error + 'a"

text \<open>\<open>Option::ok_or\<close>.\<close>

fun ok_or :: "'a option \<Rightarrow> 'e \<Rightarrow> 'e + 'a" where
  "ok_or None e = Inl e"
| "ok_or (Some x) e = Inr x"

lemma ok_or_simps [simp]:
  "(ok_or x e = Inr y) = (x = Some y)"
  "(ok_or x e = Inl e') = (x = None \<and> e' = e)"
  by (cases x; auto)+

section \<open>Identifiers\<close>

datatype vm_id = VmId (vm_id_get: u32)
datatype vcpu_id = VcpuId (vcpu_id_get: u16)
datatype physical_cpu_id = PhysicalCpuId (physical_cpu_id_get: u16)
datatype device_id = DeviceId (device_id_get: u32)

abbreviation vm_id_one :: vm_id where
  "vm_id_one \<equiv> VmId 1"

definition vm_id_new :: "u32 \<Rightarrow> vm_id core_result" where
  "vm_id_new raw =
     (if raw = 0 then Inl (CoreError InvalidId ''vm id 0 is reserved'') else Inr (VmId raw))"

definition vcpu_id_new :: "u16 \<Rightarrow> vcpu_id core_result" where
  "vcpu_id_new raw =
     (if raw = - 1 then Inl (CoreError InvalidId ''vcpu id 65535 is reserved'')
      else Inr (VcpuId raw))"

definition physical_cpu_id_new :: "u16 \<Rightarrow> physical_cpu_id core_result" where
  "physical_cpu_id_new raw =
     (if raw = - 1 then Inl (CoreError InvalidId ''physical cpu id 65535 is reserved'')
      else Inr (PhysicalCpuId raw))"

definition device_id_new :: "u32 \<Rightarrow> device_id core_result" where
  "device_id_new raw =
     (if raw = 0 then Inl (CoreError InvalidId ''device id 0 is reserved'')
      else Inr (DeviceId raw))"

section \<open>Addresses\<close>

datatype host_physical = HostPhysical (hpa_get: u64)
datatype guest_physical = GuestPhysical (gpa_get: u64)
datatype guest_virtual = GuestVirtual (gva_get: u64)

abbreviation host_physical_zero :: host_physical where
  "host_physical_zero \<equiv> HostPhysical 0"

definition host_physical_new :: "u64 \<Rightarrow> host_physical core_result" where
  "host_physical_new raw =
     (if raw = - 1
      then Inl (CoreError InvalidAddress ''host physical address uses reserved sentinel value'')
      else Inr (HostPhysical raw))"

definition host_physical_checked_add :: "host_physical \<Rightarrow> u64 \<Rightarrow> host_physical core_result" where
  "host_physical_checked_add self v =
     (let overflow = Inl (CoreError InvalidAddress ''host physical address addition overflowed'') in
      case checked_add (hpa_get self) v of
        Some n \<Rightarrow> if n \<noteq> - 1 then Inr (HostPhysical n) else overflow
      | None \<Rightarrow> overflow)"

definition guest_physical_new :: "u64 \<Rightarrow> guest_physical core_result" where
  "guest_physical_new raw =
     (if raw = - 1
      then Inl (CoreError InvalidAddress ''guest physical address uses reserved sentinel value'')
      else Inr (GuestPhysical raw))"

section \<open>What the constructors promise\<close>

definition host_physical_valid :: "host_physical \<Rightarrow> bool" where
  "host_physical_valid a \<longleftrightarrow> hpa_get a \<noteq> - 1"

lemma unat_neq_max: "(x :: u64) \<noteq> - 1 \<longleftrightarrow> unat x < 18446744073709551615"
proof -
  have "unat (- 1 :: u64) = 18446744073709551615"
    by (simp add: unsigned_minus_1_eq_mask mask_eq_exp_minus_1)
  then show ?thesis
    using unat_lt_64 [of x] by (auto simp: word_unat_eq_iff)
qed

lemma host_physical_new_ok [simp]:
  "host_physical_new raw = Inr a \<longleftrightarrow> raw \<noteq> - 1 \<and> a = HostPhysical raw"
  by (auto simp: host_physical_new_def)

lemma host_physical_checked_add_ok:
  "host_physical_checked_add a v = Inr b
     \<longleftrightarrow> unat (hpa_get b) = unat (hpa_get a) + unat v \<and> host_physical_valid b"
proof (cases "checked_add (hpa_get a) v")
  case None
  then have "18446744073709551616 \<le> unat (hpa_get a) + unat v"
    by (simp add: rust_arith)
  with None show ?thesis
    using unat_lt_64 [of "hpa_get b"] by (auto simp: host_physical_checked_add_def)
next
  case (Some n)
  then have "unat n = unat (hpa_get a) + unat v"
    by (simp add: rust_arith)
  with Some show ?thesis
    by (cases b) (auto simp: host_physical_checked_add_def host_physical_valid_def Let_def
        word_unat_eq_iff)
qed

lemma host_physical_checked_add_kind:
  "host_physical_checked_add a v = Inl e \<Longrightarrow> kind e = InvalidAddress"
  by (auto simp: host_physical_checked_add_def Let_def split: option.splits if_splits)

end
