(* ===== verification/Memory_Map.thy ===== *)
theory Memory_Map
  imports Core_Ids
begin

text \<open>
  The firmware memory map of \<open>crates/aegishv-hypervisor-core/src/memory.rs\<close>: entries are
  validated, sorted by base with an in-place insertion sort, and merged into a table of
  disjoint regions. Tables are fixed arrays with a separate length, as in the source.

  The lemmas show that a successful build yields a normal form (ascending, disjoint,
  neighbours of one kind coalesced) that covers, for every kind, exactly the addresses of the
  entries, and that each error is returned for the reason it names.
\<close>

section \<open>Regions\<close>

datatype memory_region_kind = Usable | Reserved | Mmio | Acpi | Bad

record memory_region =
  mr_base :: u64
  mr_length :: u64
  mr_kind :: memory_region_kind

definition memory_region_new :: "u64 \<Rightarrow> u64 \<Rightarrow> memory_region_kind \<Rightarrow> memory_region" where
  "memory_region_new b l k = \<lparr>mr_base = b, mr_length = l, mr_kind = k\<rparr>"

definition memory_region_empty :: memory_region where
  "memory_region_empty = \<lparr>mr_base = 0, mr_length = 0, mr_kind = Reserved\<rparr>"

definition memory_region_end :: "memory_region \<Rightarrow> u64 core_result" where
  "memory_region_end r =
     ok_or (checked_add (mr_base r) (mr_length r))
       (CoreError InvalidMemoryMap ''memory region end address overflowed'')"

definition validate_region :: "memory_region \<Rightarrow> unit core_result" where
  "validate_region r =
     (if mr_length r = 0
      then Inl (CoreError InvalidMemoryMap ''firmware memory map contains a zero-length region'')
      else case memory_region_end r of Inl e \<Rightarrow> Inl e | Inr _ \<Rightarrow> Inr ())"

section \<open>Sorting and merging\<close>

record memory_map =
  mm_regions :: "memory_region list"
  mm_len :: nat

text \<open>The \<open>while\<close> loop of \<open>insert_sorted\<close>: returns the array and the final index.\<close>

fun insert_sorted_loop ::
  "memory_region list \<Rightarrow> nat \<Rightarrow> memory_region \<Rightarrow> memory_region list \<times> nat" where
  "insert_sorted_loop regions index region =
     (if 0 < index \<and> mr_base region < mr_base (regions ! (index - 1))
      then insert_sorted_loop (regions[index := regions ! (index - 1)]) (index - 1) region
      else (regions, index))"

definition insert_sorted ::
  "memory_region list \<Rightarrow> nat \<Rightarrow> memory_region \<Rightarrow> (memory_region list \<times> nat) core_result" where
  "insert_sorted regions len region =
     (if length regions \<le> len
      then Inl (CoreError CapacityExceeded ''firmware memory map sort table is full'')
      else let (regions', index) = insert_sorted_loop regions len region
           in Inr (regions'[index := region], len + 1))"

definition merge_region ::
  "memory_region list \<Rightarrow> nat \<Rightarrow> memory_region \<Rightarrow> (memory_region list \<times> nat) core_result" where
  "merge_region regions len region =
     (if len = 0 then Inr (regions[0 := region], 1)
      else let last = regions ! (len - 1) in
        case memory_region_end last of
          Inl e \<Rightarrow> Inl e
        | Inr last_end \<Rightarrow>
            if mr_base region < last_end \<and> mr_kind region \<noteq> mr_kind last
            then Inl (CoreError Overlap
                   ''firmware memory map has overlapping regions with different types'')
            else if mr_base region \<le> last_end \<and> mr_kind region = mr_kind last
            then (case memory_region_end region of
                    Inl e \<Rightarrow> Inl e
                  | Inr region_end \<Rightarrow>
                      let merged_end = (if last_end < region_end then region_end else last_end)
                      in Inr (regions[len - 1 := last\<lparr>mr_length := merged_end - mr_base last\<rparr>], len))
            else if length regions \<le> len
            then Inl (CoreError CapacityExceeded ''firmware memory map merge table is full'')
            else Inr (regions[len := region], len + 1))"

text \<open>The two \<open>for\<close> loops of \<open>from_entries\<close>.\<close>

fun insert_entries ::
  "memory_region list \<Rightarrow> nat \<Rightarrow> memory_region list \<Rightarrow> (memory_region list \<times> nat) core_result" where
  "insert_entries tbl len [] = Inr (tbl, len)"
| "insert_entries tbl len (e # es) =
     (case validate_region e of
        Inl err \<Rightarrow> Inl err
      | Inr _ \<Rightarrow>
          (case insert_sorted tbl len e of
             Inl err \<Rightarrow> Inl err
           | Inr (tbl', len') \<Rightarrow> insert_entries tbl' len' es))"

fun merge_entries ::
  "memory_region list \<Rightarrow> nat \<Rightarrow> memory_region list \<Rightarrow> (memory_region list \<times> nat) core_result" where
  "merge_entries merged len [] = Inr (merged, len)"
| "merge_entries merged len (r # rs) =
     (case merge_region merged len r of
        Inl err \<Rightarrow> Inl err
      | Inr (merged', len') \<Rightarrow> merge_entries merged' len' rs)"

definition from_entries :: "nat \<Rightarrow> memory_region list \<Rightarrow> memory_map core_result" where
  "from_entries n entries =
     (if n < length entries
      then Inl (CoreError CapacityExceeded
             ''firmware memory map has more entries than the fixed table can hold'')
      else case insert_entries (replicate n memory_region_empty) 0 entries of
          Inl e \<Rightarrow> Inl e
        | Inr (tbl, len) \<Rightarrow>
            (case merge_entries (replicate n memory_region_empty) 0 (take len tbl) of
               Inl e \<Rightarrow> Inl e
             | Inr (merged, merged_len) \<Rightarrow> Inr \<lparr>mm_regions = merged, mm_len = merged_len\<rparr>))"

definition map_regions :: "memory_map \<Rightarrow> memory_region list" where
  "map_regions m = take (mm_len m) (mm_regions m)"

definition usable_regions :: "memory_map \<Rightarrow> memory_region list" where
  "usable_regions m = filter (\<lambda>r. mr_kind r = Usable) (map_regions m)"

declare insert_sorted_loop.simps [simp del]

section \<open>What a map says about addresses\<close>

definition region_lo :: "memory_region \<Rightarrow> nat" where
  "region_lo r = unat (mr_base r)"

definition region_hi :: "memory_region \<Rightarrow> nat" where
  "region_hi r = unat (mr_base r) + unat (mr_length r)"

definition region_ok :: "memory_region \<Rightarrow> bool" where
  "region_ok r \<longleftrightarrow> region_lo r < region_hi r \<and> region_hi r < 2 ^ 64"

definition region_addrs :: "memory_region \<Rightarrow> nat set" where
  "region_addrs r = {region_lo r ..< region_hi r}"

text \<open>The addresses a list of regions gives to one kind.\<close>

definition covered :: "memory_region_kind \<Rightarrow> memory_region list \<Rightarrow> nat set" where
  "covered k rs = (\<Union>r \<in> {r \<in> set rs. mr_kind r = k}. region_addrs r)"

text \<open>\<open>gap x y\<close>: \<open>x\<close> ends before \<open>y\<close> starts, and touches it only if the kinds differ.\<close>

definition gap :: "memory_region \<Rightarrow> memory_region \<Rightarrow> bool" where
  "gap x y \<longleftrightarrow> region_hi x < region_lo y \<or> region_hi x = region_lo y \<and> mr_kind x \<noteq> mr_kind y"

definition normal_regions :: "memory_region list \<Rightarrow> bool" where
  "normal_regions rs \<longleftrightarrow> (\<forall>r \<in> set rs. region_ok r) \<and> sorted_wrt gap rs"

definition clash :: "memory_region \<Rightarrow> memory_region \<Rightarrow> bool" where
  "clash x y \<longleftrightarrow> mr_kind x \<noteq> mr_kind y \<and> region_addrs x \<inter> region_addrs y \<noteq> {}"

lemmas region_defs = region_lo_def region_hi_def region_ok_def region_addrs_def

lemma memory_region_end_ok:
  "memory_region_end r = Inr e \<longleftrightarrow> unat e = region_hi r"
  by (auto simp: memory_region_end_def rust_arith region_hi_def)

lemma memory_region_end_exists: "region_ok r \<Longrightarrow> \<exists>e. memory_region_end r = Inr e"
  by (auto simp: memory_region_end_def checked_add_def region_ok_def region_hi_def)

lemma memory_region_end_kind: "memory_region_end r = Inl e \<Longrightarrow> kind e = InvalidMemoryMap"
  by (auto simp: memory_region_end_def)

lemma validate_region_ok: "validate_region r = Inr u \<longleftrightarrow> region_ok r"
proof -
  have "(mr_length r \<noteq> 0) = (0 < unat (mr_length r))"
    by (simp add: word_unat_eq_iff)
  then show ?thesis
    using unat_lt_64
    by (auto simp: validate_region_def memory_region_end_ok region_defs memory_region_end_def
        rust_arith checked_add_def split: sum.splits)
qed

lemma validate_region_kind: "validate_region r = Inl e \<Longrightarrow> kind e = InvalidMemoryMap"
  by (auto simp: validate_region_def split: if_splits sum.splits dest: memory_region_end_kind)

lemma covered_Nil [simp]: "covered k [] = {}"
  by (simp add: covered_def)

lemma covered_append [simp]: "covered k (xs @ ys) = covered k xs \<union> covered k ys"
  by (auto simp: covered_def)

lemma covered_single [simp]: "covered k [r] = (if mr_kind r = k then region_addrs r else {})"
  by (auto simp: covered_def)

lemma covered_cong_set: "set xs = set ys \<Longrightarrow> covered k xs = covered k ys"
  by (simp add: covered_def)

section \<open>The insertion sort\<close>

abbreviation ascending :: "memory_region list \<Rightarrow> bool" where
  "ascending rs \<equiv> sorted (map region_lo rs)"

lemma insert_sorted_loop_shift:
  assumes "index < length a"
  shows "\<exists>i \<le> index. insert_sorted_loop a index r = (shift_right i index a, i)
    \<and> (\<forall>j. i \<le> j \<and> j < index \<longrightarrow> region_lo r < region_lo (a ! j))
    \<and> (0 < i \<longrightarrow> region_lo (a ! (i - 1)) \<le> region_lo r)"
  using assms
proof (induction index arbitrary: a)
  case 0
  then show ?case
    by (simp add: insert_sorted_loop.simps shift_right.simps)
next
  case (Suc n)
  show ?case
  proof (cases "mr_base r < mr_base (a ! n)")
    case True
    let ?a = "a[Suc n := a ! n]"
    from Suc.prems Suc.IH [of ?a] obtain i where i: "i \<le> n"
      "insert_sorted_loop ?a n r = (shift_right i n ?a, i)"
      "\<forall>j. i \<le> j \<and> j < n \<longrightarrow> region_lo r < region_lo (?a ! j)"
      "0 < i \<longrightarrow> region_lo (?a ! (i - 1)) \<le> region_lo r"
      by auto
    have "insert_sorted_loop a (Suc n) r = (shift_right i (Suc n) a, i)"
      using True i(1,2)
      by (simp add: insert_sorted_loop.simps [of a] shift_right.simps [of i "Suc n"])
    moreover have "region_lo r < region_lo (a ! j)" if "i \<le> j" "j < Suc n" for j
      using that True i(3) by (cases "j = n") (auto simp: region_lo_def word_less_nat_alt)
    moreover have "0 < i \<longrightarrow> region_lo (a ! (i - 1)) \<le> region_lo r"
      using i(1,4) by (auto simp: nth_list_update)
    ultimately show ?thesis
      using i(1) by (metis le_SucI)
  next
    case False
    then have "insert_sorted_loop a (Suc n) r = (shift_right (Suc n) (Suc n) a, Suc n)"
      by (simp add: insert_sorted_loop.simps shift_right.simps)
    with False show ?thesis
      by (intro exI [of _ "Suc n"]) (auto simp: region_lo_def word_less_nat_alt not_less)
  qed
qed

lemma insert_sorted_ok:
  assumes "ascending (take len a)" "len < length a"
  obtains a' where "insert_sorted a len r = Inr (a', Suc len)" "length a' = length a"
    "ascending (take (Suc len) a')" "set (take (Suc len) a') = insert r (set (take len a))"
proof -
  from insert_sorted_loop_shift [OF assms(2), of r] obtain i where i: "i \<le> len"
    "insert_sorted_loop a len r = (shift_right i len a, i)"
    "\<forall>j. i \<le> j \<and> j < len \<longrightarrow> region_lo r < region_lo (a ! j)"
    "0 < i \<longrightarrow> region_lo (a ! (i - 1)) \<le> region_lo r"
    by blast
  let ?a = "(shift_right i len a)[i := r]"
  let ?xs = "take len a"
  have take: "take (Suc len) ?a = take i ?xs @ r # drop i ?xs"
    using take_shift_right_insert [OF i(1) assms(2)] i(1) by (simp add: min_def)
  have low: "region_lo x \<le> region_lo r" if x: "x \<in> set (take i ?xs)" for x
  proof -
    from x obtain j where j: "j < i" "x = ?xs ! j"
      using assms(2) i(1) by (auto simp: in_set_conv_nth)
    then have "region_lo (?xs ! j) \<le> region_lo (?xs ! (i - 1))"
      using assms i(1) sorted_iff_nth_mono [THEN iffD1, OF assms(1), rule_format, of j "i - 1"]
      by simp
    with j i(1,4) assms(2) show ?thesis by simp
  qed
  have high: "region_lo r \<le> region_lo x" if x: "x \<in> set (drop i ?xs)" for x
    using x i(3) assms(2) by (auto simp: in_set_conv_nth less_imp_le)
  have "ascending (take i ?xs @ drop i ?xs)"
    using assms(1) by (simp only: append_take_drop_id)
  then have "ascending (take i ?xs @ r # drop i ?xs)"
    using low high unfolding map_append sorted_append by (auto simp del: append_take_drop_id)
  then have "ascending (take (Suc len) ?a)"
    by (simp only: take)
  moreover have "set ?xs = set (take i ?xs) \<union> set (drop i ?xs)"
    by (metis append_take_drop_id set_append)
  then have "set (take (Suc len) ?a) = insert r (set ?xs)"
    unfolding take by simp
  moreover have "insert_sorted a len r = Inr (?a, Suc len)"
    using assms(2) i(2) by (simp add: insert_sorted_def)
  moreover have "length ?a = length a"
    by simp
  ultimately show ?thesis
    using that by blast
qed

lemma insert_entries_ok:
  assumes "ascending (take len a)" "len + length es \<le> length a" "\<forall>e \<in> set es. region_ok e"
  shows "\<exists>a'. insert_entries a len es = Inr (a', len + length es) \<and> length a' = length a
    \<and> ascending (take (len + length es) a')
    \<and> set (take (len + length es) a') = set (take len a) \<union> set es"
  using assms
proof (induction es arbitrary: a len)
  case Nil
  then show ?case by simp
next
  case (Cons e es)
  then have "validate_region e = Inr ()"
    by (simp add: validate_region_ok)
  moreover obtain a' where a': "insert_sorted a len e = Inr (a', Suc len)" "length a' = length a"
    "ascending (take (Suc len) a')" "set (take (Suc len) a') = insert e (set (take len a))"
    using insert_sorted_ok [of len a e] Cons.prems by auto
  moreover from a' Cons.prems Cons.IH [of "Suc len" a'] obtain a'' where
    "insert_entries a' (Suc len) es = Inr (a'', Suc len + length es)" "length a'' = length a"
    "ascending (take (Suc len + length es) a'')"
    "set (take (Suc len + length es) a'') = set (take (Suc len) a') \<union> set es"
    by auto
  ultimately show ?case by simp
qed

lemma insert_entries_bad:
  assumes "\<not> (\<forall>e \<in> set es. region_ok e)" "len + length es \<le> length a" "ascending (take len a)"
  shows "\<exists>err. insert_entries a len es = Inl err \<and> kind err = InvalidMemoryMap"
  using assms
proof (induction es arbitrary: a len)
  case Nil
  then show ?case by simp
next
  case (Cons e es)
  show ?case
  proof (cases "region_ok e")
    case True
    obtain a' where "insert_sorted a len e = Inr (a', Suc len)" "length a' = length a"
      "ascending (take (Suc len) a')"
      using insert_sorted_ok [of len a e] Cons.prems by auto
    moreover have "validate_region e = Inr ()"
      using True by (simp add: validate_region_ok)
    ultimately show ?thesis
      using True Cons by simp
  next
    case False
    then obtain err where "validate_region e = Inl err"
      by (cases "validate_region e") (auto simp: validate_region_ok)
    then show ?thesis
      using validate_region_kind by auto
  qed
qed

section \<open>The merge pass\<close>

lemma take_last_split:
  assumes "0 < len" "len \<le> length a"
  shows "take len a = take (len - 1) a @ [a ! (len - 1)]"
  using assms take_Suc_conv_app_nth [of "len - 1" a] by simp

lemma gap_disjoint: "gap x y \<Longrightarrow> region_addrs x \<inter> region_addrs y = {}"
  by (auto simp: gap_def region_addrs_def)

text \<open>
  One step of the merge pass, when the new region starts no earlier than the last one of the
  table: it clashes with the last region, extends it, or follows it.
\<close>

lemma merge_region_overlap:
  assumes "0 < len" "region_ok (a ! (len - 1))" "region_ok r"
    and "region_lo (a ! (len - 1)) \<le> region_lo r" "region_lo r < region_hi (a ! (len - 1))"
    and "mr_kind r \<noteq> mr_kind (a ! (len - 1))"
  shows "\<exists>e. merge_region a len r = Inl e \<and> kind e = Overlap \<and> clash (a ! (len - 1)) r"
proof -
  let ?last = "a ! (len - 1)"
  from memory_region_end_exists [OF assms(2)] obtain le where
    "memory_region_end ?last = Inr le" "unat le = region_hi ?last"
    by (auto simp: memory_region_end_ok)
  moreover have "clash ?last r"
    using assms by (auto simp: clash_def region_addrs_def region_ok_def)
  ultimately show ?thesis
    using assms(1,5,6) by (auto simp: merge_region_def Let_def word_less_nat_alt region_lo_def)
qed

lemma merge_region_extend:
  assumes "0 < len" "region_ok (a ! (len - 1))" "region_ok r"
    and "region_lo (a ! (len - 1)) \<le> region_lo r" "region_lo r \<le> region_hi (a ! (len - 1))"
    and kinds: "mr_kind r = mr_kind (a ! (len - 1))"
  shows "\<exists>new. merge_region a len r = Inr (a[len - 1 := new], len)
    \<and> region_ok new \<and> mr_kind new = mr_kind (a ! (len - 1))
    \<and> region_lo new = region_lo (a ! (len - 1))
    \<and> region_addrs new = region_addrs (a ! (len - 1)) \<union> region_addrs r"
proof -
  let ?last = "a ! (len - 1)"
  from memory_region_end_exists [OF assms(2)] memory_region_end_exists [OF assms(3)]
  obtain le re where le: "memory_region_end ?last = Inr le" "unat le = region_hi ?last"
    and re: "memory_region_end r = Inr re" "unat re = region_hi r"
    by (auto simp: memory_region_end_ok)
  define me where "me = (if le < re then re else le)"
  define new where "new = ?last\<lparr>mr_length := me - mr_base ?last\<rparr>"
  have me: "unat me = max (region_hi ?last) (region_hi r)"
    using le(2) re(2) by (auto simp: me_def word_less_nat_alt)
  have le_me: "mr_base ?last \<le> me"
    using me assms(2)
    by (auto simp: word_le_nat_alt region_ok_def region_lo_def le_max_iff_disj)
  have new: "region_lo new = region_lo ?last" "mr_kind new = mr_kind ?last"
    "region_hi new = max (region_hi ?last) (region_hi r)"
    using unat_sub [OF le_me] le_me me
    by (simp_all add: new_def region_lo_def region_hi_def word_le_nat_alt)
  have "merge_region a len r = Inr (a[len - 1 := new], len)"
    using assms le re by (auto simp: merge_region_def Let_def word_less_nat_alt word_le_nat_alt
        new_def me_def region_lo_def)
  moreover have "region_addrs new = region_addrs ?last \<union> region_addrs r"
    using new assms by (auto simp: region_addrs_def region_ok_def less_max_iff_disj)
  moreover have "region_ok new"
    using new assms(2,3) by (auto simp: region_ok_def less_max_iff_disj)
  ultimately show ?thesis
    using new by blast
qed

lemma merge_region_append:
  assumes "0 < len" "len < length a" "region_ok (a ! (len - 1))" "gap (a ! (len - 1)) r"
  shows "merge_region a len r = Inr (a[len := r], Suc len)"
proof -
  from memory_region_end_exists [OF assms(3)] obtain le where
    "memory_region_end (a ! (len - 1)) = Inr le" "unat le = region_hi (a ! (len - 1))"
    by (auto simp: memory_region_end_ok)
  then show ?thesis
    using assms by (auto simp: merge_region_def Let_def gap_def word_less_nat_alt
        word_le_nat_alt region_lo_def)
qed

lemma normal_regions_snoc:
  "normal_regions (rs @ [r]) \<longleftrightarrow> normal_regions rs \<and> region_ok r \<and> (\<forall>x \<in> set rs. gap x r)"
  by (auto simp: normal_regions_def sorted_wrt_append)

lemma merge_region_step:
  assumes norm: "normal_regions (take len a)" and len: "len < length a" and ok: "region_ok r"
    and above: "len = 0 \<or> region_lo (a ! (len - 1)) \<le> region_lo r"
  shows "(\<exists>a' len'. merge_region a len r = Inr (a', len') \<and> length a' = length a
       \<and> len' \<le> Suc len \<and> 0 < len' \<and> normal_regions (take len' a')
       \<and> region_lo (a' ! (len' - 1)) \<le> region_lo r
       \<and> (\<forall>k. covered k (take len' a') = covered k (take len a) \<union> covered k [r]))
   \<or> (\<exists>e x. merge_region a len r = Inl e \<and> kind e = Overlap \<and> x \<in> set (take len a) \<and> clash x r)"
proof (cases "len = 0")
  case True
  moreover have "take 1 (a[0 := r]) = [r]"
    using len by (cases a) auto
  ultimately show ?thesis
    using ok len by (intro disjI1) (auto simp: merge_region_def normal_regions_def)
next
  case False
  let ?last = "a ! (len - 1)" and ?front = "take (len - 1) a"
  have split: "take len a = ?front @ [?last]"
    using False len by (intro take_last_split) auto
  with norm have front: "normal_regions ?front" "region_ok ?last" "\<forall>x \<in> set ?front. gap x ?last"
    by (auto simp: normal_regions_snoc)
  have lo: "region_lo ?last \<le> region_lo r"
    using above False by simp
  consider (overlap) "region_lo r < region_hi ?last" "mr_kind r \<noteq> mr_kind ?last"
    | (merge) "region_lo r \<le> region_hi ?last" "mr_kind r = mr_kind ?last"
    | (append) "gap ?last r"
    by (cases "mr_kind r = mr_kind ?last"; cases "region_hi ?last" "region_lo r" rule: linorder_cases)
      (auto simp: gap_def)
  then show ?thesis
  proof cases
    case overlap
    then show ?thesis
      using merge_region_overlap [of len a r] False front(2) ok lo split by auto
  next
    case merge
    then obtain new where new: "merge_region a len r = Inr (a[len - 1 := new], len)"
      "region_ok new" "mr_kind new = mr_kind ?last" "region_lo new = region_lo ?last"
      "region_addrs new = region_addrs ?last \<union> region_addrs r"
      using merge_region_extend [of len a r] False front(2) ok lo by auto
    have take: "take len (a[len - 1 := new]) = ?front @ [new]"
      using False len take_last_split [of len "a[len - 1 := new]"] by simp
    have "normal_regions (?front @ [new])"
      using front new by (auto simp: normal_regions_snoc gap_def)
    then show ?thesis
      using new take False len lo split merge(2)
      by (intro disjI1 exI [of _ "a[len - 1 := new]"] exI [of _ len]) auto
  next
    case append
    have take: "take (Suc len) (a[len := r]) = take len a @ [r]"
      using len by (simp add: take_Suc_conv_app_nth)
    have "\<forall>x \<in> set (take len a). gap x r"
      using append front(2,3) unfolding split by (auto simp: gap_def region_ok_def)
    then show ?thesis
      using merge_region_append [of len a r] append take False len norm ok front(2)
      by (intro disjI1) (auto simp: normal_regions_snoc)
  qed
qed

text \<open>
  The whole pass: it ends with a normal table over the same addresses, or it meets a region
  that shares an address with a region of another kind.
\<close>

lemma merge_entries_cases:
  assumes "normal_regions (take len a)" "len + length rs \<le> length a"
    "\<forall>r \<in> set rs. region_ok r" "ascending rs"
    "len = 0 \<or> (\<forall>r \<in> set rs. region_lo (a ! (len - 1)) \<le> region_lo r)"
  shows "(\<exists>a' len'. merge_entries a len rs = Inr (a', len') \<and> length a' = length a
       \<and> len' \<le> length a \<and> normal_regions (take len' a')
       \<and> (\<forall>k. covered k (take len' a') = covered k (take len a) \<union> covered k rs))
   \<or> (\<exists>e r k p. merge_entries a len rs = Inl e \<and> kind e = Overlap \<and> r \<in> set rs
       \<and> p \<in> region_addrs r \<and> k \<noteq> mr_kind r \<and> p \<in> covered k (take len a) \<union> covered k rs)"
  using assms
proof (induction rs arbitrary: a len)
  case Nil
  then show ?case by simp
next
  case (Cons r rs)
  have cov: "covered k (r # rs) = covered k [r] \<union> covered k rs" for k
    using covered_append [of k "[r]" rs] by simp
  from Cons.prems merge_region_step [of len a r]
  consider (ok) a' len' where "merge_region a len r = Inr (a', len')" "length a' = length a"
      "len' \<le> Suc len" "0 < len'" "normal_regions (take len' a')"
      "region_lo (a' ! (len' - 1)) \<le> region_lo r"
      "\<forall>k. covered k (take len' a') = covered k (take len a) \<union> covered k [r]"
    | (bad) e x where "merge_region a len r = Inl e" "kind e = Overlap"
      "x \<in> set (take len a)" "clash x r"
    by auto
  then show ?case
  proof cases
    case ok
    have "\<forall>q \<in> set rs. region_lo (a' ! (len' - 1)) \<le> region_lo q"
      using ok(6) Cons.prems(4) by fastforce
    with Cons.prems ok have prems: "len' + length rs \<le> length a'" "\<forall>r \<in> set rs. region_ok r"
      "ascending rs" "len' = 0 \<or> (\<forall>q \<in> set rs. region_lo (a' ! (len' - 1)) \<le> region_lo q)"
      by auto
    from Cons.IH [OF ok(5) prems] show ?thesis
    proof (elim disjE exE conjE)
      fix b n
      assume "merge_entries a' len' rs = Inr (b, n)" "length b = length a'" "n \<le> length a'"
        "normal_regions (take n b)"
        "\<forall>k. covered k (take n b) = covered k (take len' a') \<union> covered k rs"
      then show ?thesis
        using ok(1,2,7) cov by (intro disjI1 exI [of _ b] exI [of _ n]) (simp add: Un_assoc)
    next
      fix e q k p
      assume "merge_entries a' len' rs = Inl e" "kind e = Overlap" "q \<in> set rs"
        "p \<in> region_addrs q" "k \<noteq> mr_kind q" "p \<in> covered k (take len' a') \<union> covered k rs"
      then show ?thesis
        using ok(1,7) cov [of k]
        by (intro disjI2 exI [of _ e] exI [of _ q] exI [of _ k] exI [of _ p]) auto
    qed
  next
    case bad
    then obtain p where "p \<in> region_addrs x" "p \<in> region_addrs r" "mr_kind x \<noteq> mr_kind r"
      by (auto simp: clash_def)
    with bad show ?thesis
      by (intro disjI2) (auto simp: covered_def)
  qed
qed

lemma normal_regions_kinds_disjoint:
  assumes "normal_regions rs" "k \<noteq> k'"
  shows "covered k rs \<inter> covered k' rs = {}"
proof -
  have "region_addrs x \<inter> region_addrs y = {}"
    if x: "x \<in> set rs" "mr_kind x = k" and y: "y \<in> set rs" "mr_kind y = k'" for x y
  proof -
    from x(1) y(1) obtain i j where ij: "i < length rs" "j < length rs" "x = rs ! i" "y = rs ! j"
      by (auto simp: in_set_conv_nth)
    with x y assms(2) have "i \<noteq> j" by auto
    then consider "i < j" | "j < i" by linarith
    then show ?thesis
      using assms(1) ij gap_disjoint sorted_wrt_nth_less [of gap rs]
      unfolding normal_regions_def by cases (blast, metis inf_commute)
  qed
  then show ?thesis
    unfolding covered_def by blast
qed

lemma from_entries_cases:
  assumes "length entries \<le> n" "\<forall>e \<in> set entries. region_ok e"
  shows "(\<exists>m. from_entries n entries = Inr m \<and> length (mm_regions m) = n \<and> mm_len m \<le> n
       \<and> normal_regions (map_regions m) \<and> (\<forall>k. covered k (map_regions m) = covered k entries))
   \<or> (\<exists>e x y. from_entries n entries = Inl e \<and> kind e = Overlap \<and> x \<in> set entries
       \<and> y \<in> set entries \<and> clash x y)"
proof -
  let ?e = "replicate n memory_region_empty"
  from insert_entries_ok [of 0 ?e entries] assms obtain s where s:
    "insert_entries ?e 0 entries = Inr (s, length entries)" "length s = n"
    "ascending (take (length entries) s)" "set (take (length entries) s) = set entries"
    by auto
  let ?s = "take (length entries) s"
  have "(\<exists>a' len'. merge_entries ?e 0 ?s = Inr (a', len') \<and> length a' = n
       \<and> len' \<le> n \<and> normal_regions (take len' a')
       \<and> (\<forall>k. covered k (take len' a') = covered k entries))
   \<or> (\<exists>e r k p. merge_entries ?e 0 ?s = Inl e \<and> kind e = Overlap \<and> r \<in> set entries
       \<and> p \<in> region_addrs r \<and> k \<noteq> mr_kind r \<and> p \<in> covered k entries)"
    using merge_entries_cases [of 0 ?e ?s] s assms covered_cong_set [OF s(4)]
    by (simp add: normal_regions_def)
  then show ?thesis
  proof (elim disjE exE conjE)
    fix a' len'
    assume "merge_entries ?e 0 ?s = Inr (a', len')" "length a' = n" "len' \<le> n"
      "normal_regions (take len' a')" "\<forall>k. covered k (take len' a') = covered k entries"
    then show ?thesis
      using s(1) assms(1)
      by (intro disjI1 exI [of _ "\<lparr>mm_regions = a', mm_len = len'\<rparr>"])
        (simp add: from_entries_def map_regions_def)
  next
    fix e r k p
    assume e: "merge_entries ?e 0 ?s = Inl e" "kind e = Overlap" "r \<in> set entries"
      "p \<in> region_addrs r" "k \<noteq> mr_kind r" "p \<in> covered k entries"
    then obtain x where x: "x \<in> set entries" "mr_kind x = k" "p \<in> region_addrs x"
      by (auto simp: covered_def)
    with e have "clash x r"
      by (auto simp: clash_def)
    with e x show ?thesis
      using s(1) assms(1)
      by (intro disjI2 exI [of _ e] exI [of _ x] exI [of _ r]) (simp add: from_entries_def)
  qed
qed

lemma from_entries_invalid:
  assumes "length entries \<le> n" "\<not> (\<forall>e \<in> set entries. region_ok e)"
  shows "\<exists>e. from_entries n entries = Inl e \<and> kind e = InvalidMemoryMap"
  using insert_entries_bad [of entries 0 "replicate n memory_region_empty"] assms
  by (auto simp: from_entries_def)

lemma from_entries_okD:
  assumes "from_entries n entries = Inr m"
  shows "length entries \<le> n \<and> (\<forall>e \<in> set entries. region_ok e)"
  using assms from_entries_invalid [of entries n]
  by (auto simp: from_entries_def split: if_splits)

lemma covered_no_clash:
  assumes "normal_regions rs" "\<forall>k. covered k rs = covered k entries"
    "x \<in> set entries" "y \<in> set entries"
  shows "\<not> clash x y"
proof
  assume "clash x y"
  then obtain p where "p \<in> covered (mr_kind x) entries" "p \<in> covered (mr_kind y) entries"
    "mr_kind x \<noteq> mr_kind y"
    using assms(3,4) by (auto simp: clash_def covered_def)
  with assms(1,2) normal_regions_kinds_disjoint show False
    by blast
qed

section \<open>Correctness of the build\<close>

text \<open>
  C6. A memory map that \<open>from_entries\<close> builds is in normal form: its regions are valid, ascend,
  do not overlap and are coalesced (two neighbours touch only if their kinds differ). For every
  kind it covers exactly the addresses that the firmware entries of that kind cover, so no usable
  address is lost or invented.
\<close>

theorem from_entries_normal_form:
  assumes "from_entries n entries = Inr m"
  shows "mm_len m \<le> n \<and> normal_regions (map_regions m)
    \<and> covered k (map_regions m) = covered k entries"
proof -
  from from_entries_okD [OF assms] have "length entries \<le> n" "\<forall>e \<in> set entries. region_ok e"
    by blast+
  from from_entries_cases [OF this] assms show ?thesis
    by auto
qed

definition demo_entries :: "memory_region list" where
  "demo_entries =
     [memory_region_new 0x3000 0x1000 Reserved, memory_region_new 0x1000 0x1000 Usable,
      memory_region_new 0x2000 0x1000 Usable]"

definition demo_map :: memory_map where
  "demo_map = \<lparr>mm_regions = [memory_region_new 0x1000 0x2000 Usable,
       memory_region_new 0x3000 0x1000 Reserved, memory_region_empty, memory_region_empty],
     mm_len = 2\<rparr>"

lemma from_entries_demo: "from_entries 4 demo_entries = Inr demo_map"
  by (simp add: from_entries_def demo_entries_def demo_map_def memory_region_new_def
      memory_region_empty_def validate_region_def memory_region_end_def checked_add_def
      insert_sorted_def insert_sorted_loop.simps merge_region_def replicate_small)

theorem from_entries_normal_form_witness:
  "from_entries 4 demo_entries = Inr demo_map \<and> normal_regions (map_regions demo_map)
    \<and> covered Usable (map_regions demo_map) = covered Usable demo_entries"
  using from_entries_demo from_entries_normal_form [OF from_entries_demo] by simp

text \<open>
  The outcome of \<open>from_entries\<close> is decided by three conditions, in this order: too many
  entries for the table gives \<open>CapacityExceeded\<close>; otherwise an empty or overflowing entry
  gives \<open>InvalidMemoryMap\<close>; otherwise two entries of different kinds that share an address
  give \<open>Overlap\<close>; otherwise the map is built. In particular the internal sort and merge
  tables never run full.
\<close>

theorem from_entries_outcome:
  "(case from_entries n entries of
      Inl e \<Rightarrow> kind e =
        (if n < length entries then CapacityExceeded
         else if \<not> (\<forall>x \<in> set entries. region_ok x) then InvalidMemoryMap
         else Overlap)
        \<and> (kind e = Overlap \<longrightarrow> (\<exists>x \<in> set entries. \<exists>y \<in> set entries. clash x y))
    | Inr m \<Rightarrow> length entries \<le> n \<and> (\<forall>x \<in> set entries. region_ok x)
        \<and> (\<forall>x \<in> set entries. \<forall>y \<in> set entries. \<not> clash x y))"
proof (cases "n < length entries")
  case True
  then show ?thesis by (simp add: from_entries_def)
next
  case False
  show ?thesis
  proof (cases "\<forall>x \<in> set entries. region_ok x")
    case True
    with False from_entries_cases [of entries n] show ?thesis
      using covered_no_clash by (auto simp: not_less) blast+
  next
    case invalid: False
    with False from_entries_invalid [of entries n] show ?thesis
      by auto
  qed
qed

theorem from_entries_outcome_witness:
  "from_entries 4 demo_entries = Inr demo_map
    \<and> \<not> clash (memory_region_new 0x3000 0x1000 Reserved) (memory_region_new 0x1000 0x1000 Usable)"
  using from_entries_outcome [of 4 demo_entries] from_entries_demo by (simp add: demo_entries_def)

end
