(* ===== verification/Page_Allocator.thy ===== *)
theory Page_Allocator
  imports Memory_Map
begin

text \<open>
  The physical page allocator of \<open>crates/aegishv-hypervisor-core/src/allocator.rs\<close>: a sorted
  table of free page runs and a table of allocated pages, both fixed arrays with a length. The
  const parameters \<open>R\<close> and \<open>A\<close> of the source are the lengths of the two arrays.
  Every operation of the source is a definition that returns its result with the state it
  leaves.

  The theory \<open>Page_Allocator_Correct\<close> relates these tables to sets of free and allocated
  pages.
\<close>

section \<open>Types and constants\<close>

definition PAGE_SIZE_4K :: u64 where
  "PAGE_SIZE_4K = 4096"

record page_allocation_constraint =
  min_address :: u64
  max_address_exclusive :: u64

definition constraint_new :: "u64 \<Rightarrow> u64 \<Rightarrow> page_allocation_constraint core_result" where
  "constraint_new mn mx =
     (if mx \<le> mn
      then Inl (CoreError InvalidAddress ''physical allocation constraint has an empty address range'')
      else Inr \<lparr>min_address = mn, max_address_exclusive = mx\<rparr>)"

definition constraint_any :: page_allocation_constraint where
  "constraint_any = \<lparr>min_address = 0, max_address_exclusive = - 1\<rparr>"

record page_run =
  pr_start :: u64
  pr_count :: u64

definition page_run_empty :: page_run where
  "page_run_empty = \<lparr>pr_start = 0, pr_count = 0\<rparr>"

definition page_run_end :: "page_run \<Rightarrow> u64 core_result" where
  "page_run_end r =
     ok_or (checked_add (pr_start r) (saturating_mul (pr_count r) PAGE_SIZE_4K))
       (CoreError InvalidAddress ''page run end address overflowed'')"

record page_allocator =
  pa_free :: "page_run list"
  pa_free_len :: nat
  pa_allocated :: "u64 list"
  pa_allocated_len :: nat

section \<open>Helpers\<close>

definition align_up :: "u64 \<Rightarrow> u64 \<Rightarrow> u64 core_result" where
  "align_up v align =
     (let m = align - 1 in
      ok_or (map_option (\<lambda>x. x AND NOT m) (checked_add v m))
        (CoreError InvalidAddress ''address alignment overflowed''))"

definition align_down :: "u64 \<Rightarrow> u64 \<Rightarrow> u64" where
  "align_down v align = v AND NOT (align - 1)"

definition remove_run :: "page_run list \<Rightarrow> nat \<Rightarrow> nat \<Rightarrow> page_run list \<times> nat" where
  "remove_run runs len index = ((shift_left index len runs)[len - 1 := page_run_empty], len - 1)"

definition remove_allocated :: "u64 list \<Rightarrow> nat \<Rightarrow> nat \<Rightarrow> u64 list \<times> nat" where
  "remove_allocated pages len index = ((shift_left index len pages)[len - 1 := 0], len - 1)"

definition set_free :: "page_allocator \<Rightarrow> page_run list \<times> nat \<Rightarrow> page_allocator" where
  "set_free s p = s\<lparr>pa_free := fst p, pa_free_len := snd p\<rparr>"

definition free_pages :: "page_allocator \<Rightarrow> u64" where
  "free_pages s = foldl (\<lambda>pages r. pages + pr_count r) 0 (take (pa_free_len s) (pa_free s))"

abbreviation allocated_pages :: "page_allocator \<Rightarrow> nat" where
  "allocated_pages s \<equiv> pa_allocated_len s"

section \<open>Inserting a free run\<close>

text \<open>The scan \<^verbatim>\<open>while index < free_len && free[index].start < run.start\<close>.\<close>

function free_index :: "page_run list \<Rightarrow> nat \<Rightarrow> u64 \<Rightarrow> nat \<Rightarrow> nat" where
  "free_index runs len start index =
     (if index < len \<and> pr_start (runs ! index) < start
      then free_index runs len start (index + 1) else index)"
  by pat_completeness auto
termination
  by (relation "measure (\<lambda>(runs, len, start, index). len - index)") auto

definition merged_count :: "u64 \<Rightarrow> u64 \<Rightarrow> u64 core_result" where
  "merged_count left right =
     ok_or (checked_add left right)
       (CoreError InvalidAddress ''physical allocator page-run count overflowed'')"

abbreviation free_list_overlap :: core_error where
  "free_list_overlap \<equiv> CoreError Overlap ''physical allocator free list overlaps''"

definition merge_left :: "page_allocator \<Rightarrow> nat \<Rightarrow> page_run \<Rightarrow> bool core_result" where
  "merge_left s index run =
     (if 0 < index
      then case page_run_end (pa_free s ! (index - 1)) of
             Inl e \<Rightarrow> Inl e
           | Inr previous_end \<Rightarrow>
               if pr_start run < previous_end then Inl free_list_overlap
               else Inr (previous_end = pr_start run)
      else Inr False)"

definition merge_right :: "page_allocator \<Rightarrow> nat \<Rightarrow> u64 \<Rightarrow> bool core_result" where
  "merge_right s index run_end =
     (if index < pa_free_len s
      then if pr_start (pa_free s ! index) < run_end then Inl free_list_overlap
           else Inr (run_end = pr_start (pa_free s ! index))
      else Inr False)"

definition insert_free_run :: "page_allocator \<Rightarrow> page_run \<Rightarrow> unit core_result \<times> page_allocator" where
  "insert_free_run s run =
     (if pr_count run = 0 then (Inr (), s)
      else case page_run_end run of
        Inl e \<Rightarrow> (Inl e, s)
      | Inr run_end \<Rightarrow>
         (let free = pa_free s; len = pa_free_len s; index = free_index free len (pr_start run) 0 in
          case merge_left s index run of
            Inl e \<Rightarrow> (Inl e, s)
          | Inr ml \<Rightarrow>
             (case merge_right s index run_end of
                Inl e \<Rightarrow> (Inl e, s)
              | Inr mr \<Rightarrow>
                 (case (ml, mr) of
                    (True, True) \<Rightarrow>
                      (case merged_count (pr_count (free ! (index - 1))) (pr_count run) of
                         Inl e \<Rightarrow> (Inl e, s)
                       | Inr c \<Rightarrow>
                          (case merged_count c (pr_count (free ! index)) of
                             Inl e \<Rightarrow> (Inl e, s)
                           | Inr c' \<Rightarrow>
                               (Inr (), set_free s
                                  (remove_run (free[index - 1 := (free ! (index - 1))\<lparr>pr_count := c'\<rparr>])
                                     len index))))
                  | (True, False) \<Rightarrow>
                      (case merged_count (pr_count (free ! (index - 1))) (pr_count run) of
                         Inl e \<Rightarrow> (Inl e, s)
                       | Inr c \<Rightarrow>
                           (Inr (), set_free s
                              (free[index - 1 := (free ! (index - 1))\<lparr>pr_count := c\<rparr>], len)))
                  | (False, True) \<Rightarrow>
                      (case merged_count (pr_count run) (pr_count (free ! index)) of
                         Inl e \<Rightarrow> (Inl e, s)
                       | Inr c \<Rightarrow>
                           (Inr (), set_free s
                              (free[index := \<lparr>pr_start = pr_start run, pr_count = c\<rparr>], len)))
                  | (False, False) \<Rightarrow>
                      (if length free \<le> len
                       then (Inl (CoreError CapacityExceeded
                               ''physical allocator free-run table is full''), s)
                       else (Inr (), set_free s
                               ((shift_right index len free)[index := run], len + 1)))))))"

section \<open>Building the allocator\<close>

fun add_usable :: "page_allocator \<Rightarrow> memory_region list \<Rightarrow> page_allocator core_result" where
  "add_usable s [] = Inr s"
| "add_usable s (region # rs) =
     (case align_up (mr_base region) PAGE_SIZE_4K of
        Inl e \<Rightarrow> Inl e
      | Inr start \<Rightarrow>
         (case memory_region_end region of
            Inl e \<Rightarrow> Inl e
          | Inr raw_end \<Rightarrow>
             (let stop = align_down raw_end PAGE_SIZE_4K in
              if stop \<le> start then add_usable s rs
              else case insert_free_run s
                     \<lparr>pr_start = start, pr_count = (stop - start) div PAGE_SIZE_4K\<rparr> of
                  (Inl e, _) \<Rightarrow> Inl e
                | (Inr _, s') \<Rightarrow> add_usable s' rs)))"

definition from_memory_map :: "nat \<Rightarrow> nat \<Rightarrow> memory_map \<Rightarrow> page_allocator core_result" where
  "from_memory_map r a m =
     add_usable
       \<lparr>pa_free = replicate r page_run_empty, pa_free_len = 0,
        pa_allocated = replicate a 0, pa_allocated_len = 0\<rparr>
       (usable_regions m)"

section \<open>Allocating\<close>

text \<open>The \<open>for\<close> loop of \<open>allocate_within\<close> over the free runs from \<open>index\<close> on.\<close>

fun select_run ::
  "page_allocation_constraint \<Rightarrow> nat \<Rightarrow> page_run list \<Rightarrow> (nat \<times> u64 \<times> u64) option core_result" where
  "select_run c index [] = Inr None"
| "select_run c index (run # runs) =
     (case page_run_end run of
        Inl e \<Rightarrow> Inl e
      | Inr run_end \<Rightarrow>
         (case align_up (max (pr_start run) (min_address c)) PAGE_SIZE_4K of
            Inl e \<Rightarrow> Inl e
          | Inr candidate \<Rightarrow>
             (case checked_add candidate PAGE_SIZE_4K of
                None \<Rightarrow> select_run c (index + 1) runs
              | Some candidate_end \<Rightarrow>
                  if candidate_end \<le> min run_end (max_address_exclusive c)
                  then Inr (Some (index, candidate, run_end))
                  else select_run c (index + 1) runs)))"

definition take_page_from_run ::
  "page_allocator \<Rightarrow> nat \<Rightarrow> u64 \<Rightarrow> u64 \<Rightarrow> unit core_result \<times> page_allocator" where
  "take_page_from_run s index page run_end =
     (let free = pa_free s; len = pa_free_len s; run = free ! index;
          page_end = page + PAGE_SIZE_4K;
          before = (page - pr_start run) div PAGE_SIZE_4K;
          after = (run_end - page_end) div PAGE_SIZE_4K in
      if before = 0 \<and> after = 0 then (Inr (), set_free s (remove_run free len index))
      else if before = 0
      then (Inr (), set_free s (free[index := \<lparr>pr_start = page_end, pr_count = after\<rparr>], len))
      else if after = 0
      then (Inr (), set_free s (free[index := run\<lparr>pr_count := before\<rparr>], len))
      else if length free \<le> len
      then (Inl (CoreError CapacityExceeded
              ''physical allocator cannot split a free run at the requested page''), s)
      else (Inr (), set_free s
              ((shift_right (index + 1) len free)
                 [index := run\<lparr>pr_count := before\<rparr>,
                  index + 1 := \<lparr>pr_start = page_end, pr_count = after\<rparr>], len + 1)))"

definition allocate_within ::
  "page_allocator \<Rightarrow> page_allocation_constraint \<Rightarrow> host_physical core_result \<times> page_allocator" where
  "allocate_within s c =
     (if max_address_exclusive c \<le> min_address c
      then (Inl (CoreError InvalidAddress
              ''physical allocation constraint has an empty address range''), s)
      else if length (pa_allocated s) \<le> pa_allocated_len s
      then (Inl (CoreError CapacityExceeded
              ''physical allocator allocation tracking table is full''), s)
      else case select_run c 0 (take (pa_free_len s) (pa_free s)) of
        Inl e \<Rightarrow> (Inl e, s)
      | Inr None \<Rightarrow>
          (Inl (CoreError OutOfMemory
             ''physical allocator has no free 4K page in the requested address range''), s)
      | Inr (Some (run_index, page, run_end)) \<Rightarrow>
          (case take_page_from_run s run_index page run_end of
             (Inl e, s') \<Rightarrow> (Inl e, s')
           | (Inr _, s') \<Rightarrow>
               (host_physical_new page,
                s'\<lparr>pa_allocated := (pa_allocated s')[pa_allocated_len s' := page],
                   pa_allocated_len := pa_allocated_len s' + 1\<rparr>)))"

definition allocate :: "page_allocator \<Rightarrow> host_physical core_result \<times> page_allocator" where
  "allocate s = allocate_within s constraint_any"

section \<open>Freeing\<close>

definition free_page :: "page_allocator \<Rightarrow> host_physical \<Rightarrow> unit core_result \<times> page_allocator" where
  "free_page s page =
     (if hpa_get page mod PAGE_SIZE_4K \<noteq> 0
      then (Inl (CoreError InvalidAddress ''physical page free address is not 4K aligned''), s)
      else case position (\<lambda>entry. entry = hpa_get page) (take (pa_allocated_len s) (pa_allocated s)) of
        None \<Rightarrow> (Inl (CoreError DoubleFree ''physical page was not allocated by this allocator''), s)
      | Some index \<Rightarrow>
          (case insert_free_run s \<lparr>pr_start = hpa_get page, pr_count = 1\<rparr> of
             (Inl e, s') \<Rightarrow> (Inl e, s')
           | (Inr _, s') \<Rightarrow>
               (let (pages, len) = remove_allocated (pa_allocated s') (pa_allocated_len s') index
                in (Inr (), s'\<lparr>pa_allocated := pages, pa_allocated_len := len\<rparr>))))"

text \<open>
  \<open>allocate_zeroed\<close> takes a \<open>PageZeroer\<close>, a trait the crate's users implement: it is the
  parameter \<open>zero_page\<close>, a function on the zeroer's own state.
\<close>

definition allocate_zeroed ::
  "('z \<Rightarrow> host_physical \<Rightarrow> unit core_result \<times> 'z) \<Rightarrow> page_allocator \<Rightarrow> 'z
     \<Rightarrow> host_physical core_result \<times> page_allocator \<times> 'z" where
  "allocate_zeroed zero_page s z =
     (case allocate s of
        (Inl e, s') \<Rightarrow> (Inl e, s', z)
      | (Inr page, s') \<Rightarrow>
          (case zero_page z page of
             (Inr _, z') \<Rightarrow> (Inr page, s', z')
           | (Inl err, z') \<Rightarrow>
               (case free_page s' page of
                  (Inl e, s'') \<Rightarrow> (Inl e, s'', z')
                | (Inr _, s'') \<Rightarrow> (Inl err, s'', z'))))"

section \<open>Reserving a range\<close>

text \<open>
  The second loop of \<open>reserve_range\<close>: refuse when the range lies strictly inside a run and
  the table has no room for the split.
\<close>

fun reserve_check :: "nat \<Rightarrow> nat \<Rightarrow> u64 \<Rightarrow> u64 \<Rightarrow> page_run list \<Rightarrow> unit core_result" where
  "reserve_check cap len start stop [] = Inr ()"
| "reserve_check cap len start stop (run # runs) =
     (case page_run_end run of
        Inl e \<Rightarrow> Inl e
      | Inr run_end \<Rightarrow>
          if pr_start run < start \<and> stop < run_end \<and> cap \<le> len
          then Inl (CoreError CapacityExceeded
                 ''physical allocator cannot split a free run for a reservation'')
          else reserve_check cap len start stop runs)"

text \<open>The main loop of \<open>reserve_range\<close>; the table shrinks or the index advances.\<close>

function reserve_loop :: "u64 \<Rightarrow> u64 \<Rightarrow> page_run list \<Rightarrow> nat \<Rightarrow> nat \<Rightarrow> unit core_result \<times> page_run list \<times> nat" where
  "reserve_loop start stop free len index =
     (if index < len then
        let run = free ! index in
        case page_run_end run of
          Inl e \<Rightarrow> (Inl e, free, len)
        | Inr run_end \<Rightarrow>
            if stop \<le> pr_start run then (Inr (), free, len)
            else if run_end \<le> start then reserve_loop start stop free len (index + 1)
            else
              let left = (if pr_start run < start then (start - pr_start run) div PAGE_SIZE_4K else 0);
                  right = (if stop < run_end then (run_end - stop) div PAGE_SIZE_4K else 0) in
              if left = 0 \<and> right = 0
              then reserve_loop start stop (fst (remove_run free len index)) (len - 1) index
              else if left = 0
              then reserve_loop start stop (free[index := \<lparr>pr_start = stop, pr_count = right\<rparr>])
                     len (index + 1)
              else if right = 0
              then reserve_loop start stop (free[index := run\<lparr>pr_count := left\<rparr>]) len (index + 1)
              else reserve_loop start stop
                     ((shift_right (index + 1) len free)
                        [index := run\<lparr>pr_count := left\<rparr>,
                         index + 1 := \<lparr>pr_start = stop, pr_count = right\<rparr>]) (len + 1) (index + 2)
      else (Inr (), free, len))"
  by pat_completeness auto
termination
  by (relation "measure (\<lambda>(start, stop, free, len, index). len - index)") auto

definition reserve_range ::
  "page_allocator \<Rightarrow> u64 \<Rightarrow> u64 \<Rightarrow> u64 core_result \<times> page_allocator" where
  "reserve_range s base len =
     (if len = 0
      then (Inl (CoreError InvalidAddress ''physical reservation has an empty address range''), s)
      else case checked_add base len of
        None \<Rightarrow> (Inl (CoreError InvalidAddress ''physical reservation end address overflowed''), s)
      | Some raw_end \<Rightarrow>
         (let start = align_down base PAGE_SIZE_4K in
          case align_up raw_end PAGE_SIZE_4K of
            Inl e \<Rightarrow> (Inl e, s)
          | Inr stop \<Rightarrow>
              if \<exists>page \<in> set (take (pa_allocated_len s) (pa_allocated s)).
                   page < stop \<and> start < page + PAGE_SIZE_4K
              then (Inl (CoreError Overlap ''physical reservation overlaps an allocated page''), s)
              else case reserve_check (length (pa_free s)) (pa_free_len s) start stop
                     (take (pa_free_len s) (pa_free s)) of
                Inl e \<Rightarrow> (Inl e, s)
              | Inr _ \<Rightarrow>
                 (case reserve_loop start stop (pa_free s) (pa_free_len s) 0 of
                    (Inl e, free', len') \<Rightarrow> (Inl e, set_free s (free', len'))
                  | (Inr _, free', len') \<Rightarrow>
                      (let s' = set_free s (free', len')
                       in (Inr (free_pages s - free_pages s'), s')))))"

declare free_index.simps [simp del] reserve_loop.simps [simp del]

end
