(* ===== verification/Page_Runs.thy ===== *)
theory Page_Runs
  imports Page_Allocator
begin

text \<open>
  The free-run table of the page allocator, read as a set of page base addresses: well-formed run
  lists, the pages they hold, the address arithmetic of \<open>allocator.rs\<close>, and the correctness of
  \<open>insert_free_run\<close>, which adds exactly the pages of a run and keeps the table sorted and coalesced.
\<close>

section \<open>Runs as sets of pages\<close>

definition run_lo :: "page_run \<Rightarrow> nat" where
  "run_lo r = unat (pr_start r)"

definition run_hi :: "page_run \<Rightarrow> nat" where
  "run_hi r = unat (pr_start r) + unat (pr_count r) * 4096"

definition run_ok :: "page_run \<Rightarrow> bool" where
  "run_ok r \<longleftrightarrow> 4096 dvd run_lo r \<and> run_lo r < run_hi r \<and> run_hi r < 2 ^ 64"

text \<open>The base addresses of the 4 KiB pages in \<open>[lo, hi)\<close>.\<close>

definition pages_in :: "nat \<Rightarrow> nat \<Rightarrow> nat set" where
  "pages_in lo hi = {p. 4096 dvd p \<and> lo \<le> p \<and> p < hi}"

definition run_pages :: "page_run \<Rightarrow> nat set" where
  "run_pages r = pages_in (run_lo r) (run_hi r)"

definition pages_of :: "page_run list \<Rightarrow> nat set" where
  "pages_of rs = (\<Union>r \<in> set rs. run_pages r)"

definition runs_ok :: "page_run list \<Rightarrow> bool" where
  "runs_ok rs \<longleftrightarrow> (\<forall>r \<in> set rs. run_ok r) \<and> sorted_wrt (\<lambda>x y. run_hi x < run_lo y) rs"

definition live_runs :: "page_allocator \<Rightarrow> page_run list" where
  "live_runs s = take (pa_free_len s) (pa_free s)"

definition live_pages :: "page_allocator \<Rightarrow> u64 list" where
  "live_pages s = take (pa_allocated_len s) (pa_allocated s)"

definition free_set :: "page_allocator \<Rightarrow> nat set" where
  "free_set s = pages_of (live_runs s)"

definition alloc_set :: "page_allocator \<Rightarrow> nat set" where
  "alloc_set s = unat ` set (live_pages s)"

text \<open>
  The invariant: the tables fit their arrays, the free runs are aligned, ascending and fully
  coalesced (no two runs touch), the allocated pages are aligned and distinct, and no page is
  both free and allocated.
\<close>

definition alloc_inv :: "page_allocator \<Rightarrow> bool" where
  "alloc_inv s \<longleftrightarrow>
     pa_free_len s \<le> length (pa_free s) \<and> pa_allocated_len s \<le> length (pa_allocated s)
     \<and> runs_ok (live_runs s)
     \<and> distinct (live_pages s)
     \<and> (\<forall>p \<in> set (live_pages s). 4096 dvd unat p \<and> unat p + 4096 < 2 ^ 64)
     \<and> free_set s \<inter> alloc_set s = {}"

lemmas run_defs = run_lo_def run_hi_def

lemma length_live_runs: "pa_free_len s \<le> length (pa_free s) \<Longrightarrow> length (live_runs s) = pa_free_len s"
  by (simp add: live_runs_def)

lemma nth_live_runs: "j < length (live_runs s) \<Longrightarrow> pa_free s ! j = live_runs s ! j"
  by (simp add: live_runs_def)

subsection \<open>Pages of an interval\<close>

lemma pages_in_iff [simp]: "p \<in> pages_in lo hi \<longleftrightarrow> 4096 dvd p \<and> lo \<le> p \<and> p < hi"
  by (simp add: pages_in_def)

lemma pages_of_simps [simp]:
  "pages_of [] = {}" "pages_of (r # rs) = run_pages r \<union> pages_of rs"
  "pages_of (rs @ rs') = pages_of rs \<union> pages_of rs'"
  by (auto simp: pages_of_def)

lemma pages_in_split: "lo \<le> mid \<Longrightarrow> mid \<le> hi \<Longrightarrow> pages_in lo hi = pages_in lo mid \<union> pages_in mid hi"
  by auto

lemma run_pages_lo: "run_ok r \<Longrightarrow> run_lo r \<in> run_pages r"
  by (simp add: run_ok_def run_pages_def)

lemma run_hi_dvd: "run_ok r \<Longrightarrow> 4096 dvd run_hi r"
  by (simp add: run_ok_def run_defs)

lemma page_below_hi: "4096 dvd p \<Longrightarrow> 4096 dvd h \<Longrightarrow> p < h \<Longrightarrow> p + 4096 \<le> (h::nat)"
  by (auto elim!: dvdE)

lemma pages_in_bij: "bij_betw (\<lambda>k. lo + k * 4096) {..<n} (pages_in lo (lo + n * 4096))"
  if "4096 dvd lo"
proof (rule bij_betw_byWitness [where f' = "\<lambda>p. (p - lo) div 4096"])
  show "(\<lambda>k. lo + k * 4096) ` {..<n} \<subseteq> pages_in lo (lo + n * 4096)"
    using that by auto
  show "(\<lambda>p. (p - lo) div 4096) ` pages_in lo (lo + n * 4096) \<subseteq> {..<n}"
    by (auto simp: div_less_iff_less_mult)
  show "\<forall>p \<in> pages_in lo (lo + n * 4096). lo + (p - lo) div 4096 * 4096 = p"
    using that by (auto simp: dvd_diff_nat)
qed simp

lemma card_pages_in: "4096 dvd lo \<Longrightarrow> card (pages_in lo (lo + n * 4096)) = n"
  using bij_betw_same_card [OF pages_in_bij] by simp

lemma finite_pages_in [simp]: "finite (pages_in lo hi)"
  by (rule finite_subset [of _ "{..<hi}"]) auto

lemma finite_pages_of [simp]: "finite (pages_of rs)"
  by (auto simp: pages_of_def run_pages_def)

lemma card_run_pages: "run_ok r \<Longrightarrow> card (run_pages r) = unat (pr_count r)"
  using card_pages_in [of "run_lo r" "unat (pr_count r)"]
  by (simp add: run_pages_def run_ok_def run_defs)

subsection \<open>Well-formed run lists\<close>

lemma runs_ok_append:
  "runs_ok (xs @ ys) \<longleftrightarrow> runs_ok xs \<and> runs_ok ys \<and> (\<forall>x \<in> set xs. \<forall>y \<in> set ys. run_hi x < run_lo y)"
  by (auto simp: runs_ok_def sorted_wrt_append)

lemma runs_ok_Cons:
  "runs_ok (x # xs) \<longleftrightarrow> run_ok x \<and> runs_ok xs \<and> (\<forall>y \<in> set xs. run_hi x < run_lo y)"
  by (auto simp: runs_ok_def)

lemma runs_ok_Nil [simp]: "runs_ok []"
  by (simp add: runs_ok_def)

lemmas runs_ok_split = runs_ok_append runs_ok_Cons

lemma runs_okD: "runs_ok rs \<Longrightarrow> r \<in> set rs \<Longrightarrow> run_ok r"
  by (simp add: runs_ok_def)

lemma run_pages_before: "run_ok y \<Longrightarrow> run_hi x < run_lo y \<Longrightarrow> run_pages x \<inter> run_pages y = {}"
  by (auto simp: run_pages_def)

lemma pages_of_disjoint: "runs_ok (x # xs) \<Longrightarrow> run_pages x \<inter> pages_of xs = {}"
  by (fastforce simp: runs_ok_Cons pages_of_def run_pages_def)

subsection \<open>Address arithmetic of the code\<close>

lemma align_down_4K: "unat (align_down v PAGE_SIZE_4K) = unat v div 4096 * 4096"
  using unat_and_not_4095 [of v] by (simp add: align_down_def PAGE_SIZE_4K_def)

lemma align_up_4K:
  "align_up v PAGE_SIZE_4K = Inr w
     \<longleftrightarrow> unat v + 4095 < 2 ^ 64 \<and> unat w = (unat v + 4095) div 4096 * 4096"
proof (cases rule: checked_add_cases [of v 4095])
  case (Some c)
  then have "unat v + 4095 < 2 ^ 64"
    using unat_lt_64 [of c] by simp
  with Some show ?thesis
    using unat_and_not_4095 [of c]
    by (auto simp: align_up_def PAGE_SIZE_4K_def word_unat_eq_iff)
next
  case None
  then show ?thesis
    by (simp add: align_up_def PAGE_SIZE_4K_def)
qed

lemma align_up_error: "align_up v PAGE_SIZE_4K = Inl e \<Longrightarrow> kind e = InvalidAddress \<and> 2 ^ 64 \<le> unat v + 4095"
  by (cases rule: checked_add_cases [of v 4095]) (auto simp: align_up_def PAGE_SIZE_4K_def)

lemma page_run_end_ok: "run_ok r \<Longrightarrow> \<exists>e. page_run_end r = Inr e \<and> unat e = run_hi r"
proof -
  assume ok: "run_ok r"
  then have "unat (saturating_mul (pr_count r) PAGE_SIZE_4K) = unat (pr_count r) * 4096"
    by (simp add: rust_arith PAGE_SIZE_4K_def run_ok_def run_defs)
  with ok show ?thesis
    by (cases rule: checked_add_cases [of "pr_start r" "saturating_mul (pr_count r) PAGE_SIZE_4K"])
      (auto simp: page_run_end_def run_ok_def run_defs)
qed


section \<open>Inserting a free run\<close>

lemma free_index_bounds:
  assumes "k \<le> len"
  shows "k \<le> free_index a len st k \<and> free_index a len st k \<le> len
    \<and> (\<forall>j. k \<le> j \<and> j < free_index a len st k \<longrightarrow> pr_start (a ! j) < st)
    \<and> (free_index a len st k < len \<longrightarrow> \<not> pr_start (a ! free_index a len st k) < st)"
  using assms
proof (induction a len st k rule: free_index.induct)
  case (1 a len st k)
  show ?case
  proof (cases "k < len \<and> pr_start (a ! k) < st")
    case True
    with 1 have "Suc k \<le> free_index a len st (Suc k) \<and> free_index a len st (Suc k) \<le> len
      \<and> (\<forall>j. Suc k \<le> j \<and> j < free_index a len st (Suc k) \<longrightarrow> pr_start (a ! j) < st)
      \<and> (free_index a len st (Suc k) < len \<longrightarrow> \<not> pr_start (a ! free_index a len st (Suc k)) < st)"
      by simp
    moreover have "free_index a len st k = free_index a len st (Suc k)"
      using True by (subst free_index.simps) simp
    ultimately show ?thesis
      using True by (metis Suc_leD le_neq_implies_less Suc_leI)
  next
    case False
    then have "free_index a len st k = k"
      by (subst free_index.simps) auto
    with False 1 show ?thesis by auto
  qed
qed

text \<open>
  Where the new run goes: everything before the index ends at or before its start, everything
  from the index on starts at or after its end.
\<close>

lemma insert_index_separates:
  assumes ok: "runs_ok xs" and run: "run_ok run" and disj: "run_pages run \<inter> pages_of xs = {}"
    and len: "xs = take len a" "len \<le> length a"
    and i: "i = free_index a len (pr_start run) 0"
  shows "i \<le> len" "\<forall>x \<in> set (take i xs). run_hi x \<le> run_lo run"
    "\<forall>y \<in> set (drop i xs). run_hi run \<le> run_lo y"
proof -
  from free_index_bounds [of 0 len a "pr_start run"] i
  have b: "i \<le> len" "\<forall>j < i. pr_start (a ! j) < pr_start run"
    "i < len \<Longrightarrow> \<not> pr_start (a ! i) < pr_start run"
    by auto
  then show "i \<le> len" by simp
  have apart: "run_lo x \<notin> run_pages run" "run_lo run \<notin> run_pages x" if "x \<in> set xs" for x
    using that disj run_pages_lo [OF run] run_pages_lo [OF runs_okD [OF ok that]]
    by (auto simp: pages_of_def)
  show "\<forall>x \<in> set (take i xs). run_hi x \<le> run_lo run"
  proof
    fix x assume x: "x \<in> set (take i xs)"
    then obtain j where "j < i" "x = a ! j"
      using len b(1) by (auto simp: in_set_conv_nth)
    then have "run_lo x < run_lo run"
      using b(2) by (simp add: run_lo_def word_less_nat_alt)
    moreover have "x \<in> set xs"
      using x in_set_takeD by fast
    ultimately show "run_hi x \<le> run_lo run"
      using apart(2) [of x] run by (auto simp: run_pages_def run_ok_def)
  qed
  show "\<forall>y \<in> set (drop i xs). run_hi run \<le> run_lo y"
  proof
    fix y assume y: "y \<in> set (drop i xs)"
    then have "i < len" using len b(1) by (cases "i = len") auto
    have "run_lo (xs ! i) \<le> run_lo y"
    proof -
      have split: "drop i xs = xs ! i # drop (Suc i) xs"
        by (rule Cons_nth_drop_Suc [symmetric]) (use \<open>i < len\<close> len in simp)
      moreover have "runs_ok (drop i xs)"
        using ok runs_ok_append [of "take i xs" "drop i xs"] by simp
      ultimately show ?thesis
        using y by (auto simp: runs_ok_Cons run_ok_def)
    qed
    then have "run_lo run \<le> run_lo y"
      using b(3) [OF \<open>i < len\<close>] len \<open>i < len\<close> by (simp add: run_lo_def word_less_nat_alt)
    moreover have "y \<in> set xs"
      using y in_set_dropD by fast
    ultimately show "run_hi run \<le> run_lo y"
      using apart(1) [of y] runs_okD [OF ok] by (auto simp: run_pages_def run_ok_def)
  qed
qed


lemma runs_ok_middle:
  assumes "runs_ok us" "runs_ok vs" "run_ok m"
    "\<forall>x \<in> set us. run_hi x < run_lo m" "\<forall>y \<in> set vs. run_hi m < run_lo y"
  shows "runs_ok (us @ m # vs)"
  using assms by (fastforce simp: runs_ok_split run_ok_def)

text \<open>A step that rewrites the free table and leaves the allocated table alone.\<close>

definition free_step :: "page_allocator \<Rightarrow> page_allocator \<Rightarrow> nat set \<Rightarrow> bool" where
  "free_step s s' F \<longleftrightarrow>
     runs_ok (live_runs s') \<and> free_set s' = F \<and> pa_free_len s' \<le> length (pa_free s')
     \<and> length (pa_free s') = length (pa_free s)
     \<and> pa_allocated s' = pa_allocated s \<and> pa_allocated_len s' = pa_allocated_len s"

lemma free_stepI:
  assumes "take n a = rs" "n \<le> length a" "length a = length (pa_free s)"
    "runs_ok rs" "pages_of rs = F"
  shows "free_step s (set_free s (a, n)) F"
  using assms by (simp add: free_step_def set_free_def live_runs_def free_set_def)

lemma merge_left_eval:
  assumes "runs_ok (live_runs s)" "i \<le> pa_free_len s" "pa_free_len s \<le> length (pa_free s)"
    "\<forall>x \<in> set (take i (live_runs s)). run_hi x \<le> run_lo run"
  shows "merge_left s i run = Inr (0 < i \<and> run_hi (live_runs s ! (i - 1)) = run_lo run)"
proof (cases "0 < i")
  case True
  let ?p = "live_runs s ! (i - 1)"
  have p: "?p = pa_free s ! (i - 1)" "?p \<in> set (take i (live_runs s))" "?p \<in> set (live_runs s)"
    using True assms(2,3) by (auto simp: live_runs_def in_set_conv_nth intro!: exI [of _ "i - 1"])
  from page_run_end_ok [OF runs_okD [OF assms(1) p(3)]] obtain e where
    "page_run_end ?p = Inr e" "unat e = run_hi ?p" by blast
  then show ?thesis
    using True p assms(4)
    by (auto simp: merge_left_def run_lo_def word_less_nat_alt word_unat_eq_iff not_less)
qed (simp add: merge_left_def)

lemma merge_right_eval:
  assumes "i \<le> pa_free_len s" "pa_free_len s \<le> length (pa_free s)"
    "\<forall>y \<in> set (drop i (live_runs s)). run_hi run \<le> run_lo y" "unat e = run_hi run"
  shows "merge_right s i e = Inr (i < pa_free_len s \<and> run_hi run = run_lo (live_runs s ! i))"
proof (cases "i < pa_free_len s")
  case True
  let ?q = "live_runs s ! i"
  have "?q = pa_free s ! i" "?q \<in> set (drop i (live_runs s))"
    using True assms(2) by (auto simp: live_runs_def in_set_conv_nth intro!: exI [of _ 0])
  then show ?thesis
    using True assms(3,4)
    by (auto simp: merge_right_def run_lo_def word_less_nat_alt word_unat_eq_iff not_less)
qed (simp add: merge_right_def)

lemma merged_count_ok:
  "unat a + unat b < 2 ^ 64 \<Longrightarrow> \<exists>c. merged_count a b = Inr c \<and> unat c = unat a + unat b"
  by (cases rule: checked_add_cases [of a b]) (auto simp: merged_count_def)


lemma insert_free_run_eval:
  assumes "runs_ok (live_runs s)" "pa_free_len s \<le> length (pa_free s)" "run_ok run"
    "run_pages run \<inter> free_set s = {}"
  obtains i where "i = free_index (pa_free s) (pa_free_len s) (pr_start run) 0" "i \<le> pa_free_len s"
    "\<forall>x \<in> set (take i (live_runs s)). run_hi x \<le> run_lo run"
    "\<forall>y \<in> set (drop i (live_runs s)). run_hi run \<le> run_lo y"
    "merge_left s i run = Inr (0 < i \<and> run_hi (live_runs s ! (i - 1)) = run_lo run)"
    "\<exists>e. page_run_end run = Inr e \<and>
       merge_right s i e = Inr (i < pa_free_len s \<and> run_hi run = run_lo (live_runs s ! i))"
    "pr_count run \<noteq> 0"
proof -
  let ?i = "free_index (pa_free s) (pa_free_len s) (pr_start run) 0"
  note sep = insert_index_separates [OF assms(1,3) assms(4) [unfolded free_set_def] live_runs_def assms(2) refl]
  from page_run_end_ok [OF assms(3)] obtain e where e: "page_run_end run = Inr e" "unat e = run_hi run"
    by blast
  have "pr_count run \<noteq> 0"
    using assms(3) by (auto simp: run_ok_def run_defs)
  with e sep merge_left_eval [OF assms(1) sep(1) assms(2) sep(2)]
    merge_right_eval [OF sep(1) assms(2) sep(3) e(2)]
  show ?thesis
    by (intro that [of ?i]) auto
qed

text \<open>The four ways a run joins the list, on lists: between two runs, or glued to a neighbour.\<close>

lemma glue_left:
  assumes "runs_ok (us @ p # vs)" "run_ok run" "run_hi p = run_lo run" "\<forall>y \<in> set vs. run_hi run < run_lo y"
    "unat c = unat (pr_count p) + unat (pr_count run)"
  shows "runs_ok (us @ p\<lparr>pr_count := c\<rparr> # vs)"
    "pages_of (us @ p\<lparr>pr_count := c\<rparr> # vs) = pages_of (us @ p # vs) \<union> run_pages run"
proof -
  let ?m = "p\<lparr>pr_count := c\<rparr>"
  have m: "run_lo ?m = run_lo p" "run_hi ?m = run_hi run"
    using assms(3,5) by (simp_all add: run_defs algebra_simps)
  have p: "run_ok p" "runs_ok us" "runs_ok vs" "\<forall>x \<in> set us. run_hi x < run_lo p"
    using assms(1) by (auto simp: runs_ok_split)
  then show "runs_ok (us @ ?m # vs)"
    using m assms(2,3,4) by (intro runs_ok_middle) (auto simp: run_ok_def)
  have "run_pages ?m = run_pages p \<union> run_pages run"
    unfolding run_pages_def m using p(1) assms(2,3)
    by (simp add: pages_in_split [of "run_lo p" "run_hi p" "run_hi run"] run_ok_def)
  then show "pages_of (us @ ?m # vs) = pages_of (us @ p # vs) \<union> run_pages run"
    by auto
qed

lemma glue_right:
  assumes "runs_ok (us @ q # vs)" "run_ok run" "run_hi run = run_lo q" "\<forall>x \<in> set us. run_hi x < run_lo run"
    "unat c = unat (pr_count run) + unat (pr_count q)"
  shows "runs_ok (us @ \<lparr>pr_start = pr_start run, pr_count = c\<rparr> # vs)"
    "pages_of (us @ \<lparr>pr_start = pr_start run, pr_count = c\<rparr> # vs) = pages_of (us @ q # vs) \<union> run_pages run"
proof -
  let ?m = "\<lparr>pr_start = pr_start run, pr_count = c\<rparr>"
  have m: "run_lo ?m = run_lo run" "run_hi ?m = run_hi q"
    using assms(3,5) by (simp_all add: run_defs algebra_simps)
  have q: "run_ok q" "runs_ok us" "runs_ok vs" "\<forall>y \<in> set vs. run_hi q < run_lo y"
    using assms(1) by (auto simp: runs_ok_split)
  then show "runs_ok (us @ ?m # vs)"
    using m assms(2,3,4) by (intro runs_ok_middle) (auto simp: run_ok_def)
  have "run_pages ?m = run_pages run \<union> run_pages q"
    unfolding run_pages_def m using q(1) assms(2,3)
    by (simp add: pages_in_split [of "run_lo run" "run_lo q" "run_hi q"] run_ok_def)
  then show "pages_of (us @ ?m # vs) = pages_of (us @ q # vs) \<union> run_pages run"
    by auto
qed

lemma run_count_bound: "run_ok r \<Longrightarrow> unat (pr_count r) * 4096 < 2 ^ 64 - run_lo r"
  by (auto simp: run_ok_def run_defs)


lemma glue_both:
  fixes c :: u64
  assumes "runs_ok (us @ p # q # vs)" "run_ok run" "run_hi p = run_lo run" "run_hi run = run_lo q"
    "unat c = unat (pr_count p) + unat (pr_count run)" "unat c' = unat c + unat (pr_count q)"
  shows "runs_ok (us @ p\<lparr>pr_count := c'\<rparr> # vs)"
    "pages_of (us @ p\<lparr>pr_count := c'\<rparr> # vs) = pages_of (us @ p # q # vs) \<union> run_pages run"
proof -
  let ?g = "p\<lparr>pr_count := c\<rparr>"
  have split: "runs_ok (us @ p # [])" "runs_ok (us @ q # vs)" "\<forall>x \<in> set us. run_hi x < run_lo p"
    using assms(1) by (auto simp: runs_ok_split)
  have g: "runs_ok (us @ [?g])" "pages_of (us @ [?g]) = pages_of (us @ [p]) \<union> run_pages run"
    using glue_left [OF split(1) assms(2,3) _ assms(5)] by simp_all
  have eq: "p\<lparr>pr_count := c'\<rparr> = \<lparr>pr_start = pr_start ?g, pr_count = c'\<rparr>"
    by (cases p) simp
  have hi: "run_hi ?g = run_lo q" "run_lo ?g = run_lo p"
    using assms(3,4,5) by (simp_all add: run_defs algebra_simps)
  have "runs_ok (us @ p\<lparr>pr_count := c'\<rparr> # vs)
    \<and> pages_of (us @ p\<lparr>pr_count := c'\<rparr> # vs) = pages_of (us @ q # vs) \<union> run_pages ?g"
    unfolding eq using glue_right [OF split(2), of ?g c'] g(1) hi split(3) assms(6)
    by (auto simp: runs_ok_split)
  moreover have "run_pages ?g = run_pages p \<union> run_pages run"
    using assms(1,2,3,4) hi pages_in_split [of "run_lo p" "run_hi p" "run_hi run"]
    by (simp add: run_pages_def runs_ok_split run_ok_def)
  ultimately show "runs_ok (us @ p\<lparr>pr_count := c'\<rparr> # vs)"
    "pages_of (us @ p\<lparr>pr_count := c'\<rparr> # vs) = pages_of (us @ p # q # vs) \<union> run_pages run"
    by auto
qed

lemma strict_before:
  assumes "runs_ok xs" "i \<le> length xs" "\<forall>x \<in> set (take i xs). run_hi x \<le> lo"
    "\<not> (0 < i \<and> run_hi (xs ! (i - 1)) = lo)"
  shows "\<forall>x \<in> set (take i xs). run_hi x < lo"
proof (cases "i = 0")
  case False
  then have split: "take i xs = take (i - 1) xs @ [xs ! (i - 1)]"
    using assms(2) by (intro take_last_split) auto
  moreover have "runs_ok (take i xs)"
    using assms(1) runs_ok_append [of "take i xs" "drop i xs"] by simp
  ultimately have "\<forall>x \<in> set (take (i - 1) xs). run_hi x < run_lo (xs ! (i - 1))" "run_ok (xs ! (i - 1))"
    by (auto simp: runs_ok_split)
  with assms(3,4) False show ?thesis
    unfolding split by (fastforce simp: run_ok_def)
qed simp

lemma strict_after:
  assumes "runs_ok xs" "\<forall>y \<in> set (drop i xs). hi \<le> run_lo y" "\<not> (i < length xs \<and> hi = run_lo (xs ! i))"
  shows "\<forall>y \<in> set (drop i xs). hi < run_lo y"
proof (cases "i < length xs")
  case True
  then have split: "drop i xs = xs ! i # drop (Suc i) xs"
    by (simp add: Cons_nth_drop_Suc)
  moreover have "runs_ok (drop i xs)"
    using assms(1) runs_ok_append [of "take i xs" "drop i xs"] by simp
  ultimately have "\<forall>y \<in> set (drop (Suc i) xs). run_hi (xs ! i) < run_lo y" "run_ok (xs ! i)"
    by (auto simp: runs_ok_split)
  with assms(2,3) True show ?thesis
    unfolding split by (fastforce simp: run_ok_def)
qed simp

lemma split_at_pred: "0 < i \<Longrightarrow> i \<le> length xs \<Longrightarrow> xs = take (i - 1) xs @ xs ! (i - 1) # drop i xs"
  by (cases i) (auto simp: id_take_nth_drop)

lemma split_at_index: "i < length xs \<Longrightarrow> xs = take i xs @ xs ! i # drop (Suc i) xs"
  by (rule id_take_nth_drop)


text \<open>The same four ways on the arrays of the allocator.\<close>

lemma step_left:
  assumes "live_runs s = us @ p # vs" "pa_free_len s \<le> length (pa_free s)" "runs_ok (us @ p # vs)"
    "run_ok run" "run_hi p = run_lo run" "\<forall>y \<in> set vs. run_hi run < run_lo y"
    "unat c = unat (pr_count p) + unat (pr_count run)"
  shows "free_step s (set_free s ((pa_free s)[length us := p\<lparr>pr_count := c\<rparr>], pa_free_len s))
    (free_set s \<union> run_pages run)"
  using glue_left [OF assms(3-7)] assms(1,2)
  by (intro free_stepI [OF take_update_mid]) (auto simp: live_runs_def free_set_def)

lemma step_right:
  assumes "live_runs s = us @ q # vs" "pa_free_len s \<le> length (pa_free s)" "runs_ok (us @ q # vs)"
    "run_ok run" "run_hi run = run_lo q" "\<forall>x \<in> set us. run_hi x < run_lo run"
    "unat c = unat (pr_count run) + unat (pr_count q)"
  shows "free_step s (set_free s ((pa_free s)[length us := \<lparr>pr_start = pr_start run, pr_count = c\<rparr>], pa_free_len s))
    (free_set s \<union> run_pages run)"
  using glue_right [OF assms(3-7)] assms(1,2)
  by (intro free_stepI [OF take_update_mid]) (auto simp: live_runs_def free_set_def)

lemma step_both:
  assumes "live_runs s = us @ p # q # vs" "pa_free_len s \<le> length (pa_free s)"
    "runs_ok (us @ p # q # vs)" "run_ok run" "run_hi p = run_lo run" "run_hi run = run_lo q"
    "unat (c :: u64) = unat (pr_count p) + unat (pr_count run)" "unat c' = unat c + unat (pr_count q)"
  shows "free_step s
    (set_free s (remove_run ((pa_free s)[length us := p\<lparr>pr_count := c'\<rparr>]) (pa_free_len s) (Suc (length us))))
    (free_set s \<union> run_pages run)"
proof -
  let ?m = "p\<lparr>pr_count := c'\<rparr>"
  have "take (pa_free_len s) ((pa_free s)[length us := ?m]) = (us @ [?m]) @ q # vs"
    using assms(1) take_update_mid [of "pa_free_len s" "pa_free s" us p] by (simp add: live_runs_def)
  from take_remove_mid [OF this] glue_both [OF assms(3-8)] assms(1,2) show ?thesis
    unfolding remove_run_def
    by (intro free_stepI [where rs = "us @ ?m # vs"]) (auto simp: free_set_def)
qed

lemma step_between:
  assumes "live_runs s = us @ vs" "pa_free_len s < length (pa_free s)" "runs_ok (us @ vs)" "run_ok run"
    "\<forall>x \<in> set us. run_hi x < run_lo run" "\<forall>y \<in> set vs. run_hi run < run_lo y"
  shows "free_step s
    (set_free s ((shift_right (length us) (pa_free_len s) (pa_free s))[length us := run], pa_free_len s + 1))
    (free_set s \<union> run_pages run)"
  using runs_ok_middle [of us vs run] assms take_insert_mid [of "pa_free_len s" "pa_free s" us vs run]
  by (intro free_stepI [where rs = "us @ run # vs"]) (auto simp: live_runs_def free_set_def runs_ok_append)

text \<open>
  Inserting a valid run of pages that are not free yet adds exactly its pages and keeps the list
  sorted and coalesced; the only failure is a full table, and it changes nothing.
\<close>

lemma insert_merging_left:
  assumes ok: "runs_ok (live_runs s)" and len: "pa_free_len s \<le> length (pa_free s)" and run: "run_ok run"
    and e: "page_run_end run = Inr e"
    and i: "free_index (pa_free s) (pa_free_len s) (pr_start run) 0 = Suc (length us)"
    and live: "live_runs s = us @ p # vs" and touch: "run_hi p = run_lo run"
    and after: "\<forall>y \<in> set vs. run_hi run \<le> run_lo y"
    and ml: "merge_left s (Suc (length us)) run = Inr True"
    and mr: "merge_right s (Suc (length us)) e = Inr (vs \<noteq> [] \<and> run_hi run = run_lo (hd vs))"
  shows "\<exists>s'. insert_free_run s run = (Inr (), s') \<and> free_step s s' (free_set s \<union> run_pages run)"
proof -
  have cnt: "pr_count run \<noteq> 0"
    using run by (auto simp: run_ok_def run_defs)
  note eval = insert_free_run_def Let_def cnt e ml i
  have p: "run_ok p" "pa_free s ! length us = p"
    using ok live nth_live_runs [of "length us" s] by (auto simp: runs_ok_split)
  then obtain c where c: "merged_count (pr_count p) (pr_count run) = Inr c"
    "unat c = unat (pr_count p) + unat (pr_count run)"
    using merged_count_ok [of "pr_count p" "pr_count run"] touch run by (auto simp: run_ok_def run_defs)
  show ?thesis
  proof (cases "vs \<noteq> [] \<and> run_hi run = run_lo (hd vs)")
    case True
    with mr have mr: "merge_right s (Suc (length us)) e = Inr True" by simp
    from True obtain q vs' where q: "vs = q # vs'"
      by (cases vs) auto
    then have "run_ok q" "pa_free s ! Suc (length us) = q" "run_hi run = run_lo q"
      using ok live nth_live_runs [of "Suc (length us)" s] True
      by (auto simp: runs_ok_split nth_append)
    moreover from this obtain c' where c': "merged_count c (pr_count q) = Inr c'"
      "unat c' = unat c + unat (pr_count q)"
      using merged_count_ok [of c "pr_count q"] c(2) touch p(1) run by (auto simp: run_ok_def run_defs)
    ultimately show ?thesis
      using c p live len q step_both [of s us p q vs' run c c'] ok run touch
      by (simp add: eval mr)
  next
    case False
    with mr have mr: "merge_right s (Suc (length us)) e = Inr False" by auto
    have "\<forall>y \<in> set vs. run_hi run < run_lo y"
      using strict_after [of vs 0 "run_hi run"] ok live after False
      by (cases vs) (auto simp: runs_ok_split)
    then show ?thesis
      using c p live len step_left [of s us p vs run c] ok run touch
      by (simp add: eval mr)
  qed
qed


text \<open>A run that touches none of the listed ones.\<close>

definition isolated :: "page_run \<Rightarrow> page_run list \<Rightarrow> bool" where
  "isolated m rs \<longleftrightarrow> (\<forall>x \<in> set rs. run_hi x < run_lo m \<or> run_hi m < run_lo x)"

lemma insert_not_merging_left:
  assumes ok: "runs_ok (live_runs s)" and len: "pa_free_len s \<le> length (pa_free s)" and run: "run_ok run"
    and e: "page_run_end run = Inr e" and i: "i = free_index (pa_free s) (pa_free_len s) (pr_start run) 0"
    and le: "i \<le> pa_free_len s" and before: "\<forall>x \<in> set (take i (live_runs s)). run_hi x < run_lo run"
    and after: "\<forall>y \<in> set (drop i (live_runs s)). run_hi run \<le> run_lo y"
    and ml: "merge_left s i run = Inr False"
    and mr: "merge_right s i e = Inr (i < pa_free_len s \<and> run_hi run = run_lo (live_runs s ! i))"
  shows "(\<exists>s'. insert_free_run s run = (Inr (), s') \<and> free_step s s' (free_set s \<union> run_pages run))
    \<or> (\<exists>e. insert_free_run s run = (Inl e, s) \<and> kind e = CapacityExceeded
          \<and> pa_free_len s = length (pa_free s) \<and> isolated run (live_runs s))"
proof -
  have cnt: "pr_count run \<noteq> 0"
    using run by (auto simp: run_ok_def run_defs)
  note eval = insert_free_run_def Let_def cnt e ml i [symmetric]
  define us where "us = take i (live_runs s)"
  have us: "length us = i" "\<forall>x \<in> set us. run_hi x < run_lo run"
    using le before length_live_runs [OF len] by (simp_all add: us_def)
  show ?thesis
  proof (cases "i < pa_free_len s \<and> run_hi run = run_lo (live_runs s ! i)")
    case True
    with mr have mr: "merge_right s i e = Inr True" by simp
    from True obtain q vs where live: "live_runs s = us @ q # vs"
      unfolding us_def using split_at_index [of i "live_runs s"] length_live_runs [OF len] by auto
    have q: "run_ok q" "pa_free s ! i = q" "run_hi run = run_lo q"
      using True ok live us(1) nth_live_runs [of i s] by (auto simp: runs_ok_split)
    then obtain c where c: "merged_count (pr_count run) (pr_count q) = Inr c"
      "unat c = unat (pr_count run) + unat (pr_count q)"
      using merged_count_ok [of "pr_count run" "pr_count q"] run by (auto simp: run_ok_def run_defs)
    then show ?thesis
      using q live us len step_right [of s us q vs run c] ok run by (simp add: eval mr)
  next
    case False
    with mr have mr: "merge_right s i e = Inr False" by auto
    define vs where "vs = drop i (live_runs s)"
    have live: "live_runs s = us @ vs"
      by (simp add: us_def vs_def)
    have "\<forall>y \<in> set vs. run_hi run < run_lo y"
      unfolding vs_def using strict_after [OF ok after] False length_live_runs [OF len] by simp
    moreover from this have "isolated run (live_runs s)"
      using us(2) by (auto simp: isolated_def live)
    ultimately show ?thesis
      using live us len step_between [of s us vs run] ok run by (auto simp: eval mr not_le)
  qed
qed

lemma insert_free_run_step:
  assumes ok: "runs_ok (live_runs s)" and len: "pa_free_len s \<le> length (pa_free s)"
    and run: "run_ok run" and disj: "run_pages run \<inter> free_set s = {}"
  shows "(\<exists>s'. insert_free_run s run = (Inr (), s') \<and> free_step s s' (free_set s \<union> run_pages run))
    \<or> (\<exists>e. insert_free_run s run = (Inl e, s) \<and> kind e = CapacityExceeded
          \<and> pa_free_len s = length (pa_free s) \<and> isolated run (live_runs s))"
proof -
  from insert_free_run_eval [OF assms] obtain i e where
    i: "i = free_index (pa_free s) (pa_free_len s) (pr_start run) 0" "i \<le> pa_free_len s"
    and before: "\<forall>x \<in> set (take i (live_runs s)). run_hi x \<le> run_lo run"
    and after: "\<forall>y \<in> set (drop i (live_runs s)). run_hi run \<le> run_lo y"
    and ml: "merge_left s i run = Inr (0 < i \<and> run_hi (live_runs s ! (i - 1)) = run_lo run)"
    and e: "page_run_end run = Inr e"
    and mr: "merge_right s i e = Inr (i < pa_free_len s \<and> run_hi run = run_lo (live_runs s ! i))"
    by metis
  show ?thesis
  proof (cases "0 < i \<and> run_hi (live_runs s ! (i - 1)) = run_lo run")
    case True
    define us p vs where "us = take (i - 1) (live_runs s)" and "p = live_runs s ! (i - 1)"
      and "vs = drop i (live_runs s)"
    note parts = this
    have live: "live_runs s = us @ p # vs" "i = Suc (length us)" "run_hi p = run_lo run"
      using split_at_pred [of i "live_runs s"] True i(2) length_live_runs [OF len] by (auto simp: parts)
    moreover have "(i < pa_free_len s) = (vs \<noteq> [])" "i < pa_free_len s \<Longrightarrow> live_runs s ! i = hd vs"
      using length_live_runs [OF len] by (auto simp: parts hd_drop_conv_nth)
    then have "merge_right s i e = Inr (vs \<noteq> [] \<and> run_hi run = run_lo (hd vs))"
      using mr by auto
    ultimately show ?thesis
      using insert_merging_left [OF ok len run e _ live(1,3)] i(1) ml after True by (simp add: parts(3))
  next
    case False
    with ml have "merge_left s i run = Inr False"
      by (simp only: simp_thms)
    from insert_not_merging_left [OF ok len run e i _ after this mr]
    show ?thesis
      using strict_before [OF ok _ before] False i(2) length_live_runs [OF len] by simp
  qed
qed

end
