(* ===== verification/Page_Allocator_Correct.thy ===== *)
theory Page_Allocator_Correct
  imports Page_Runs
begin

text \<open>
  Correctness of the page allocator model. The free-run table and the allocation table are read
  as the sets \<open>free_set\<close> and \<open>alloc_set\<close> of page base addresses; each operation of
  \<open>allocator.rs\<close> is shown to keep the invariant \<open>alloc_inv\<close> and to change the two sets in the
  way its name says.
\<close>

section \<open>Counting\<close>

lemma pages_of_bound: "runs_ok rs \<Longrightarrow> pages_of rs \<subseteq> pages_in 0 (0 + 2 ^ 52 * 4096)"
  by (fastforce simp: pages_of_def run_pages_def runs_ok_def run_ok_def)

lemma card_pages_of_bound: "runs_ok rs \<Longrightarrow> card (pages_of rs) \<le> 2 ^ 52"
  using card_mono [OF _ pages_of_bound] card_pages_in [of 0 "2 ^ 52"] by simp

lemma card_pages_of_Cons:
  "runs_ok (r # rs) \<Longrightarrow> card (pages_of (r # rs)) = unat (pr_count r) + card (pages_of rs)"
  using card_Un_disjoint [OF _ _ pages_of_disjoint [of r rs]] card_run_pages [of r]
  by (simp add: run_pages_def runs_ok_Cons)

lemma foldl_count:
  "runs_ok rs \<Longrightarrow> unat acc + card (pages_of rs) < 2 ^ 64
    \<Longrightarrow> unat (foldl (\<lambda>pages r. pages + pr_count r) acc rs) = unat acc + card (pages_of rs)"
proof (induction rs arbitrary: acc)
  case Nil
  then show ?case by simp
next
  case (Cons r rs)
  then have "unat (acc + pr_count r) = unat acc + unat (pr_count r)"
    using card_pages_of_Cons [OF Cons.prems(1)] by (intro unat_add_exact) simp
  then show ?case
    using Cons card_pages_of_Cons [OF Cons.prems(1)] by (simp add: runs_ok_Cons)
qed

text \<open>\<open>free_pages\<close> never wraps and counts the free pages.\<close>

lemma unat_free_pages:
  assumes "runs_ok (live_runs s)"
  shows "unat (free_pages s) = card (free_set s)"
  using foldl_count [OF assms, of 0] card_pages_of_bound [OF assms]
  by (simp add: free_pages_def free_set_def live_runs_def)

section \<open>Taking a page out of a run\<close>

text \<open>What stays of a run when the interval \<open>[lo, hi)\<close> is cut out of it, as a list of runs.\<close>

definition is_left :: "page_run \<Rightarrow> page_run \<Rightarrow> nat \<Rightarrow> bool" where
  "is_left m r lo \<longleftrightarrow> run_lo m = run_lo r \<and> run_hi m = lo"

definition is_right :: "page_run \<Rightarrow> page_run \<Rightarrow> nat \<Rightarrow> bool" where
  "is_right m r hi \<longleftrightarrow> run_lo m = hi \<and> run_hi m = run_hi r"

lemma left_part:
  assumes "run_ok r" "4096 dvd lo" "run_lo r \<le> lo" "lo \<le> run_hi r" "unat b = (lo - run_lo r) div 4096"
  shows "is_left (r\<lparr>pr_count := b\<rparr>) r lo"
proof -
  have "4096 dvd lo - run_lo r"
    using assms(1,2) by (simp add: run_ok_def dvd_diff_nat)
  then have "unat b * 4096 = lo - run_lo r"
    using assms(5) by simp
  then show ?thesis
    using assms(3) by (simp add: is_left_def run_defs)
qed

lemma right_part:
  assumes "run_ok r" "unat st = hi" "4096 dvd hi" "hi \<le> run_hi r" "unat c = (run_hi r - hi) div 4096"
  shows "is_right \<lparr>pr_start = st, pr_count = c\<rparr> r hi"
proof -
  have "4096 dvd run_hi r - hi"
    using run_hi_dvd [OF assms(1)] assms(3) by (simp add: dvd_diff_nat)
  then have "unat c * 4096 = run_hi r - hi"
    using assms(5) by simp
  then show ?thesis
    using assms(2,4) by (simp add: is_right_def run_defs)
qed

lemma cut_run:
  assumes ok: "runs_ok (us @ r # vs)" and al: "4096 dvd lo" "4096 dvd hi"
    and bounds: "run_lo r \<le> lo" "lo \<le> hi" "hi \<le> run_hi r"
  shows "lo = run_lo r \<Longrightarrow> hi = run_hi r \<Longrightarrow>
      runs_ok (us @ vs) \<and> pages_of (us @ vs) = pages_of (us @ r # vs) - pages_in lo hi"
    "lo = run_lo r \<Longrightarrow> hi < run_hi r \<Longrightarrow> is_right q r hi \<Longrightarrow> lo < hi \<Longrightarrow>
      runs_ok (us @ q # vs) \<and> pages_of (us @ q # vs) = pages_of (us @ r # vs) - pages_in lo hi"
    "run_lo r < lo \<Longrightarrow> hi = run_hi r \<Longrightarrow> is_left m r lo \<Longrightarrow> lo < hi \<Longrightarrow>
      runs_ok (us @ m # vs) \<and> pages_of (us @ m # vs) = pages_of (us @ r # vs) - pages_in lo hi"
    "run_lo r < lo \<Longrightarrow> hi < run_hi r \<Longrightarrow> is_left m r lo \<Longrightarrow> is_right q r hi \<Longrightarrow> lo < hi \<Longrightarrow>
      runs_ok (us @ m # q # vs) \<and> pages_of (us @ m # q # vs) = pages_of (us @ r # vs) - pages_in lo hi"
proof -
  have r: "run_ok r" "4096 dvd run_lo r" "run_hi r < 2 ^ 64"
    using ok by (auto simp: runs_ok_split run_ok_def)
  have apart: "x \<in> set us \<Longrightarrow> run_pages x \<inter> pages_in lo hi = {}"
    "y \<in> set vs \<Longrightarrow> run_pages y \<inter> pages_in lo hi = {}" for x y
    using ok bounds by (fastforce simp: runs_ok_split run_pages_def)+
  then have out: "pages_of us \<inter> pages_in lo hi = {}" "pages_of vs \<inter> pages_in lo hi = {}"
    by (auto simp: pages_of_def)
  show "lo = run_lo r \<Longrightarrow> hi = run_hi r \<Longrightarrow>
      runs_ok (us @ vs) \<and> pages_of (us @ vs) = pages_of (us @ r # vs) - pages_in lo hi"
    using ok out by (auto simp: runs_ok_split run_pages_def)
  show "lo = run_lo r \<Longrightarrow> hi < run_hi r \<Longrightarrow> is_right q r hi \<Longrightarrow> lo < hi \<Longrightarrow>
      runs_ok (us @ q # vs) \<and> pages_of (us @ q # vs) = pages_of (us @ r # vs) - pages_in lo hi"
    using ok out r al by (fastforce simp: runs_ok_split run_pages_def is_right_def run_ok_def)
  show "run_lo r < lo \<Longrightarrow> hi = run_hi r \<Longrightarrow> is_left m r lo \<Longrightarrow> lo < hi \<Longrightarrow>
      runs_ok (us @ m # vs) \<and> pages_of (us @ m # vs) = pages_of (us @ r # vs) - pages_in lo hi"
    using ok out r al by (fastforce simp: runs_ok_split run_pages_def is_left_def run_ok_def)
  show "run_lo r < lo \<Longrightarrow> hi < run_hi r \<Longrightarrow> is_left m r lo \<Longrightarrow> is_right q r hi \<Longrightarrow> lo < hi \<Longrightarrow>
      runs_ok (us @ m # q # vs) \<and> pages_of (us @ m # q # vs) = pages_of (us @ r # vs) - pages_in lo hi"
    using ok out r al by (fastforce simp: runs_ok_split run_pages_def is_left_def is_right_def run_ok_def)
qed

lemma unat_min [word_to_nat]: "unat (min a b) = min (unat a) (unat b)"
  by (simp add: min_def word_le_nat_alt)

lemma unat_max [word_to_nat]: "unat (max a b) = max (unat a) (unat b)"
  by (simp add: max_def word_le_nat_alt)

text \<open>Cutting \<open>[lo, hi)\<close> out of the run at \<open>length us\<close>, on the array, for each of the four shapes.\<close>

lemma cut_step:
  assumes live: "live_runs s = us @ r # vs" and len: "pa_free_len s \<le> length (pa_free s)"
    and ok: "runs_ok (us @ r # vs)" and al: "4096 dvd lo" "4096 dvd hi"
    and bounds: "run_lo r \<le> lo" "lo < hi" "hi \<le> run_hi r"
  shows "lo = run_lo r \<Longrightarrow> hi = run_hi r \<Longrightarrow>
      free_step s (set_free s (remove_run (pa_free s) (pa_free_len s) (length us))) (free_set s - pages_in lo hi)"
    "lo = run_lo r \<Longrightarrow> hi < run_hi r \<Longrightarrow> is_right q r hi \<Longrightarrow>
      free_step s (set_free s ((pa_free s)[length us := q], pa_free_len s)) (free_set s - pages_in lo hi)"
    "run_lo r < lo \<Longrightarrow> hi = run_hi r \<Longrightarrow> is_left m r lo \<Longrightarrow>
      free_step s (set_free s ((pa_free s)[length us := m], pa_free_len s)) (free_set s - pages_in lo hi)"
    "run_lo r < lo \<Longrightarrow> hi < run_hi r \<Longrightarrow> is_left m r lo \<Longrightarrow> is_right q r hi \<Longrightarrow>
      pa_free_len s < length (pa_free s) \<Longrightarrow>
      free_step s (set_free s ((shift_right (length us + 1) (pa_free_len s) (pa_free s))
         [length us := m, length us + 1 := q], pa_free_len s + 1)) (free_set s - pages_in lo hi)"
proof -
  note cut = cut_run [OF ok al bounds(1) less_imp_le [OF bounds(2)] bounds(3)]
  note tk = live [unfolded live_runs_def]
  show "lo = run_lo r \<Longrightarrow> hi = run_hi r \<Longrightarrow>
      free_step s (set_free s (remove_run (pa_free s) (pa_free_len s) (length us))) (free_set s - pages_in lo hi)"
    unfolding remove_run_def using cut(1) take_remove_mid [OF tk len] live len
    by (intro free_stepI [where rs = "us @ vs"]) (auto simp: free_set_def)
  show "lo = run_lo r \<Longrightarrow> hi < run_hi r \<Longrightarrow> is_right q r hi \<Longrightarrow>
      free_step s (set_free s ((pa_free s)[length us := q], pa_free_len s)) (free_set s - pages_in lo hi)"
    using cut(2) [of q] bounds(2) live len take_update_mid [OF tk]
    by (intro free_stepI [where rs = "us @ q # vs"]) (simp_all add: free_set_def)
  show "run_lo r < lo \<Longrightarrow> hi = run_hi r \<Longrightarrow> is_left m r lo \<Longrightarrow>
      free_step s (set_free s ((pa_free s)[length us := m], pa_free_len s)) (free_set s - pages_in lo hi)"
    using cut(3) [of m] bounds(2) live len take_update_mid [OF tk]
    by (intro free_stepI [where rs = "us @ m # vs"]) (simp_all add: free_set_def)
  show "run_lo r < lo \<Longrightarrow> hi < run_hi r \<Longrightarrow> is_left m r lo \<Longrightarrow> is_right q r hi \<Longrightarrow>
      pa_free_len s < length (pa_free s) \<Longrightarrow>
      free_step s (set_free s ((shift_right (length us + 1) (pa_free_len s) (pa_free s))
         [length us := m, length us + 1 := q], pa_free_len s + 1)) (free_set s - pages_in lo hi)"
    using cut(4) [of m q] bounds(2) live len take_split_mid [OF tk, of m q]
    by (intro free_stepI [where rs = "us @ m # q # vs"]) (simp_all add: free_set_def)
qed

lemma unat_pages_between:
  fixes a b :: u64
  assumes "a \<le> b"
  shows "unat ((b - a) div PAGE_SIZE_4K) = (unat b - unat a) div 4096"
proof -
  have "unat (b - a) = unat b - unat a"
    using assms by (simp add: unat_sub)
  then show ?thesis
    by (simp add: PAGE_SIZE_4K_def unat_div_distrib)
qed

lemma div_page_0:
  assumes "4096 dvd a" "4096 dvd b" "a \<le> b"
  shows "(b - a) div 4096 = 0 \<longleftrightarrow> a = (b::nat)"
  using assms dvd_diff_nat [OF assms(2,1)] by (auto simp: dvd_div_eq_0_iff)

lemma pages_in_single:
  assumes "4096 dvd p"
  shows "pages_in p (p + 4096) = {p}"
proof -
  have "q = p" if "4096 dvd q" "p \<le> q" "q < p + 4096" for q
  proof (rule ccontr)
    assume "q \<noteq> p"
    with that have "\<not> 4096 dvd q - p"
      by (intro nat_dvd_not_less) auto
    with dvd_diff_nat [OF that(1) assms] show False by simp
  qed
  then have "q \<in> pages_in p (p + 4096) \<longleftrightarrow> q = p" for q
    unfolding pages_in_iff using assms by (metis le_refl less_add_same_cancel1 zero_less_numeral)
  then show ?thesis
    by (intro set_eqI) simp
qed

text \<open>A page with a free neighbour.\<close>

definition next_to :: "nat \<Rightarrow> nat set \<Rightarrow> bool" where
  "next_to p F \<longleftrightarrow> p + 4096 \<in> F \<or> (\<exists>q \<in> F. q + 4096 = p)"

lemma neighbour_in_run:
  assumes "run_ok r" "r \<in> set (live_runs s)" "4096 dvd p"
  shows "run_lo r \<le> p \<Longrightarrow> p + 4096 < run_hi r \<Longrightarrow> next_to p (free_set s)"
    "run_lo r < p \<Longrightarrow> p < run_hi r \<Longrightarrow> next_to p (free_set s)"
proof -
  assume "run_lo r \<le> p" "p + 4096 < run_hi r"
  then have "p + 4096 \<in> run_pages r"
    using assms(3) by (simp add: run_pages_def)
  then show "next_to p (free_set s)"
    using assms(2) unfolding next_to_def free_set_def pages_of_def by blast
next
  assume lt: "run_lo r < p" "p < run_hi r"
  then have "run_lo r + 4096 \<le> p"
    using page_below_hi [of "run_lo r" p] assms(1,3) by (simp add: run_ok_def)
  moreover from this have "4096 dvd p - 4096"
    using assms(3) by (simp add: dvd_diff_nat)
  ultimately have "p - 4096 \<in> run_pages r" "p - 4096 + 4096 = p"
    using lt unfolding run_pages_def pages_in_iff by linarith+
  then show "next_to p (free_set s)"
    using assms(2) unfolding next_to_def free_set_def pages_of_def by blast
qed

lemma take_page_from_run_step:
  assumes live: "live_runs s = us @ r # vs" and len: "pa_free_len s \<le> length (pa_free s)"
    and ok: "runs_ok (us @ r # vs)" and p: "unat page \<in> run_pages r" and e: "unat run_end = run_hi r"
  shows "(\<exists>s'. take_page_from_run s (length us) page run_end = (Inr (), s')
            \<and> free_step s s' (free_set s - {unat page})
            \<and> (\<not> next_to (unat page) (free_set s) \<longrightarrow> pa_free_len s' < pa_free_len s))
    \<or> (\<exists>e. take_page_from_run s (length us) page run_end = (Inl e, s) \<and> kind e = CapacityExceeded
          \<and> pa_free_len s = length (pa_free s))"
proof -
  have r: "run_ok r" "pa_free s ! length us = r"
    using ok live nth_live_runs [of "length us" s] by (auto simp: runs_ok_split)
  define lo hi where "lo = unat page" and "hi = unat page + 4096"
  have b: "4096 dvd lo" "4096 dvd hi" "run_lo r \<le> lo" "lo < hi" "hi \<le> run_hi r"
    using p page_below_hi [of lo "run_hi r"] run_hi_dvd [OF r(1)]
    by (auto simp: lo_def hi_def run_pages_def)
  have hi64: "unat (page + PAGE_SIZE_4K) = hi"
    using b(5) r(1) unat_add_exact [of page 4096] by (simp add: hi_def PAGE_SIZE_4K_def run_ok_def)
  define before after where "before = (page - pr_start r) div PAGE_SIZE_4K"
    and "after = (run_end - (page + PAGE_SIZE_4K)) div PAGE_SIZE_4K"
  have cnt: "unat before = (lo - run_lo r) div 4096" "unat after = (run_hi r - hi) div 4096"
    using b(3,5) unat_pages_between [of "pr_start r" page] unat_pages_between [of "page + PAGE_SIZE_4K" run_end]
    by (simp_all add: before_def after_def lo_def run_lo_def word_le_nat_alt hi64 e)
  have z: "before = 0 \<longleftrightarrow> lo = run_lo r" "after = 0 \<longleftrightarrow> hi = run_hi r"
    using div_page_0 [of "run_lo r" lo] div_page_0 [of hi "run_hi r"] b r(1) run_hi_dvd [OF r(1)] cnt
    by (auto simp: run_ok_def unat_eq_0)
  note parts = left_part [OF r(1) b(1,3) _ cnt(1)] right_part [OF r(1) hi64 b(2,5) cnt(2)]
  have single: "pages_in lo hi = {unat page}"
    using pages_in_single b(1) by (simp add: lo_def hi_def)
  have eval: "take_page_from_run s (length us) page run_end =
     (if before = 0 \<and> after = 0 then (Inr (), set_free s (remove_run (pa_free s) (pa_free_len s) (length us)))
      else if before = 0
      then (Inr (), set_free s ((pa_free s)[length us := \<lparr>pr_start = page + PAGE_SIZE_4K, pr_count = after\<rparr>], pa_free_len s))
      else if after = 0
      then (Inr (), set_free s ((pa_free s)[length us := r\<lparr>pr_count := before\<rparr>], pa_free_len s))
      else if length (pa_free s) \<le> pa_free_len s
      then (Inl (CoreError CapacityExceeded
              ''physical allocator cannot split a free run at the requested page''), s)
      else (Inr (), set_free s ((shift_right (length us + 1) (pa_free_len s) (pa_free s))
                 [length us := r\<lparr>pr_count := before\<rparr>,
                  length us + 1 := \<lparr>pr_start = page + PAGE_SIZE_4K, pr_count = after\<rparr>], pa_free_len s + 1)))"
    by (simp add: take_page_from_run_def Let_def r(2) before_def after_def)
  note steps = cut_step [OF live len ok b, unfolded single]
  have adj: "hi < run_hi r \<Longrightarrow> next_to (unat page) (free_set s)"
    "run_lo r < lo \<Longrightarrow> next_to (unat page) (free_set s)"
    using neighbour_in_run [OF r(1), of s lo] live b by (simp_all add: lo_def hi_def)
  consider "lo = run_lo r" "hi = run_hi r" | "lo = run_lo r" "hi < run_hi r"
    | "run_lo r < lo" "hi = run_hi r" | "run_lo r < lo" "hi < run_hi r"
    using b by linarith
  then show ?thesis
  proof cases
    case 1
    moreover have "0 < pa_free_len s"
      using live length_live_runs [OF len] by auto
    ultimately show ?thesis
      using steps(1) by (simp add: eval z remove_run_def set_free_def)
  next
    case 2
    then show ?thesis
      using steps(2) parts(2) adj by (simp add: eval z)
  next
    case 3
    then show ?thesis
      using steps(3) parts(1) b adj by (simp add: eval z)
  next
    case 4
    then show ?thesis
      using steps(4) [OF 4 parts] b len adj
      by (cases "length (pa_free s) \<le> pa_free_len s") (simp_all add: eval z)
  qed
qed

text \<open>The pages of a set that an allocation constraint admits.\<close>

definition eligible :: "page_allocation_constraint \<Rightarrow> nat set \<Rightarrow> nat set" where
  "eligible c F = {p \<in> F. unat (min_address c) \<le> p \<and> p + 4096 \<le> unat (max_address_exclusive c)}"

lemma eligible_Un [simp]: "eligible c (F \<union> G) = eligible c F \<union> eligible c G"
  by (auto simp: eligible_def)

lemma eligible_empty [simp]: "eligible c {} = {}"
  by (simp add: eligible_def)

text \<open>The aligned candidate is the least admissible page of the run, if the run has one.\<close>

lemma candidate_least:
  assumes "run_ok r" "align_up (max (pr_start r) (min_address c)) PAGE_SIZE_4K = Inr cand"
  shows "4096 dvd unat cand" "run_lo r \<le> unat cand" "unat (min_address c) \<le> unat cand"
    "\<forall>p \<in> eligible c (run_pages r). unat cand \<le> p"
proof -
  let ?v = "max (pr_start r) (min_address c)"
  have cand: "unat cand = (unat ?v + 4095) div 4096 * 4096" and v: "unat ?v = max (run_lo r) (unat (min_address c))"
    using assms(2) by (auto simp: align_up_4K run_lo_def max_def word_le_nat_alt)
  then show "4096 dvd unat cand" by simp
  have le: "unat ?v \<le> unat cand"
    unfolding cand by linarith
  then show "run_lo r \<le> unat cand" "unat (min_address c) \<le> unat cand"
    using v by auto
  show "\<forall>p \<in> eligible c (run_pages r). unat cand \<le> p"
  proof
    fix p assume "p \<in> eligible c (run_pages r)"
    then have "unat ?v \<le> p" "4096 dvd p"
      by (auto simp: v eligible_def run_pages_def)
    then show "unat cand \<le> p"
      unfolding cand by (auto elim!: dvdE)
  qed
qed

lemma candidate_error:
  assumes "run_ok r" "align_up (max (pr_start r) (min_address c)) PAGE_SIZE_4K = Inl e"
  shows "kind e = InvalidAddress" "eligible c F \<inter> {p. 4096 dvd p} = {}"
proof -
  have e: "kind e = InvalidAddress" "2 ^ 64 \<le> unat (max (pr_start r) (min_address c)) + 4095"
    using align_up_error [OF assms(2)] by simp_all
  then show "kind e = InvalidAddress" by simp
  have "run_lo r + 4096 \<le> run_hi r"
    using assms(1) page_below_hi [of "run_lo r" "run_hi r"] run_hi_dvd [of r] by (simp add: run_ok_def)
  then have "2 ^ 64 \<le> unat (min_address c) + 4095"
    using e(2) assms(1) by (auto simp: run_ok_def run_lo_def max_def split: if_splits)
  moreover have "unat (max_address_exclusive c) < 2 ^ 64"
    using unat_lt_64 by auto
  ultimately show "eligible c F \<inter> {p. 4096 dvd p} = {}"
    by (auto simp: eligible_def)
qed


text \<open>The scan finds the lowest admissible free page, and the run that holds it.\<close>

definition selected :: "page_allocation_constraint \<Rightarrow> nat \<Rightarrow> page_run list \<Rightarrow> nat \<Rightarrow> u64 \<Rightarrow> u64 \<Rightarrow> bool" where
  "selected c k rs idx page run_end \<longleftrightarrow>
     (\<exists>us r vs. rs = us @ r # vs \<and> idx = k + length us \<and> unat run_end = run_hi r
        \<and> unat page \<in> run_pages r \<and> unat page \<in> eligible c (pages_of rs)
        \<and> (\<forall>p \<in> eligible c (pages_of rs). unat page \<le> p))"

lemma selected_head:
  assumes "runs_ok (r # rs)" "unat run_end = run_hi r" "unat cand \<in> run_pages r"
    "unat cand \<in> eligible c (run_pages r)" "\<forall>p \<in> eligible c (run_pages r). unat cand \<le> p"
  shows "selected c k (r # rs) k cand run_end"
proof -
  have "unat cand \<le> p" if "p \<in> pages_of rs" for p
    using that assms(1,3) by (fastforce simp: pages_of_def run_pages_def runs_ok_Cons)
  then show ?thesis
    using assms unfolding selected_def
    by (intro exI [of _ "[]"] exI [of _ r] exI [of _ rs]) (auto simp: eligible_def)
qed

lemma selected_tail:
  "eligible c (run_pages r) = {} \<Longrightarrow> selected c (k + 1) rs idx page e \<Longrightarrow> selected c k (r # rs) idx page e"
  unfolding selected_def
  by (elim exE conjE, rule_tac x = "r # us" in exI, rule_tac x = ra in exI, rule_tac x = vs in exI) auto

lemma pages_dvd: "p \<in> pages_of rs \<Longrightarrow> 4096 dvd p"
  by (auto simp: pages_of_def run_pages_def)

lemma select_run_spec:
  assumes "runs_ok rs"
  shows "(\<exists>idx page e. select_run c k rs = Inr (Some (idx, page, e)) \<and> selected c k rs idx page e)
    \<or> (select_run c k rs = Inr None \<and> eligible c (pages_of rs) = {})
    \<or> (\<exists>e. select_run c k rs = Inl e \<and> kind e = InvalidAddress \<and> eligible c (pages_of rs) = {})"
  using assms
proof (induction rs arbitrary: k)
  case Nil
  then show ?case by simp
next
  case (Cons r rs)
  then have r: "run_ok r" "runs_ok rs"
    by (simp_all add: runs_ok_Cons)
  from page_run_end_ok [OF r(1)] obtain re where re: "page_run_end r = Inr re" "unat re = run_hi r"
    by blast
  have skip: ?case if "eligible c (run_pages r) = {}" "select_run c k (r # rs) = select_run c (k + 1) rs"
    using Cons.IH [OF r(2), of "k + 1"] that selected_tail [OF that(1)] by auto
  show ?case
  proof (cases "align_up (max (pr_start r) (min_address c)) PAGE_SIZE_4K")
    case (Inl e)
    then have "eligible c (pages_of (r # rs)) = {}"
      using candidate_error(2) [OF r(1) Inl, of "pages_of (r # rs)"] pages_dvd [of _ "r # rs"]
      by (fastforce simp: eligible_def)
    then show ?thesis
      using Inl re candidate_error(1) [OF r(1) Inl] by simp
  next
    case (Inr cand)
    note cand = candidate_least [OF r(1) Inr]
    show ?thesis
    proof (cases rule: checked_add_cases [of cand PAGE_SIZE_4K])
      case (Some ce)
      then have ce: "unat ce = unat cand + 4096"
        by (auto simp: checked_add_eq_Some PAGE_SIZE_4K_def)
      show ?thesis
      proof (cases "ce \<le> min re (max_address_exclusive c)")
        case True
        then have "unat cand + 4096 \<le> run_hi r" "unat cand + 4096 \<le> unat (max_address_exclusive c)"
          using ce re(2) by (simp_all add: word_le_nat_alt unat_min)
        then have "selected c k (r # rs) k cand re"
          using cand by (intro selected_head [OF Cons.prems re(2)]) (auto simp: run_pages_def eligible_def)
        then show ?thesis
          using True Inr Some re(1) by simp
      next
        case False
        have "eligible c (run_pages r) = {}"
          using False cand(4) ce re(2) page_below_hi [OF _ run_hi_dvd [OF r(1)]]
          by (fastforce simp: eligible_def run_pages_def word_le_nat_alt unat_min)
        then show ?thesis
          using False Inr Some re(1) by (intro skip) auto
      qed
    next
      case None
      then have "2 ^ 64 \<le> unat cand + 4096"
        by (simp add: checked_add_eq_None PAGE_SIZE_4K_def)
      then have "eligible c (run_pages r) = {}"
        using cand(4) r(1) page_below_hi [OF _ run_hi_dvd [OF r(1)]]
        by (fastforce simp: eligible_def run_pages_def run_ok_def)
      then show ?thesis
        using Inr None re(1) by (intro skip) simp_all
    qed
  qed
qed


section \<open>Allocating and freeing\<close>

lemma alloc_invD:
  assumes "alloc_inv s"
  shows "pa_free_len s \<le> length (pa_free s)" "pa_allocated_len s \<le> length (pa_allocated s)"
    "runs_ok (live_runs s)" "distinct (live_pages s)" "free_set s \<inter> alloc_set s = {}"
    "p \<in> set (live_pages s) \<Longrightarrow> 4096 dvd unat p \<and> unat p + 4096 < 2 ^ 64"
  using assms by (simp_all add: alloc_inv_def)

lemma free_set_bound:
  assumes "runs_ok (live_runs s)" "p \<in> free_set s"
  shows "4096 dvd p" "p + 4096 < 2 ^ 64"
proof -
  obtain r where r: "r \<in> set (live_runs s)" "p \<in> run_pages r" "run_ok r"
    using assms runs_okD by (auto simp: free_set_def pages_of_def)
  then show "4096 dvd p" "p + 4096 < 2 ^ 64"
    using page_below_hi [OF _ run_hi_dvd [OF r(3)], of p] by (auto simp: run_pages_def run_ok_def)
qed

text \<open>Moving a page from the free table to the allocation table.\<close>

lemma record_allocation:
  assumes inv: "alloc_inv s" and room: "pa_allocated_len s < length (pa_allocated s)"
    and page: "unat page \<in> free_set s" and step: "free_step s s' (free_set s - {unat page})"
    and s'': "s'' = s'\<lparr>pa_allocated := (pa_allocated s')[pa_allocated_len s' := page],
                       pa_allocated_len := pa_allocated_len s' + 1\<rparr>"
  shows "alloc_inv s''" "free_set s'' = free_set s - {unat page}"
    "alloc_set s'' = insert (unat page) (alloc_set s)"
proof -
  note inv = alloc_invD [OF inv]
  have live: "live_runs s'' = live_runs s'" "live_pages s'' = live_pages s @ [page]"
    using s'' step room by (simp_all add: live_runs_def live_pages_def free_step_def take_Suc_conv_app_nth)
  then show free: "free_set s'' = free_set s - {unat page}"
    using step by (simp add: free_set_def free_step_def)
  show alloc: "alloc_set s'' = insert (unat page) (alloc_set s)"
    by (simp add: alloc_set_def live)
  have "page \<notin> set (live_pages s)"
    using inv(5) page by (auto simp: alloc_set_def)
  then show "alloc_inv s''"
    unfolding alloc_inv_def free alloc live
    using step s'' room inv free_set_bound [OF inv(3) page] by (auto simp: free_step_def)
qed

lemma allocate_within_spec:
  assumes inv: "alloc_inv s"
  shows "(\<exists>p s'. allocate_within s c = (Inr (HostPhysical p), s') \<and> alloc_inv s'
       \<and> unat p \<in> eligible c (free_set s) \<and> (\<forall>q \<in> eligible c (free_set s). unat p \<le> q)
       \<and> free_set s' = free_set s - {unat p} \<and> alloc_set s' = insert (unat p) (alloc_set s)
       \<and> (\<not> next_to (unat p) (free_set s) \<longrightarrow> pa_free_len s' < length (pa_free s')))
    \<or> (\<exists>e. allocate_within s c = (Inl e, s)
       \<and> (kind e \<in> {InvalidAddress, OutOfMemory} \<and> eligible c (free_set s) = {}
          \<or> kind e = CapacityExceeded \<and>
              (pa_allocated_len s = length (pa_allocated s) \<or> pa_free_len s = length (pa_free s))))"
    (is "?ok \<or> ?err")
proof -
  note inv' = alloc_invD [OF inv]
  consider "max_address_exclusive c \<le> min_address c" | "pa_allocated_len s = length (pa_allocated s)"
    | "\<not> max_address_exclusive c \<le> min_address c" "pa_allocated_len s < length (pa_allocated s)"
    using inv'(2) by linarith
  then show ?thesis
  proof cases
    case 1
    then show ?thesis by (auto simp: allocate_within_def eligible_def word_le_nat_alt)
  next
    case 2
    then show ?thesis by (auto simp: allocate_within_def eligible_def word_le_nat_alt)
  next
    case 3
    from select_run_spec [OF inv'(3), of c 0] show ?thesis
    proof (elim disjE exE conjE)
      fix idx page re assume sel: "select_run c 0 (live_runs s) = Inr (Some (idx, page, re))"
        and "selected c 0 (live_runs s) idx page re"
      then obtain us r vs where u: "live_runs s = us @ r # vs" "idx = length us" "unat re = run_hi r"
        "unat page \<in> run_pages r" "unat page \<in> eligible c (free_set s)"
        "\<forall>p \<in> eligible c (free_set s). unat page \<le> p"
        by (auto simp: selected_def free_set_def)
      have page: "unat page \<in> free_set s" "page \<noteq> - 1"
        using u(5) free_set_bound(2) [OF inv'(3), of "unat page"]
        by (auto simp: eligible_def unsigned_minus_1_eq_mask mask_eq_exp_minus_1)
      from take_page_from_run_step [OF u(1) inv'(1) inv'(3) [unfolded u(1)] u(4,3)] show ?thesis
      proof (elim disjE exE conjE)
        fix s' assume t: "take_page_from_run s (length us) page re = (Inr (), s')"
          and st: "free_step s s' (free_set s - {unat page})"
          and room: "\<not> next_to (unat page) (free_set s) \<longrightarrow> pa_free_len s' < pa_free_len s"
        define s'' where "s'' = s'\<lparr>pa_allocated := (pa_allocated s')[pa_allocated_len s' := page],
              pa_allocated_len := pa_allocated_len s' + 1\<rparr>"
        have "allocate_within s c = (Inr (HostPhysical page), s'')"
          using 3 sel t u(2) page(2) by (simp add: allocate_within_def live_runs_def s''_def)
        moreover have "\<not> next_to (unat page) (free_set s) \<longrightarrow> pa_free_len s'' < length (pa_free s'')"
        proof -
          have "length (pa_free s') = length (pa_free s)"
            using st by (simp add: free_step_def)
          then show ?thesis
            using room inv'(1) by (auto simp: s''_def)
        qed
        ultimately have ?ok
          using record_allocation [OF inv 3(2) page(1) st s''_def] u(5,6) by blast
        then show ?thesis ..
      next
        fix e assume "take_page_from_run s (length us) page re = (Inl e, s)" "kind e = CapacityExceeded"
          "pa_free_len s = length (pa_free s)"
        then show ?thesis
          using 3 sel u(2) by (simp add: allocate_within_def live_runs_def)
      qed
    qed (use 3 in \<open>simp_all add: allocate_within_def live_runs_def free_set_def\<close>)
  qed
qed


lemma length_live_pages: "pa_allocated_len s \<le> length (pa_allocated s) \<Longrightarrow> length (live_pages s) = pa_allocated_len s"
  by (simp add: live_pages_def)

lemma single_run: "4096 dvd unat p \<Longrightarrow> unat p + 4096 < 2 ^ 64 \<Longrightarrow>
    run_ok \<lparr>pr_start = p, pr_count = 1\<rparr> \<and> run_pages \<lparr>pr_start = p, pr_count = 1\<rparr> = {unat p}"
  using pages_in_single by (simp add: run_ok_def run_pages_def run_defs)

lemma isolated_page:
  assumes "runs_ok (live_runs s)" "4096 dvd unat p" "isolated \<lparr>pr_start = p, pr_count = 1\<rparr> (live_runs s)"
  shows "\<not> next_to (unat p) (free_set s)"
proof
  assume "next_to (unat p) (free_set s)"
  then obtain q x where q: "q = unat p + 4096 \<or> q + 4096 = unat p" and x: "x \<in> set (live_runs s)" "q \<in> run_pages x"
    by (auto simp: next_to_def free_set_def pages_of_def)
  have "q + 4096 \<le> run_hi x" "run_lo x \<le> q"
    using x page_below_hi [OF _ run_hi_dvd [OF runs_okD [OF assms(1) x(1)]]] by (simp_all add: run_pages_def)
  moreover have "run_hi x < unat p \<or> unat p + 4096 < run_lo x"
    using assms(3) x(1) by (auto simp: isolated_def run_defs)
  ultimately show False
    using q by linarith
qed

text \<open>Moving a page back from the allocation table to the free table.\<close>

lemma record_free:
  assumes inv: "alloc_inv s" and i: "i < length (live_pages s)" "live_pages s ! i = page"
    and step: "free_step s s' (free_set s \<union> {unat page})"
    and s'': "s'' = s'\<lparr>pa_allocated := fst (remove_allocated (pa_allocated s') (pa_allocated_len s') i),
                       pa_allocated_len := snd (remove_allocated (pa_allocated s') (pa_allocated_len s') i)\<rparr>"
  shows "alloc_inv s''" "free_set s'' = insert (unat page) (free_set s)"
    "alloc_set s'' = alloc_set s - {unat page}"
proof -
  note inv = alloc_invD [OF inv]
  obtain xs ys where xy: "live_pages s = xs @ page # ys" "length xs = i"
    using id_take_nth_drop [OF i(1)] i by (metis length_take min.absorb4)
  have alen: "pa_allocated s' = pa_allocated s" "pa_allocated_len s' = pa_allocated_len s"
    using step by (simp_all add: free_step_def)
  have live: "live_runs s'' = live_runs s'" "live_pages s'' = xs @ ys"
    using take_remove_mid [OF xy(1) [unfolded live_pages_def] inv(2), of 0]
    by (simp_all add: s'' live_runs_def live_pages_def remove_allocated_def xy(2) alen)
  then show free: "free_set s'' = insert (unat page) (free_set s)"
    using step by (simp add: free_set_def free_step_def)
  show alloc: "alloc_set s'' = alloc_set s - {unat page}"
    using inv(4) by (auto simp: alloc_set_def live xy word_unat_eq_iff [symmetric])
  have "distinct (xs @ ys)" "\<forall>p \<in> set (xs @ ys). 4096 dvd unat p \<and> unat p + 4096 < 2 ^ 64"
    using inv(4,6) by (auto simp: xy)
  moreover have "pa_allocated_len s'' \<le> length (pa_allocated s'')" "pa_free_len s'' \<le> length (pa_free s'')"
    using inv(2) step by (simp_all add: s'' remove_allocated_def free_step_def)
  ultimately show "alloc_inv s''"
    unfolding alloc_inv_def free alloc live
    using step inv(5) by (auto simp: free_step_def)
qed

lemma free_page_spec:
  assumes inv: "alloc_inv s"
  shows "(\<exists>s'. free_page s (HostPhysical p) = (Inr (), s') \<and> unat p \<in> alloc_set s \<and> alloc_inv s'
       \<and> free_set s' = insert (unat p) (free_set s) \<and> alloc_set s' = alloc_set s - {unat p})
    \<or> (\<exists>e. free_page s (HostPhysical p) = (Inl e, s)
       \<and> (unat p \<notin> alloc_set s \<and> kind e = (if 4096 dvd unat p then DoubleFree else InvalidAddress)
          \<or> unat p \<in> alloc_set s \<and> kind e = CapacityExceeded \<and> pa_free_len s = length (pa_free s)
              \<and> \<not> next_to (unat p) (free_set s)))"
    (is "?ok \<or> ?err")
proof -
  note inv' = alloc_invD [OF inv]
  have al: "p mod PAGE_SIZE_4K = 0 \<longleftrightarrow> 4096 dvd unat p"
    by (simp add: word_unat_eq_iff unat_mod_distrib PAGE_SIZE_4K_def mod_eq_0_iff_dvd)
  have mem: "unat p \<in> alloc_set s \<longleftrightarrow> p \<in> set (live_pages s)"
    by (auto simp: alloc_set_def word_unat_eq_iff [symmetric])
  show ?thesis
  proof (cases "position (\<lambda>entry. entry = p) (live_pages s)")
    case None
    then have "p \<notin> set (live_pages s)"
      by (auto simp: position_None)
    then have ?err
      using None al by (auto simp: free_page_def mem live_pages_def)
    then show ?thesis ..
  next
    case (Some i)
    then have i: "i < length (live_pages s)" "live_pages s ! i = p"
      using position_SomeD by auto
    then have p: "p \<in> set (live_pages s)"
      by auto
    with inv'(6) have b: "4096 dvd unat p" "unat p + 4096 < 2 ^ 64"
      by auto
    let ?run = "\<lparr>pr_start = p, pr_count = 1\<rparr>"
    have disj: "run_pages ?run \<inter> free_set s = {}"
      using inv'(5) p single_run [OF b] by (auto simp: alloc_set_def)
    from insert_free_run_step [OF inv'(3,1) _ disj] single_run [OF b]
    have "(\<exists>s'. insert_free_run s ?run = (Inr (), s') \<and> free_step s s' (free_set s \<union> {unat p}))
      \<or> (\<exists>e. insert_free_run s ?run = (Inl e, s) \<and> kind e = CapacityExceeded \<and> pa_free_len s = length (pa_free s)
          \<and> isolated ?run (live_runs s))"
      by simp
    then show ?thesis
    proof (elim disjE exE conjE)
      fix s' assume t: "insert_free_run s ?run = (Inr (), s')"
        and "free_step s s' (free_set s \<union> {unat p})"
      note rec = record_free [OF inv i this(2) refl]
      have "free_page s (HostPhysical p) = (Inr (),
        s'\<lparr>pa_allocated := fst (remove_allocated (pa_allocated s') (pa_allocated_len s') i),
           pa_allocated_len := snd (remove_allocated (pa_allocated s') (pa_allocated_len s') i)\<rparr>)"
        using Some t al b by (simp add: free_page_def live_pages_def split_beta)
      then have ?ok
        using rec p mem by blast
      then show ?thesis ..
    next
      fix e assume "insert_free_run s ?run = (Inl e, s)" "kind e = CapacityExceeded"
        "pa_free_len s = length (pa_free s)" "isolated ?run (live_runs s)"
      moreover from this(4) have "\<not> next_to (unat p) (free_set s)"
        by (rule isolated_page [OF inv'(3) b(1)])
      ultimately have ?err
        using Some al b p mem by (simp add: free_page_def live_pages_def)
      then show ?thesis ..
    qed
  qed
qed


section \<open>Reserving a range\<close>

lemma reserve_check_cases:
  assumes "runs_ok rs"
  shows "(reserve_check cap len start stop rs = Inr ()
            \<and> (\<forall>r \<in> set rs. run_lo r < unat start \<and> unat stop < run_hi r \<longrightarrow> len < cap))
    \<or> (\<exists>e. reserve_check cap len start stop rs = Inl e \<and> kind e = CapacityExceeded \<and> cap \<le> len
          \<and> (\<exists>r \<in> set rs. run_lo r < unat start \<and> unat stop < run_hi r))"
  using assms
proof (induction rs)
  case (Cons r rs)
  from page_run_end_ok [of r] Cons.prems obtain e where
    "page_run_end r = Inr e" "unat e = run_hi r"
    by (auto simp: runs_ok_Cons)
  then show ?case
    using Cons by (auto simp: runs_ok_Cons word_less_nat_alt run_lo_def)
qed simp

text \<open>The result of the reservation loop: the table without the pages of \<open>[lo, hi)\<close>.\<close>

definition reserved :: "nat \<Rightarrow> nat \<Rightarrow> nat set \<Rightarrow> nat \<Rightarrow> unit core_result \<times> page_run list \<times> nat \<Rightarrow> bool" where
  "reserved lo hi P cap res \<longleftrightarrow>
     (\<exists>a n. res = (Inr (), a, n) \<and> n \<le> length a \<and> length a = cap \<and> runs_ok (take n a)
        \<and> pages_of (take n a) = P - pages_in lo hi)"

lemma Diff_pages_in:
  assumes "lo \<le> lo'" "hi' \<le> hi"
  shows "P - pages_in lo' hi' - pages_in lo hi = P - pages_in lo hi"
proof -
  have "pages_in lo' hi' \<subseteq> pages_in lo hi"
    using assms by (simp add: pages_in_def Collect_mono_iff)
  then show ?thesis by blast
qed

lemma reserved_more: "reserved lo hi (P - pages_in lo' hi') cap res \<Longrightarrow> lo \<le> lo' \<Longrightarrow> hi' \<le> hi
    \<Longrightarrow> reserved lo hi P cap res"
  using Diff_pages_in [of lo lo' hi' hi P] by (simp add: reserved_def)

text \<open>How one overlapping run is cut: \<open>lo\<close> and \<open>hi\<close> are the bounds of the overlap.\<close>

lemma reserve_counts:
  fixes start stop :: u64
  assumes "run_ok r" "unat run_end = run_hi r" "4096 dvd unat start" "4096 dvd unat stop"
    "unat start < run_hi r" "run_lo r < unat stop"
    and lo: "lo = max (unat start) (run_lo r)" and hi: "hi = min (unat stop) (run_hi r)"
    and left: "left = (if pr_start r < start then (start - pr_start r) div PAGE_SIZE_4K else 0)"
    and right: "right = (if stop < run_end then (run_end - stop) div PAGE_SIZE_4K else 0)"
  shows "left = 0 \<longleftrightarrow> lo = run_lo r" "right = 0 \<longleftrightarrow> hi = run_hi r"
    "left \<noteq> 0 \<Longrightarrow> is_left (r\<lparr>pr_count := left\<rparr>) r lo"
    "right \<noteq> 0 \<Longrightarrow> is_right \<lparr>pr_start = stop, pr_count = right\<rparr> r hi"
proof -
  have al: "4096 dvd lo" "4096 dvd hi" "run_lo r \<le> lo" "lo \<le> run_hi r" "hi \<le> run_hi r"
    using assms(1-6) run_hi_dvd [OF assms(1)] unfolding lo hi max_def min_def by (auto simp: run_ok_def)
  have cnt: "unat left = (lo - run_lo r) div 4096" "unat right = (run_hi r - hi) div 4096"
    using unat_pages_between [of "pr_start r" start] unat_pages_between [of stop run_end] assms(2)
    by (auto simp: left right lo hi run_lo_def word_less_nat_alt word_le_nat_alt)
  show z: "left = 0 \<longleftrightarrow> lo = run_lo r" "right = 0 \<longleftrightarrow> hi = run_hi r"
    using div_page_0 [of "run_lo r" lo] div_page_0 [of hi "run_hi r"] al assms(1) run_hi_dvd [OF assms(1)] cnt
    by (auto simp: run_ok_def unat_eq_0)
  show "left \<noteq> 0 \<Longrightarrow> is_left (r\<lparr>pr_count := left\<rparr>) r lo"
    by (rule left_part [OF assms(1) al(1,3,4) cnt(1)])
  have "hi = unat stop" if "right \<noteq> 0"
    using that z(2) al(5) unfolding hi by linarith
  then show "right \<noteq> 0 \<Longrightarrow> is_right \<lparr>pr_start = stop, pr_count = right\<rparr> r hi"
    using right_part [OF assms(1) _ al(2,5) cnt(2), of stop] by simp
qed

lemma reserve_loop_end:
  assumes "take len a = us @ vs" "len \<le> length a" "runs_ok (us @ vs)"
    "pages_of us \<inter> pages_in lo hi = {}" "\<forall>r \<in> set vs. hi \<le> run_lo r"
  shows "reserved lo hi (pages_of (us @ vs)) (length a) (Inr (), a, len)"
proof -
  have "pages_of vs \<inter> pages_in lo hi = {}"
    using assms(5) by (fastforce simp: pages_of_def run_pages_def)
  then show ?thesis
    using assms by (auto simp: reserved_def)
qed

lemma unat_of_nat_64: "n < 2 ^ 64 \<Longrightarrow> unat (of_nat n :: u64) = n"
  by (simp add: unat_of_nat)

lemma disjoint_left: "is_left x r lo \<Longrightarrow> lo \<le> a \<Longrightarrow> run_pages x \<inter> pages_in a b = {}"
  by (force simp: is_left_def run_pages_def)

lemma disjoint_right: "is_right x r hi \<Longrightarrow> b \<le> hi \<Longrightarrow> run_pages x \<inter> pages_in a b = {}"
  by (force simp: is_right_def run_pages_def)

text \<open>One overlapping run is cut and the loop goes on behind what is left of it.\<close>

lemma reserve_cut:
  fixes start stop :: u64
  assumes al: "4096 dvd unat start" "4096 dvd unat stop" "unat start < unat stop"
    and tk: "take len a = us @ r # vs" and len: "len \<le> length a" and ok: "runs_ok (us @ r # vs)"
    and us: "pages_of us \<inter> pages_in (unat start) (unat stop) = {}"
    and room: "run_lo r < unat start \<and> unat stop < run_hi r \<longrightarrow> len < length a"
    and in_r: "unat start < run_hi r" "run_lo r < unat stop"
    and lo: "lo = max (unat start) (run_lo r)" and hi: "hi = min (unat stop) (run_hi r)"
  obtains a' len' us' where
    "reserve_loop start stop a len (length us) = reserve_loop start stop a' len' (length us')"
    "take len' a' = us' @ vs" "len' \<le> length a'" "length a' = length a" "runs_ok (us' @ vs)"
    "pages_of us' \<inter> pages_in (unat start) (unat stop) = {}"
    "pages_of (us' @ vs) = pages_of (us @ r # vs) - pages_in lo hi"
proof -
  have r: "run_ok r" "length us < len" "a ! length us = r"
    using ok tk take_length_mid(1) [OF tk len] nth_take [of "length us" len a]
    by (auto simp: runs_ok_split)
  from page_run_end_ok [OF r(1)] obtain re where re: "page_run_end r = Inr re" "unat re = run_hi r"
    by blast
  define left right
    where "left = (if pr_start r < start then (start - pr_start r) div PAGE_SIZE_4K else 0)"
      and "right = (if stop < re then (re - stop) div PAGE_SIZE_4K else 0)"
  note cnt = reserve_counts [OF r(1) re(2) al(1,2) in_r lo hi left_def right_def]
  have b: "4096 dvd lo" "4096 dvd hi" "run_lo r \<le> lo" "lo < hi" "hi \<le> run_hi r"
    using al r(1) in_r run_hi_dvd [OF r(1)] by (auto simp: lo hi max_def min_def run_ok_def)
  note cut = cut_run [OF ok b(1-3) less_imp_le [OF b(4)] b(5)]
  let ?q = "\<lparr>pr_start = stop, pr_count = right\<rparr>" and ?m = "r\<lparr>pr_count := left\<rparr>"
  have step: "reserve_loop start stop a len (length us) =
      (if left = 0 \<and> right = 0
       then reserve_loop start stop (fst (remove_run a len (length us))) (len - 1) (length us)
       else if left = 0 then reserve_loop start stop (a[length us := ?q]) len (length us + 1)
       else if right = 0 then reserve_loop start stop (a[length us := ?m]) len (length us + 1)
       else reserve_loop start stop
              ((shift_right (length us + 1) len a)[length us := ?m, length us + 1 := ?q])
              (len + 1) (length us + 2))"
    using r re in_r unfolding left_def right_def reserve_loop.simps [of start stop a len "length us"]
    by (simp add: word_le_nat_alt run_lo_def Let_def)
  consider "left = 0" "right = 0" | "left = 0" "right \<noteq> 0" | "left \<noteq> 0" "right = 0"
    | "left \<noteq> 0" "right \<noteq> 0"
    by blast
  then show thesis
  proof cases
    case 1
    then show thesis
      using that [of "fst (remove_run a len (length us))" "len - 1" us] cut(1) cnt us len step
        take_remove_mid [OF tk len] by (simp add: remove_run_def le_diff_conv)
  next
    case 2
    then show thesis
      using that [of "a[length us := ?q]" len "us @ [?q]"] cut(2) [of ?q] cnt us len step b
        take_update_mid [OF tk, of ?q] disjoint_right [OF cnt(4)]
      by (simp add: Int_Un_distrib2 hi)
  next
    case 3
    then show thesis
      using that [of "a[length us := ?m]" len "us @ [?m]"] cut(3) [of ?m] cnt us len step b
        take_update_mid [OF tk, of ?m] disjoint_left [OF cnt(3)]
      by (simp add: Int_Un_distrib2 lo)
  next
    case 4
    with room cnt(1,2) b have "len < length a"
      by (auto simp: lo hi)
    with 4 show thesis
      using that [of "(shift_right (length us + 1) len a)[length us := ?m, length us + 1 := ?q]"
          "len + 1" "us @ [?m, ?q]"] cut(4) [of ?m ?q] cnt us len step b
        take_split_mid [OF tk, of ?m ?q] disjoint_left [OF cnt(3)] disjoint_right [OF cnt(4)]
      by (simp add: Int_Un_distrib2 lo hi)
  qed
qed


lemma reserve_loop_spec:
  fixes start stop :: u64
  assumes al: "4096 dvd unat start" "4096 dvd unat stop" "unat start < unat stop"
  shows "take len a = us @ vs \<Longrightarrow> len \<le> length a \<Longrightarrow> runs_ok (us @ vs)
    \<Longrightarrow> pages_of us \<inter> pages_in (unat start) (unat stop) = {}
    \<Longrightarrow> \<forall>r \<in> set vs. run_lo r < unat start \<and> unat stop < run_hi r \<longrightarrow> len < length a
    \<Longrightarrow> reserved (unat start) (unat stop) (pages_of (us @ vs)) (length a)
          (reserve_loop start stop a len (length us))"
proof (induction vs arbitrary: us len a)
  case Nil
  then have "len = length us"
    by (metis append_Nil2 length_take min.absorb2)
  then show ?case
    using reserve_loop_end [of len a us "[]"] Nil.prems by (simp add: reserve_loop.simps)
next
  case (Cons r vs)
  note prems = Cons.prems
  have r: "run_ok r" "\<forall>x \<in> set vs. run_hi r < run_lo x" "length us < len" "a ! length us = r"
    using prems(1-3) take_length_mid(1) [OF prems(1,2)] nth_take [of "length us" len a]
    by (auto simp: runs_ok_split)
  from page_run_end_ok [OF r(1)] obtain re where re: "page_run_end r = Inr re" "unat re = run_hi r"
    by blast
  note unfold = reserve_loop.simps [of start stop a len "length us"]
  consider "unat stop \<le> run_lo r" | "run_lo r < unat stop" "run_hi r \<le> unat start"
    | "unat start < run_hi r" "run_lo r < unat stop"
    by linarith
  then show ?case
  proof cases
    case 1
    then have "\<forall>x \<in> set (r # vs). unat stop \<le> run_lo x"
      using r(1,2) by (force simp: run_ok_def)
    then show ?thesis
      using reserve_loop_end [OF prems(1-4)] 1 r re
      by (simp add: unfold word_le_nat_alt run_lo_def)
  next
    case 2
    then have "run_pages r \<inter> pages_in (unat start) (unat stop) = {}"
      by (force simp: run_pages_def)
    then have "reserved (unat start) (unat stop) (pages_of ((us @ [r]) @ vs)) (length a)
        (reserve_loop start stop a len (length (us @ [r])))"
      using prems by (intro Cons.IH) auto
    then show ?thesis
      using 2 r re by (simp add: unfold word_le_nat_alt run_lo_def)
  next
    case 3
    have room: "run_lo r < unat start \<and> unat stop < run_hi r \<longrightarrow> len < length a"
      using prems(5) by simp
    obtain a' len' us' where c:
      "reserve_loop start stop a len (length us) = reserve_loop start stop a' len' (length us')"
      "take len' a' = us' @ vs" "len' \<le> length a'" "length a' = length a" "runs_ok (us' @ vs)"
      "pages_of us' \<inter> pages_in (unat start) (unat stop) = {}"
      "pages_of (us' @ vs) = pages_of (us @ r # vs)
         - pages_in (max (unat start) (run_lo r)) (min (unat stop) (run_hi r))"
      using reserve_cut [OF al prems(1-4) room 3 refl refl] by metis
    have "\<forall>x \<in> set vs. run_lo x < unat start \<and> unat stop < run_hi x \<longrightarrow> len' < length a'"
      using r(2) 3(1) by auto
    from Cons.IH [OF c(2,3,5,6) this] show ?thesis
      unfolding c(1,4,7) by (rule reserved_more) simp_all
  qed
qed

lemma page_meets:
  assumes "4096 dvd unat p" "4096 dvd unat (start :: u64)" "unat p + 4096 < 2 ^ 64"
  shows "p < stop \<and> start < p + PAGE_SIZE_4K \<longleftrightarrow> unat p \<in> pages_in (unat start) (unat stop)"
proof -
  have "unat (p + PAGE_SIZE_4K) = unat p + 4096"
    using assms(3) unat_add_exact [of p 4096] by (simp add: PAGE_SIZE_4K_def)
  then show ?thesis
    using assms(1) page_below_hi [OF assms(1,2)] by (auto simp: word_less_nat_alt not_less [symmetric])
qed

text \<open>The page-aligned hull of a byte range.\<close>

definition hull_lo :: "u64 \<Rightarrow> nat" where
  "hull_lo base = unat base div 4096 * 4096"

definition hull_hi :: "u64 \<Rightarrow> u64 \<Rightarrow> nat" where
  "hull_hi base len = (unat base + unat len + 4095) div 4096 * 4096"

lemma reserve_range_bounds:
  assumes "len \<noteq> 0" "unat base + unat len + 4095 < 2 ^ 64"
  obtains raw stop where "checked_add base len = Some raw" "align_up raw PAGE_SIZE_4K = Inr stop"
    "unat stop = hull_hi base len" "4096 dvd unat stop" "unat (align_down base PAGE_SIZE_4K) = hull_lo base"
    "4096 dvd hull_lo base" "hull_lo base < hull_hi base len"
proof -
  define raw stop :: u64 where "raw = of_nat (unat base + unat len)" and "stop = of_nat (hull_hi base len)"
  have raw: "unat raw = unat base + unat len"
    using assms(2) unfolding raw_def by (intro unat_of_nat_64) simp
  have le: "hull_hi base len \<le> unat base + unat len + 4095"
    unfolding hull_hi_def by simp
  then have stop: "unat stop = hull_hi base len"
    using assms(2) unfolding stop_def by (intro unat_of_nat_64) simp
  have "0 < unat len"
    using assms(1) by (simp add: unat_gt_0)
  then have "hull_lo base < hull_hi base len"
    unfolding hull_lo_def hull_hi_def by linarith
  moreover have "checked_add base len = Some raw"
    by (simp add: checked_add_eq_Some raw)
  moreover have "align_up raw PAGE_SIZE_4K = Inr stop"
    using assms(2) by (simp add: align_up_4K raw stop hull_hi_def)
  ultimately show ?thesis
    using that stop by (simp add: align_down_4K hull_lo_def hull_hi_def)
qed


text \<open>Writing the cut table back; the returned difference is the number of pages taken out.\<close>

lemma reserve_commit:
  assumes inv: "alloc_inv s" and res: "reserved lo hi (free_set s) (length (pa_free s)) (Inr (), a, n)"
    and s': "s' = set_free s (a, n)"
  shows "alloc_inv s'" "free_set s' = free_set s - pages_in lo hi" "alloc_set s' = alloc_set s"
    "unat (free_pages s - free_pages s') = card (free_set s \<inter> pages_in lo hi)"
proof -
  note inv' = alloc_invD [OF inv]
  have a: "n \<le> length a" "runs_ok (take n a)" "pages_of (take n a) = free_set s - pages_in lo hi"
    using res by (auto simp: reserved_def)
  have live: "live_runs s' = take n a" "live_pages s' = live_pages s"
    by (simp_all add: s' live_runs_def live_pages_def set_free_def)
  show free: "free_set s' = free_set s - pages_in lo hi"
    by (simp add: free_set_def [of s'] live a)
  show alloc: "alloc_set s' = alloc_set s"
    by (simp add: alloc_set_def live)
  show "alloc_inv s'"
    unfolding alloc_inv_def free alloc live using a inv inv'(5)
    by (auto simp: s' set_free_def alloc_inv_def)
  have cards: "unat (free_pages s') = card (free_set s - pages_in lo hi)" "unat (free_pages s) = card (free_set s)"
    using unat_free_pages [of s'] unat_free_pages [OF inv'(3)] live(1) a(2) free by simp_all
  have fin: "finite (free_set s)"
    by (simp add: free_set_def)
  then have "card (free_set s) = card (free_set s - pages_in lo hi) + card (free_set s \<inter> pages_in lo hi)"
    by (metis Int_Diff_disjoint Un_Diff_Int card_Un_disjoint finite_Diff finite_Int inf_commute Int_Diff)
  then show "unat (free_pages s - free_pages s') = card (free_set s \<inter> pages_in lo hi)"
    using cards unat_sub [of "free_pages s'" "free_pages s"] by (simp add: word_le_nat_alt)
qed

lemma reserve_range_spec:
  assumes inv: "alloc_inv s"
  shows "(\<exists>n s'. reserve_range s base len = (Inr n, s') \<and> alloc_inv s'
       \<and> alloc_set s \<inter> pages_in (hull_lo base) (hull_hi base len) = {}
       \<and> free_set s' = free_set s - pages_in (hull_lo base) (hull_hi base len)
       \<and> alloc_set s' = alloc_set s
       \<and> unat n = card (free_set s \<inter> pages_in (hull_lo base) (hull_hi base len)))
    \<or> (\<exists>e. reserve_range s base len = (Inl e, s)
       \<and> (kind e = InvalidAddress \<and> (len = 0 \<or> 2 ^ 64 \<le> unat base + unat len + 4095)
        \<or> kind e = Overlap \<and> alloc_set s \<inter> pages_in (hull_lo base) (hull_hi base len) \<noteq> {}
        \<or> kind e = CapacityExceeded \<and> pa_free_len s = length (pa_free s)
            \<and> (\<exists>r \<in> set (live_runs s). run_lo r < hull_lo base \<and> hull_hi base len < run_hi r)))"
    (is "?ok \<or> ?err")
proof (cases "len \<noteq> 0 \<and> unat base + unat len + 4095 < 2 ^ 64")
  case False
  then have ?err
    by (cases rule: checked_add_cases [of base len]; cases "align_up (base + len) PAGE_SIZE_4K")
      (auto simp: reserve_range_def checked_add_def align_up_4K unat_add_exact dest: align_up_error split: if_splits)
  then show ?thesis ..
next
  case True
  obtain raw stop where b: "checked_add base len = Some raw" "align_up raw PAGE_SIZE_4K = Inr stop"
    "unat stop = hull_hi base len" "4096 dvd unat stop" "unat (align_down base PAGE_SIZE_4K) = hull_lo base"
    "4096 dvd hull_lo base" "hull_lo base < hull_hi base len"
    using reserve_range_bounds True by metis
  note inv' = alloc_invD [OF inv]
  let ?start = "align_down base PAGE_SIZE_4K" and ?P = "pages_in (hull_lo base) (hull_hi base len)"
  have overlap: "(\<exists>page \<in> set (live_pages s). page < stop \<and> ?start < page + PAGE_SIZE_4K)
      \<longleftrightarrow> alloc_set s \<inter> ?P \<noteq> {}"
    using page_meets [of _ ?start stop] inv'(6) b(3,5,6) by (fastforce simp: alloc_set_def)
  show ?thesis
  proof (cases "alloc_set s \<inter> ?P = {}")
    case False
    then have ?err
      using True b(1,2) overlap by (simp add: reserve_range_def live_pages_def)
    then show ?thesis ..
  next
    case disj: True
    then have eval: "reserve_range s base len =
        (case reserve_check (length (pa_free s)) (pa_free_len s) ?start stop (live_runs s) of
                Inl e \<Rightarrow> (Inl e, s)
              | Inr _ \<Rightarrow>
                 (case reserve_loop ?start stop (pa_free s) (pa_free_len s) 0 of
                    (Inl e, free', len') \<Rightarrow> (Inl e, set_free s (free', len'))
                  | (Inr _, free', len') \<Rightarrow>
                      (let s' = set_free s (free', len')
                       in (Inr (free_pages s - free_pages s'), s'))))"
      using True b(1,2) unfolding reserve_range_def live_pages_def [symmetric] live_runs_def [symmetric]
      by (simp add: overlap Let_def)
    from reserve_check_cases [OF inv'(3), of "length (pa_free s)" "pa_free_len s" ?start stop]
    show ?thesis
    proof (elim disjE exE conjE)
      assume chk: "reserve_check (length (pa_free s)) (pa_free_len s) ?start stop (live_runs s) = Inr ()"
        and room: "\<forall>r \<in> set (live_runs s). run_lo r < unat ?start \<and> unat stop < run_hi r
            \<longrightarrow> pa_free_len s < length (pa_free s)"
      have "reserved (hull_lo base) (hull_hi base len) (free_set s) (length (pa_free s))
          (reserve_loop ?start stop (pa_free s) (pa_free_len s) 0)"
        using reserve_loop_spec [of ?start stop "pa_free_len s" "pa_free s" "[]" "live_runs s"]
          b inv'(1,3) room by (simp add: live_runs_def free_set_def)
      moreover from this obtain a n where
        loop: "reserve_loop ?start stop (pa_free s) (pa_free_len s) 0 = (Inr (), a, n)"
        by (auto simp: reserved_def)
      ultimately have ?ok
        using reserve_commit [OF inv _ refl, of _ _ a n] disj unfolding eval by (simp add: chk Let_def)
      then show ?thesis ..
    qed (use inv'(1) b(3,5) in \<open>simp add: eval\<close>)
  qed
qed


section \<open>Building the allocator from a memory map\<close>

text \<open>The whole pages inside a region, and inside a list of regions.\<close>

definition whole_pages :: "memory_region \<Rightarrow> nat set" where
  "whole_pages r = {p. 4096 dvd p \<and> region_lo r \<le> p \<and> p + 4096 \<le> region_hi r}"

lemma whole_pages_hull:
  "whole_pages r = pages_in ((region_lo r + 4095) div 4096 * 4096) (region_hi r div 4096 * 4096)"
proof -
  have "region_lo r \<le> k * 4096 \<longleftrightarrow> (region_lo r + 4095) div 4096 * 4096 \<le> k * 4096"
    "k * 4096 + 4096 \<le> region_hi r \<longleftrightarrow> k * 4096 < region_hi r div 4096 * 4096" for k
    using div_less_iff_less_mult [of 4096 "region_lo r + 4095" "k + 1"]
      div_less_iff_less_mult [of 4096 "region_hi r" "k + 1"]
    by (auto simp: less_Suc_eq_le not_less)
  then have "4096 dvd p \<Longrightarrow> region_lo r \<le> p \<and> p + 4096 \<le> region_hi r \<longleftrightarrow>
      (region_lo r + 4095) div 4096 * 4096 \<le> p \<and> p < region_hi r div 4096 * 4096" for p
    by (metis dvd_div_mult_self)
  then show ?thesis
    unfolding whole_pages_def pages_in_def by blast
qed

lemma whole_pages_run:
  assumes "region_ok r" "align_up (mr_base r) PAGE_SIZE_4K = Inr start" "memory_region_end r = Inr raw_end"
    and stop: "stop = align_down raw_end PAGE_SIZE_4K"
  shows "stop \<le> start \<Longrightarrow> whole_pages r = {}"
    "\<not> stop \<le> start \<Longrightarrow> run = \<lparr>pr_start = start, pr_count = (stop - start) div PAGE_SIZE_4K\<rparr> \<Longrightarrow>
       run_ok run \<and> run_pages run = whole_pages r"
proof -
  have st: "unat start = (region_lo r + 4095) div 4096 * 4096" and sp: "unat stop = region_hi r div 4096 * 4096"
    using assms by (auto simp: align_up_4K align_down_4K region_lo_def memory_region_end_ok)
  have wp: "whole_pages r = pages_in (unat start) (unat stop)"
    unfolding whole_pages_hull st sp ..
  show "stop \<le> start \<Longrightarrow> whole_pages r = {}"
    unfolding wp pages_in_def by (auto simp: word_le_nat_alt)
  assume lt: "\<not> stop \<le> start" and run: "run = \<lparr>pr_start = start, pr_count = (stop - start) div PAGE_SIZE_4K\<rparr>"
  have "4096 dvd unat stop - unat start"
    by (simp add: st sp dvd_diff_nat)
  then have "run_lo run = unat start" "run_hi run = unat stop"
    using lt unat_pages_between [of start stop]
    by (simp_all add: run run_defs not_le word_less_nat_alt word_le_nat_alt)
  then show "run_ok run \<and> run_pages run = whole_pages r"
    unfolding run_ok_def run_pages_def wp using lt unat_lt_64 [of stop]
    by (simp add: st not_le word_less_nat_alt)
qed

lemma free_step_trans: "free_step s s' F \<Longrightarrow> free_step s' s'' G \<Longrightarrow> free_step s s'' G"
  by (simp add: free_step_def)

lemma add_usable_spec:
  assumes "\<forall>r \<in> set rs. region_ok r" "sorted_wrt (\<lambda>x y. region_hi x \<le> region_lo y) rs"
    "runs_ok (live_runs s)" "pa_free_len s \<le> length (pa_free s)"
    "\<forall>p \<in> free_set s. \<forall>r \<in> set rs. p < region_lo r"
  shows "(\<exists>s'. add_usable s rs = Inr s' \<and> free_step s s' (free_set s \<union> (\<Union>r \<in> set rs. whole_pages r)))
    \<or> (\<exists>e. add_usable s rs = Inl e \<and> (kind e = CapacityExceeded
          \<or> kind e = InvalidAddress \<and> (\<exists>r \<in> set rs. 2 ^ 64 \<le> region_lo r + 4095)))"
  using assms
proof (induction rs arbitrary: s)
  case Nil
  then show ?case by (simp add: free_step_def)
next
  case (Cons r rs)
  then have r: "region_ok r" "\<forall>x \<in> set rs. region_hi r \<le> region_lo x" by simp_all
  show ?case
  proof (cases "align_up (mr_base r) PAGE_SIZE_4K")
    case (Inl e)
    then show ?thesis
      using align_up_error [OF Inl] by (simp add: region_lo_def)
  next
    case (Inr start)
    obtain raw_end where re: "memory_region_end r = Inr raw_end"
      using memory_region_end_exists [OF r(1)] by blast
    define stop where "stop = align_down raw_end PAGE_SIZE_4K"
    note wp = whole_pages_run [OF r(1) Inr re stop_def]
    show ?thesis
    proof (cases "stop \<le> start")
      case True
      then show ?thesis
        using Cons.IH [of s] Cons.prems Inr re wp(1) by (auto simp: stop_def Let_def)
    next
      case False
      define run where "run = \<lparr>pr_start = start, pr_count = (stop - start) div PAGE_SIZE_4K\<rparr>"
      have ok: "run_ok run" and pages: "run_pages run = whole_pages r"
        using wp(2) [OF False run_def] by simp_all
      have disj: "run_pages run \<inter> free_set s = {}"
        unfolding pages whole_pages_def using Cons.prems(5) by fastforce
      have eval: "add_usable s (r # rs) =
          (case insert_free_run s run of (Inl e, _) \<Rightarrow> Inl e | (Inr _, s') \<Rightarrow> add_usable s' rs)"
        using Inr re False by (simp add: stop_def run_def Let_def)
      from insert_free_run_step [OF Cons.prems(3,4) ok disj] show ?thesis
      proof (elim disjE exE conjE)
        fix s' assume t: "insert_free_run s run = (Inr (), s')" "free_step s s' (free_set s \<union> run_pages run)"
        then have "\<forall>p \<in> free_set s'. \<forall>x \<in> set rs. p < region_lo x"
          using Cons.prems(5) r(2) unfolding free_step_def pages whole_pages_def by fastforce
        moreover have "add_usable s (r # rs) = add_usable s' rs"
          using t(1) unfolding eval by simp
        moreover have "free_set s' = free_set s \<union> whole_pages r"
          "runs_ok (live_runs s')" "pa_free_len s' \<le> length (pa_free s')"
          using t(2) unfolding pages by (simp_all add: free_step_def)
        ultimately show ?thesis
          using Cons.IH [of s'] Cons.prems(1,2) free_step_trans [OF t(2)]
          by (auto simp: Un_assoc simp del: add_usable.simps)
      next
        fix e assume "insert_free_run s run = (Inl e, s)" "kind e = CapacityExceeded"
        then show ?thesis unfolding eval by simp
      qed
    qed
  qed
qed


lemma sorted_wrt_pair: "sorted_wrt P xs \<Longrightarrow> x \<in> set xs \<Longrightarrow> y \<in> set xs \<Longrightarrow> x \<noteq> y \<Longrightarrow> P x y \<or> P y x"
  by (induction xs) auto

lemma usable_page_in_region:
  assumes norm: "normal_regions rs" and cov: "{p ..< p + 4096} \<subseteq> covered Usable rs"
  shows "\<exists>r \<in> set rs. mr_kind r = Usable \<and> region_lo r \<le> p \<and> p + 4096 \<le> region_hi r"
proof -
  obtain r where r: "r \<in> set rs" "mr_kind r = Usable" "region_lo r \<le> p" "p < region_hi r"
    using cov by (force simp: covered_def region_addrs_def)
  have "p + 4096 \<le> region_hi r"
  proof (rule ccontr)
    assume "\<not> p + 4096 \<le> region_hi r"
    with r(4) have "region_hi r \<in> {p ..< p + 4096}" by simp
    with cov have "region_hi r \<in> covered Usable rs" by blast
    then obtain x where x: "x \<in> set rs" "mr_kind x = Usable" "region_lo x \<le> region_hi r" "region_hi r < region_hi x"
      by (auto simp: covered_def region_addrs_def)
    then have "gap r x \<or> gap x r"
      using norm r(1) sorted_wrt_pair [of gap rs r x] by (auto simp: normal_regions_def)
    then show False
      using x r by (auto simp: gap_def)
  qed
  with r show ?thesis by blast
qed

lemma whole_pages_covered:
  assumes "normal_regions (map_regions m)"
  shows "(\<Union>r \<in> set (usable_regions m). whole_pages r)
    = {p. 4096 dvd p \<and> {p ..< p + 4096} \<subseteq> covered Usable (map_regions m)}"
proof (intro equalityI subsetI)
  fix p assume "p \<in> (\<Union>r \<in> set (usable_regions m). whole_pages r)"
  then show "p \<in> {p. 4096 dvd p \<and> {p ..< p + 4096} \<subseteq> covered Usable (map_regions m)}"
    by (fastforce simp: whole_pages_def usable_regions_def covered_def region_addrs_def)
next
  fix p assume "p \<in> {p. 4096 dvd p \<and> {p ..< p + 4096} \<subseteq> covered Usable (map_regions m)}"
  then show "p \<in> (\<Union>r \<in> set (usable_regions m). whole_pages r)"
    using usable_page_in_region [OF assms] by (fastforce simp: whole_pages_def usable_regions_def)
qed


lemma from_memory_map_spec:
  assumes norm: "normal_regions (map_regions m)"
  shows "(\<exists>s. from_memory_map r a m = Inr s \<and> alloc_inv s \<and> alloc_set s = {}
       \<and> length (pa_free s) = r \<and> length (pa_allocated s) = a
       \<and> free_set s = {p. 4096 dvd p \<and> {p ..< p + 4096} \<subseteq> covered Usable (map_regions m)})
    \<or> (\<exists>e. from_memory_map r a m = Inl e \<and> (kind e = CapacityExceeded
       \<or> kind e = InvalidAddress \<and> (\<exists>x \<in> set (usable_regions m). 2 ^ 64 \<le> region_lo x + 4095)))"
proof -
  define s0 where "s0 = \<lparr>pa_free = replicate r page_run_empty, pa_free_len = 0,
        pa_allocated = replicate a 0, pa_allocated_len = 0\<rparr>"
  have s0: "runs_ok (live_runs s0)" "pa_free_len s0 \<le> length (pa_free s0)" "free_set s0 = {}"
    by (simp_all add: s0_def live_runs_def free_set_def)
  have "sorted_wrt (\<lambda>x y. region_hi x \<le> region_lo y) (map_regions m)"
    by (rule sorted_wrt_mono_rel [of _ gap]) (use norm in \<open>auto simp: normal_regions_def gap_def\<close>)
  then have "\<forall>x \<in> set (usable_regions m). region_ok x"
    "sorted_wrt (\<lambda>x y. region_hi x \<le> region_lo y) (usable_regions m)"
    using norm by (auto simp: normal_regions_def usable_regions_def sorted_wrt_filter)
  from add_usable_spec [OF this s0(1,2)] s0(3)
  have "(\<exists>s. from_memory_map r a m = Inr s
         \<and> free_step s0 s {p. 4096 dvd p \<and> {p ..< p + 4096} \<subseteq> covered Usable (map_regions m)})
    \<or> (\<exists>e. from_memory_map r a m = Inl e \<and> (kind e = CapacityExceeded
       \<or> kind e = InvalidAddress \<and> (\<exists>x \<in> set (usable_regions m). 2 ^ 64 \<le> region_lo x + 4095)))"
    unfolding whole_pages_covered [OF norm, symmetric] from_memory_map_def s0_def [symmetric] by simp
  moreover have "alloc_inv s \<and> alloc_set s = {} \<and> length (pa_free s) = r \<and> length (pa_allocated s) = a
      \<and> free_set s = F"
    if "free_step s0 s F" for s F
    using that by (simp add: free_step_def s0_def alloc_inv_def alloc_set_def live_pages_def)
  ultimately show ?thesis
    by blast
qed

end
