(* ===== verification/Page_Ledger.thy ===== *)
theory Page_Ledger
  imports Page_Allocator_Correct
begin

text \<open>
  The contract of the page allocator as an interface: a ledger of free and used pages with a
  request and a release operation. Client programs are sequences of requests and releases; what
  they can rely on is proved once from the contract and then read off for the allocator of
  \<open>allocator.rs\<close>. The theory ends with the properties of the allocator.
\<close>

section \<open>The interface\<close>

text \<open>A client program: requests under a constraint and releases of a page.\<close>

datatype ('c, 'p) ledger_op = Request 'c | Release 'p

fun ledger_step ::
  "('s \<Rightarrow> 'c \<Rightarrow> ('e + 'p) \<times> 's) \<Rightarrow> ('s \<Rightarrow> 'p \<Rightarrow> ('e + unit) \<times> 's) \<Rightarrow> 's
     \<Rightarrow> ('c, 'p) ledger_op \<Rightarrow> ('e + 'p option) \<times> 's" where
  "ledger_step req rel s (Request c) =
     (case req s c of (Inl e, s') \<Rightarrow> (Inl e, s') | (Inr p, s') \<Rightarrow> (Inr (Some p), s'))"
| "ledger_step req rel s (Release p) =
     (case rel s p of (Inl e, s') \<Rightarrow> (Inl e, s') | (Inr _, s') \<Rightarrow> (Inr None, s'))"

fun run_ledger ::
  "('s \<Rightarrow> 'c \<Rightarrow> ('e + 'p) \<times> 's) \<Rightarrow> ('s \<Rightarrow> 'p \<Rightarrow> ('e + unit) \<times> 's) \<Rightarrow> 's
     \<Rightarrow> ('c, 'p) ledger_op list \<Rightarrow> ('e + 'p option) list \<times> 's" where
  "run_ledger req rel s [] = ([], s)"
| "run_ledger req rel s (op # ops) =
     (case ledger_step req rel s op of (out, s') \<Rightarrow>
      case run_ledger req rel s' ops of (outs, s'') \<Rightarrow> (out # outs, s''))"

text \<open>The pages that a list of outcomes hands to the client.\<close>

definition handed_out :: "('p \<Rightarrow> nat) \<Rightarrow> ('e + 'p option) list \<Rightarrow> nat list" where
  "handed_out page outs = concat (map (\<lambda>out. case out of Inr (Some p) \<Rightarrow> [page p] | _ \<Rightarrow> []) outs)"

lemma handed_out_simps [simp]:
  "handed_out page [] = []"
  "handed_out page (Inl e # outs) = handed_out page outs"
  "handed_out page (Inr None # outs) = handed_out page outs"
  "handed_out page (Inr (Some p) # outs) = page p # handed_out page outs"
  by (simp_all add: handed_out_def)

locale page_ledger =
  fixes inv :: "'s \<Rightarrow> bool" and free used :: "'s \<Rightarrow> nat set" and page :: "'p \<Rightarrow> nat"
    and admits :: "'c \<Rightarrow> nat set \<Rightarrow> nat set"
    and req :: "'s \<Rightarrow> 'c \<Rightarrow> ('e + 'p) \<times> 's" and rel :: "'s \<Rightarrow> 'p \<Rightarrow> ('e + unit) \<times> 's"
  assumes disjoint: "inv s \<Longrightarrow> free s \<inter> used s = {}"
    and admitted: "admits c F \<subseteq> F"
    and req_ok: "inv s \<Longrightarrow> req s c = (Inr p, s') \<Longrightarrow> inv s' \<and> page p \<in> admits c (free s)
      \<and> free s' = free s - {page p} \<and> used s' = insert (page p) (used s)"
    and req_err: "inv s \<Longrightarrow> req s c = (Inl e, s') \<Longrightarrow> s' = s"
    and rel_ok: "inv s \<Longrightarrow> rel s p = (Inr u, s') \<Longrightarrow> inv s' \<and> page p \<in> used s
      \<and> free s' = insert (page p) (free s) \<and> used s' = used s - {page p}"
    and rel_err: "inv s \<Longrightarrow> rel s p = (Inl e, s') \<Longrightarrow> s' = s"
begin

lemma request_conserves:
  assumes "inv s" "ledger_step req rel s (Request c) = (out, s')"
  shows "inv s' \<and> free s' \<union> used s' = free s \<union> used s"
proof (cases "req s c")
  case (Pair r s1)
  then show ?thesis
    using assms req_ok [OF assms(1), of c _ s1] req_err [OF assms(1), of c _ s1] admitted [of c "free s"]
    by (cases r) auto
qed

lemma release_conserves:
  assumes "inv s" "ledger_step req rel s (Release p) = (out, s')"
  shows "inv s' \<and> free s' \<union> used s' = free s \<union> used s"
proof (cases "rel s p")
  case (Pair r s1)
  then show ?thesis
    using assms rel_ok [OF assms(1), of p _ s1] rel_err [OF assms(1), of p _ s1]
    by (cases r) auto
qed

text \<open>Every program keeps the invariant, and pages are neither lost nor created.\<close>

lemma run_conserves:
  assumes "inv s" "run_ledger req rel s ops = (outs, s')"
  shows "inv s' \<and> free s' \<union> used s' = free s \<union> used s \<and> free s' \<inter> used s' = {}"
  using assms
proof (induction ops arbitrary: s outs)
  case Nil
  then show ?case using disjoint by simp
next
  case (Cons op ops)
  obtain out s1 where step: "ledger_step req rel s op = (out, s1)"
    by (rule prod.exhaust)
  then have "inv s1" "free s1 \<union> used s1 = free s \<union> used s"
    using request_conserves [OF Cons.prems(1)] release_conserves [OF Cons.prems(1)] by (cases op; blast)+
  moreover obtain outs1 where "run_ledger req rel s1 ops = (outs1, s')"
    using Cons.prems(2) step by (auto split: prod.splits)
  ultimately show ?case
    using Cons.IH [of s1 outs1] by simp
qed

text \<open>A program of requests never receives a page twice, nor one that was already in use.\<close>

lemma requests_distinct:
  assumes "inv s" "run_ledger req rel s (map Request cs) = (outs, s')"
  shows "distinct (handed_out page outs) \<and> set (handed_out page outs) \<subseteq> free s
    \<and> used s' = used s \<union> set (handed_out page outs)"
  using assms
proof (induction cs arbitrary: s outs)
  case Nil
  then show ?case by simp
next
  case (Cons c cs)
  obtain r s1 where r: "req s c = (r, s1)" by (rule prod.exhaust)
  obtain outs1 where rest: "run_ledger req rel s1 (map Request cs) = (outs1, s')"
    and outs: "outs = (case r of Inl e \<Rightarrow> Inl e | Inr p \<Rightarrow> Inr (Some p)) # outs1"
    using Cons.prems(2) r by (auto split: sum.splits prod.splits)
  show ?case
  proof (cases r)
    case (Inl e)
    then show ?thesis
      using Cons.IH [OF Cons.prems(1), of outs1] req_err [OF Cons.prems(1), of c e s1] r rest outs by simp
  next
    case (Inr p)
    then have s1: "inv s1" "page p \<in> free s" "free s1 = free s - {page p}" "used s1 = insert (page p) (used s)"
      using req_ok [OF Cons.prems(1), of c p s1] r admitted by auto
    from Cons.IH [OF s1(1) rest] show ?thesis
      using s1 Inr outs by auto
  qed
qed

text \<open>A released page cannot be released again.\<close>

lemma double_release:
  assumes "inv s" "rel s p = (Inr u, s')"
  shows "\<exists>e. rel s' p = (Inl e, s')"
proof -
  have s': "inv s'" "page p \<notin> used s'"
    using rel_ok [OF assms] by auto
  obtain r s'' where "rel s' p = (r, s'')" by (rule prod.exhaust)
  then show ?thesis
    using rel_ok [OF s'(1), of p _ s''] rel_err [OF s'(1), of p _ s''] s'(2) by (cases r) auto
qed

end

interpretation pl: page_ledger alloc_inv free_set alloc_set "\<lambda>p. unat (hpa_get p)" eligible
  allocate_within free_page
proof
  show "free_set s \<inter> alloc_set s = {}" if "alloc_inv s" for s
    using that alloc_invD(5) by blast
  show "eligible c F \<subseteq> F" for c F
    by (auto simp: eligible_def)
  fix s c p s' e u assume inv: "alloc_inv s"
  show "allocate_within s c = (Inr p, s') \<Longrightarrow> alloc_inv s' \<and> unat (hpa_get p) \<in> eligible c (free_set s)
      \<and> free_set s' = free_set s - {unat (hpa_get p)}
      \<and> alloc_set s' = insert (unat (hpa_get p)) (alloc_set s)"
    using allocate_within_spec [OF inv, of c] by auto
  show "allocate_within s c = (Inl e, s') \<Longrightarrow> s' = s"
    using allocate_within_spec [OF inv, of c] by auto
  show "free_page s p = (Inr u, s') \<Longrightarrow> alloc_inv s' \<and> unat (hpa_get p) \<in> alloc_set s
      \<and> free_set s' = insert (unat (hpa_get p)) (free_set s)
      \<and> alloc_set s' = alloc_set s - {unat (hpa_get p)}"
    using free_page_spec [OF inv, of "hpa_get p"] by auto
  show "free_page s p = (Inl e, s') \<Longrightarrow> s' = s"
    using free_page_spec [OF inv, of "hpa_get p"] by auto
qed


section \<open>Freeing what was just allocated\<close>

lemma free_after_allocate:
  assumes inv: "alloc_inv s" and a: "allocate_within s c = (Inr p, s')"
  obtains s'' where "free_page s' p = (Inr (), s'')" "alloc_inv s''"
    "free_set s'' = free_set s" "alloc_set s'' = alloc_set s"
proof -
  obtain x where x: "p = HostPhysical x" "alloc_inv s'" "unat x \<in> free_set s"
    "free_set s' = free_set s - {unat x}" "alloc_set s' = insert (unat x) (alloc_set s)"
    "\<not> next_to (unat x) (free_set s) \<longrightarrow> pa_free_len s' < length (pa_free s')"
    using allocate_within_spec [OF inv, of c] a by (auto simp: eligible_def)
  have "next_to (unat x) (free_set s') = next_to (unat x) (free_set s)"
    by (auto simp: next_to_def x(4))
  then obtain s'' where "free_page s' p = (Inr (), s'')" "alloc_inv s''"
    "free_set s'' = insert (unat x) (free_set s')" "alloc_set s'' = alloc_set s' - {unat x}"
    using free_page_spec [OF x(2), of x] x(1,5,6) by auto
  moreover have "unat x \<notin> alloc_set s"
    using alloc_invD(5) [OF inv] x(3) by auto
  ultimately show thesis
    using that x(3-5) by (auto simp: insert_absorb)
qed

section \<open>A concrete allocator\<close>

definition demo_allocator :: page_allocator where
  "demo_allocator = \<lparr>pa_free = [\<lparr>pr_start = 0x1000, pr_count = 2\<rparr>, page_run_empty, page_run_empty, page_run_empty],
     pa_free_len = 1, pa_allocated = [0, 0, 0, 0], pa_allocated_len = 0\<rparr>"

lemmas allocator_eval = align_up_def align_down_def checked_add_def PAGE_SIZE_4K_def page_run_end_def
  saturating_mul_def insert_free_run_def merge_left_def merge_right_def free_index.simps set_free_def

lemma from_memory_map_demo: "from_memory_map 4 4 demo_map = Inr demo_allocator"
  by (simp add: from_memory_map_def usable_regions_def map_regions_def demo_map_def demo_allocator_def
      memory_region_new_def memory_region_end_def allocator_eval replicate_small shift_right.simps)

lemma demo_normal: "normal_regions (map_regions demo_map)"
  using from_entries_cases [of demo_entries 4] from_entries_demo from_entries_okD [OF from_entries_demo] by auto

lemma demo_inv: "alloc_inv demo_allocator"
  using from_memory_map_spec [OF demo_normal, of 4 4] from_memory_map_demo by auto


definition demo_taken :: page_allocator where
  "demo_taken = \<lparr>pa_free = [\<lparr>pr_start = 0x2000, pr_count = 1\<rparr>, page_run_empty, page_run_empty, page_run_empty],
     pa_free_len = 1, pa_allocated = [0x1000, 0, 0, 0], pa_allocated_len = 1\<rparr>"

lemma allocate_demo: "allocate_within demo_allocator constraint_any = (Inr (HostPhysical 0x1000), demo_taken)"
  by (simp add: allocate_within_def demo_allocator_def demo_taken_def constraint_any_def allocator_eval
      take_page_from_run_def)

lemma free_demo: "free_page demo_taken (HostPhysical 0x1000) = (Inr (), demo_allocator)"
  by (simp add: free_page_def demo_allocator_def demo_taken_def allocator_eval merged_count_def
      remove_allocated_def shift_left.simps)

lemma demo_taken_inv: "alloc_inv demo_taken"
  using pl.req_ok [OF demo_inv allocate_demo] by simp

lemma demo_sets: "free_set demo_allocator = {0x1000, 0x2000}" "alloc_set demo_allocator = {}"
proof -
  have "pages_in 0x1000 0x3000 = {0x1000, 0x2000}"
    using pages_in_split [of "0x1000" "0x2000" "0x3000"] pages_in_single [of "0x1000"] pages_in_single [of "0x2000"] by (simp add: insert_commute)
  then show "free_set demo_allocator = {0x1000, 0x2000}" "alloc_set demo_allocator = {}"
    by (simp_all add: free_set_def alloc_set_def live_runs_def live_pages_def demo_allocator_def run_pages_def run_defs)
qed

section \<open>Properties of the allocator\<close>

text \<open>
  C7. An allocator built from a validated memory map owns, as free pages, exactly the 4 KiB pages
  that lie wholly inside the memory the firmware entries call usable; nothing is allocated, its
  free-run table is well formed, and \<open>free_pages\<close> counts the free pages without wrapping.
\<close>

theorem from_memory_map_owns_usable:
  assumes "from_entries n entries = Inr m" "from_memory_map r a m = Inr s"
  shows "alloc_inv s \<and> alloc_set s = {}
    \<and> free_set s = {p. 4096 dvd p \<and> {p ..< p + 4096} \<subseteq> covered Usable entries}
    \<and> unat (free_pages s) = card (free_set s)"
proof -
  from from_entries_okD [OF assms(1)] have "length entries \<le> n" "\<forall>e \<in> set entries. region_ok e"
    by blast+
  from from_entries_cases [OF this] assms(1)
  have m: "normal_regions (map_regions m)" "covered Usable (map_regions m) = covered Usable entries"
    by auto
  have s: "alloc_inv s" "alloc_set s = {}"
    "free_set s = {p. 4096 dvd p \<and> {p ..< p + 4096} \<subseteq> covered Usable (map_regions m)}"
    using from_memory_map_spec [OF m(1), of r a] assms(2) by auto
  then show ?thesis
    using unat_free_pages [OF alloc_invD(3) [OF s(1)]] unfolding m(2) by blast
qed

theorem from_memory_map_owns_usable_witness:
  "from_entries 4 demo_entries = Inr demo_map \<and> from_memory_map 4 4 demo_map = Inr demo_allocator
    \<and> free_set demo_allocator = {p. 4096 dvd p \<and> {p ..< p + 4096} \<subseteq> covered Usable demo_entries}"
  using from_memory_map_owns_usable [OF from_entries_demo from_memory_map_demo]
    from_entries_demo from_memory_map_demo by blast

text \<open>
  C2. Allocation under a constraint hands out the lowest free page that lies wholly inside the
  constraint, and moves exactly this page from the free to the allocated set. It fails only when
  no free page satisfies the constraint, or when one of the two fixed tables is full, and a
  failure changes nothing.
\<close>

theorem allocate_within_takes_lowest:
  assumes "alloc_inv s"
  shows "case allocate_within s c of
      (Inr page, s') \<Rightarrow>
        alloc_inv s' \<and> unat (hpa_get page) = Min (eligible c (free_set s))
        \<and> unat (hpa_get page) \<in> eligible c (free_set s)
        \<and> free_set s' = free_set s - {unat (hpa_get page)}
        \<and> alloc_set s' = insert (unat (hpa_get page)) (alloc_set s)
    | (Inl e, s') \<Rightarrow> s' = s
        \<and> (kind e \<in> {InvalidAddress, OutOfMemory} \<and> eligible c (free_set s) = {}
           \<or> kind e = CapacityExceeded \<and>
               (pa_allocated_len s = length (pa_allocated s) \<or> pa_free_len s = length (pa_free s)))"
  using allocate_within_spec [OF assms, of c]
proof (elim disjE exE conjE)
  fix p s' assume a: "allocate_within s c = (Inr (HostPhysical p), s')" "alloc_inv s'"
    "unat p \<in> eligible c (free_set s)" "\<forall>q \<in> eligible c (free_set s). unat p \<le> q"
    "free_set s' = free_set s - {unat p}" "alloc_set s' = insert (unat p) (alloc_set s)"
  have "finite (eligible c (free_set s))"
    using finite_subset [OF pl.admitted] by (simp add: free_set_def)
  then have "unat p = Min (eligible c (free_set s))"
    using a(3,4) by (metis Min_eqI)
  then show ?thesis
    using a by simp
qed simp_all

theorem allocate_within_takes_lowest_witness:
  "alloc_inv demo_allocator
    \<and> allocate_within demo_allocator constraint_any = (Inr (HostPhysical 0x1000), demo_taken)
    \<and> 0x1000 = Min (eligible constraint_any (free_set demo_allocator))
    \<and> alloc_set demo_taken = {0x1000}"
  using allocate_within_takes_lowest [OF demo_inv, of constraint_any] demo_inv
  by (simp add: allocate_demo demo_sets(2))

text \<open>
  C16. Freeing succeeds only for a page that is allocated, and then moves exactly this page back to
  the free set. A page that is not allocated, in particular one freed before, is refused with
  \<open>DoubleFree\<close> (with \<open>InvalidAddress\<close> if it is not page aligned); an allocated page is refused
  only when the free-run table is full and neither neighbour of the page is free. A failure
  changes nothing.
\<close>

theorem free_page_outcome:
  assumes "alloc_inv s"
  shows "case free_page s page of
      (Inr _, s') \<Rightarrow>
        unat (hpa_get page) \<in> alloc_set s \<and> alloc_inv s'
        \<and> free_set s' = insert (unat (hpa_get page)) (free_set s)
        \<and> alloc_set s' = alloc_set s - {unat (hpa_get page)}
    | (Inl e, s') \<Rightarrow> s' = s
        \<and> (if unat (hpa_get page) \<in> alloc_set s
            then kind e = CapacityExceeded \<and> pa_free_len s = length (pa_free s)
                 \<and> \<not> next_to (unat (hpa_get page)) (free_set s)
            else kind e = (if 4096 dvd unat (hpa_get page) then DoubleFree else InvalidAddress))"
  using free_page_spec [OF assms, of "hpa_get page"] by (elim disjE exE conjE) simp_all

theorem free_page_outcome_witness:
  "alloc_inv demo_taken \<and> free_page demo_taken (HostPhysical 0x1000) = (Inr (), demo_allocator)
    \<and> 0x1000 \<in> alloc_set demo_taken \<and> alloc_set demo_allocator = alloc_set demo_taken - {0x1000}"
proof -
  have "unat (hpa_get (HostPhysical 0x1000)) = 0x1000"
    by simp
  with free_page_outcome [OF demo_taken_inv, of "HostPhysical 0x1000"] show ?thesis
    by (simp only: free_demo demo_taken_inv prod.case sum.case simp_thms)
qed

text \<open>
  C20. Every allocation can be undone: freeing the page an allocation just returned always
  succeeds, even when the free-run table is full, and restores the free and the allocated set.
\<close>

theorem allocate_free_round_trip:
  assumes "alloc_inv s" "allocate_within s c = (Inr page, s')"
  shows "\<exists>s''. free_page s' page = (Inr (), s'') \<and> alloc_inv s''
    \<and> free_set s'' = free_set s \<and> alloc_set s'' = alloc_set s"
  by (rule free_after_allocate [OF assms]) (intro exI conjI)

theorem allocate_free_round_trip_witness:
  "\<exists>s''. allocate_within demo_allocator constraint_any = (Inr (HostPhysical 0x1000), demo_taken)
    \<and> free_page demo_taken (HostPhysical 0x1000) = (Inr (), s'') \<and> free_set s'' = {0x1000, 0x2000}"
  using allocate_free_round_trip [OF demo_inv allocate_demo] allocate_demo demo_sets(1) by auto

text \<open>
  C34. \<open>allocate_zeroed\<close> is all or nothing, for every zeroer: a page it returns has been zeroed
  successfully and is allocated; on any failure the free and the allocated set are what they were,
  because the rollback cannot fail, and the error reported is the allocator's or the zeroer's own.
\<close>

theorem allocate_zeroed_all_or_nothing:
  assumes "alloc_inv s" "allocate_zeroed zero_page s z = (r, s', z')"
  shows "alloc_inv s' \<and> (case r of
      Inr page \<Rightarrow> fst (zero_page z page) = Inr () \<and> z' = snd (zero_page z page)
        \<and> unat (hpa_get page) \<in> free_set s \<and> free_set s' = free_set s - {unat (hpa_get page)}
        \<and> alloc_set s' = insert (unat (hpa_get page)) (alloc_set s)
    | Inl e \<Rightarrow> free_set s' = free_set s \<and> alloc_set s' = alloc_set s
        \<and> (fst (allocate s) = Inl e \<and> z' = z \<or> (\<exists>page. zero_page z page = (Inl e, z'))))"
proof (cases "allocate s")
  case (Pair ra sa)
  show ?thesis
  proof (cases ra)
    case (Inl e)
    then show ?thesis
      using assms Pair pl.req_err [OF assms(1), of constraint_any e sa]
      by (auto simp: allocate_zeroed_def allocate_def)
  next
    case (Inr page)
    with Pair have a: "allocate_within s constraint_any = (Inr page, sa)"
      by (simp add: allocate_def)
    obtain rz zz where z: "zero_page z page = (rz, zz)"
      by (rule prod.exhaust)
    obtain sb where b: "free_page sa page = (Inr (), sb)" "alloc_inv sb"
      "free_set sb = free_set s" "alloc_set sb = alloc_set s"
      using free_after_allocate [OF assms(1) a] .
    show ?thesis
      using assms(2) Pair Inr z b pl.req_ok [OF assms(1) a] pl.admitted [of constraint_any "free_set s"]
      by (cases rz) (auto simp: allocate_zeroed_def)
  qed
qed

text \<open>A zeroer that refuses every page.\<close>

definition refusing_zeroer :: "unit \<Rightarrow> host_physical \<Rightarrow> unit core_result \<times> unit" where
  "refusing_zeroer z page = (Inl (CoreError Unsupported ''no zeroing''), ())"

lemma allocate_zeroed_demo:
  "allocate_zeroed refusing_zeroer demo_allocator ()
     = (Inl (CoreError Unsupported ''no zeroing''), demo_allocator, ())"
  by (simp add: allocate_zeroed_def allocate_def allocate_demo free_demo refusing_zeroer_def)

theorem allocate_zeroed_all_or_nothing_witness:
  "allocate_zeroed refusing_zeroer demo_allocator ()
     = (Inl (CoreError Unsupported ''no zeroing''), demo_allocator, ()) \<and> alloc_inv demo_allocator"
  using allocate_zeroed_all_or_nothing [OF demo_inv allocate_zeroed_demo] allocate_zeroed_demo by simp

text \<open>
  C33. Reserving a byte range withdraws exactly the free pages that the range touches and returns
  their number. It refuses an empty range or one that overflows, a range that touches an
  allocated page, and a range strictly inside one free run when the table has no room to split
  it; a refusal changes nothing.
\<close>

theorem reserve_range_outcome:
  assumes "alloc_inv s"
  shows "case reserve_range s base len of
      (Inr n, s') \<Rightarrow>
        alloc_inv s' \<and> alloc_set s' = alloc_set s
        \<and> alloc_set s \<inter> pages_in (hull_lo base) (hull_hi base len) = {}
        \<and> free_set s' = free_set s - pages_in (hull_lo base) (hull_hi base len)
        \<and> unat n = card (free_set s \<inter> pages_in (hull_lo base) (hull_hi base len))
    | (Inl e, s') \<Rightarrow> s' = s
        \<and> (kind e = InvalidAddress \<and> (len = 0 \<or> 2 ^ 64 \<le> unat base + unat len + 4095)
           \<or> kind e = Overlap \<and> alloc_set s \<inter> pages_in (hull_lo base) (hull_hi base len) \<noteq> {}
           \<or> kind e = CapacityExceeded \<and> pa_free_len s = length (pa_free s)
               \<and> (\<exists>r \<in> set (live_runs s). run_lo r < hull_lo base \<and> hull_hi base len < run_hi r))"
  using reserve_range_spec [OF assms, of base len]
proof (elim disjE exE)
  fix n s' assume "reserve_range s base len = (Inr n, s') \<and> alloc_inv s'
       \<and> alloc_set s \<inter> pages_in (hull_lo base) (hull_hi base len) = {}
       \<and> free_set s' = free_set s - pages_in (hull_lo base) (hull_hi base len)
       \<and> alloc_set s' = alloc_set s
       \<and> unat n = card (free_set s \<inter> pages_in (hull_lo base) (hull_hi base len))"
  then show ?thesis by (elim conjE) simp
next
  fix e assume e: "reserve_range s base len = (Inl e, s)
       \<and> (kind e = InvalidAddress \<and> (len = 0 \<or> 2 ^ 64 \<le> unat base + unat len + 4095)
        \<or> kind e = Overlap \<and> alloc_set s \<inter> pages_in (hull_lo base) (hull_hi base len) \<noteq> {}
        \<or> kind e = CapacityExceeded \<and> pa_free_len s = length (pa_free s)
            \<and> (\<exists>r \<in> set (live_runs s). run_lo r < hull_lo base \<and> hull_hi base len < run_hi r))"
  then show ?thesis by (simp only: prod.case sum.case simp_thms)
qed

theorem reserve_range_outcome_witness:
  "alloc_inv demo_allocator
    \<and> reserve_range demo_allocator 0x1800 0x10 = (Inr 1, demo_allocator\<lparr>pa_free :=
         [\<lparr>pr_start = 0x2000, pr_count = 1\<rparr>, page_run_empty, page_run_empty, page_run_empty]\<rparr>)
    \<and> unat (1 :: u64) = card (free_set demo_allocator \<inter> pages_in (hull_lo 0x1800) (hull_hi 0x1800 0x10))"
proof -
  have "reserve_range demo_allocator 0x1800 0x10 = (Inr 1, demo_allocator\<lparr>pa_free :=
         [\<lparr>pr_start = 0x2000, pr_count = 1\<rparr>, page_run_empty, page_run_empty, page_run_empty]\<rparr>)"
    by (simp add: reserve_range_def demo_allocator_def allocator_eval reserve_loop.simps free_pages_def)
  then show ?thesis
    using reserve_range_outcome [OF demo_inv, of "0x10" "0x1800"] demo_inv by simp
qed

text \<open>
  C4. Over any sequence of constrained allocations and frees, whatever their results, the
  invariant holds and no page is lost or invented: the free and the allocated pages stay disjoint
  and together are the pages the allocator started with.
\<close>

theorem allocator_conserves_pages:
  assumes "alloc_inv s" "run_ledger allocate_within free_page s ops = (outs, s')"
  shows "alloc_inv s' \<and> free_set s' \<union> alloc_set s' = free_set s \<union> alloc_set s
    \<and> free_set s' \<inter> alloc_set s' = {}"
  by (rule pl.run_conserves [OF assms])

lemma run_ledger_demo:
  "run_ledger allocate_within free_page demo_allocator [Request constraint_any, Release (HostPhysical 0x1000)]
     = ([Inr (Some (HostPhysical 0x1000)), Inr None], demo_allocator)"
  by (simp add: allocate_demo free_demo)

theorem allocator_conserves_pages_witness:
  "run_ledger allocate_within free_page demo_allocator [Request constraint_any, Release (HostPhysical 0x1000)]
     = ([Inr (Some (HostPhysical 0x1000)), Inr None], demo_allocator)
    \<and> free_set demo_allocator \<inter> alloc_set demo_allocator = {}"
  using allocator_conserves_pages [OF demo_inv run_ledger_demo] run_ledger_demo by blast

text \<open>
  No page is handed out twice: the pages that any sequence of constrained allocations returns
  are pairwise distinct and were free before.
\<close>

theorem allocations_are_distinct:
  assumes "alloc_inv s" "run_ledger allocate_within free_page s (map Request cs) = (outs, s')"
  shows "distinct (handed_out (\<lambda>p. unat (hpa_get p)) outs)
    \<and> set (handed_out (\<lambda>p. unat (hpa_get p)) outs) \<subseteq> free_set s
    \<and> alloc_set s' = alloc_set s \<union> set (handed_out (\<lambda>p. unat (hpa_get p)) outs)"
  by (rule pl.requests_distinct [OF assms])

lemma requests_demo:
  "run_ledger allocate_within free_page demo_allocator (map Request [constraint_any])
     = ([Inr (Some (HostPhysical 0x1000))], demo_taken)"
  by (simp add: allocate_demo)

theorem allocations_are_distinct_witness:
  "run_ledger allocate_within free_page demo_allocator (map Request [constraint_any])
     = ([Inr (Some (HostPhysical 0x1000))], demo_taken) \<and> alloc_set demo_taken = {0x1000}"
  using allocations_are_distinct [OF demo_inv requests_demo] requests_demo demo_sets(2) by simp

end
