(* ===== verification/Bounded_Queue.thy ===== *)
theory Bounded_Queue
  imports Core_Ids "HOL-Library.Sublist"
begin

text \<open>
  Ring buffers and the queue interface. Four components keep a queue in a fixed array with a
  \<open>head\<close> and a \<open>len\<close>: the event and the command ring of \<open>abi.rs\<close>, the run queue of
  \<open>scheduler.rs\<close> and the console queue of \<open>console.rs\<close>. The first section has the index arithmetic they share; the second is the
  contract of a queue that may drop its oldest items and of a first-in first-out queue, with what
  their clients can rely on.
\<close>

section \<open>Index arithmetic of a ring\<close>

definition ring_items :: "'a list \<Rightarrow> nat \<Rightarrow> nat \<Rightarrow> 'a list" where
  "ring_items buf head len = map (\<lambda>i. buf ! ((head + i) mod length buf)) [0..<len]"

definition ring_ok :: "'a list \<Rightarrow> nat \<Rightarrow> nat \<Rightarrow> bool" where
  "ring_ok buf head len \<longleftrightarrow> len \<le> length buf \<and> (buf \<noteq> [] \<longrightarrow> head < length buf)"

lemma length_ring_items [simp]: "length (ring_items buf head len) = len"
  by (simp add: ring_items_def)

lemma ring_items_0 [simp]: "ring_items buf head 0 = []"
  by (simp add: ring_items_def)

lemma ring_index_inj:
  fixes n :: nat
  assumes "(h + i) mod n = (h + j) mod n" "i < n" "j < n"
  shows "i = j"
  using assms
proof (induction i j rule: linorder_wlog)
  case (le i j)
  then have "n dvd (h + j) - (h + i)"
    by (metis add_le_cancel_left mod_eq_dvd_iff_nat)
  with le show ?case
    using nat_dvd_not_less [of "j - i" n] by (cases "i = j") auto
next
  case (sym i j)
  then show ?case by simp
qed

lemma ring_items_push:
  assumes "len < length buf"
  shows "ring_items (buf[(head + len) mod length buf := x]) head (Suc len) = ring_items buf head len @ [x]"
proof -
  have "(head + len) mod length buf \<noteq> (head + i) mod length buf" if "i < len" for i
    using ring_index_inj [of head i "length buf" len] that assms by auto
  moreover have "(head + len) mod length buf < length buf"
    using assms by (intro mod_less_divisor) linarith
  ultimately show ?thesis
    by (auto simp: ring_items_def)
qed

lemma ring_items_pop:
  assumes "0 < len" "ring_ok buf head len"
  shows "ring_items buf head len = buf ! head # ring_items buf ((head + 1) mod length buf) (len - 1)"
proof -
  obtain k where len: "len = Suc k"
    using assms(1) by (cases len) auto
  have head: "head mod length buf = head"
    using assms len by (auto simp: ring_ok_def)
  have "(head + Suc i) mod length buf = ((head + 1) mod length buf + i) mod length buf" for i
    by (simp add: mod_add_left_eq)
  then show ?thesis
    unfolding ring_items_def len upt_conv_Cons [OF zero_less_Suc] list.map map_Suc_upt [symmetric] map_map
    by (simp add: head)
qed

lemma ring_ok_push: "ring_ok buf head len \<Longrightarrow> len < length buf \<Longrightarrow> ring_ok (buf[i := x]) head (Suc len)"
  by (simp add: ring_ok_def)

lemma ring_ok_pop: "ring_ok buf head len \<Longrightarrow> ring_ok buf ((head + 1) mod length buf) (len - 1)"
  by (auto simp: ring_ok_def)

text \<open>Overwriting the oldest slot of a full ring drops the oldest item and appends the new one.\<close>

lemma ring_items_overwrite:
  assumes "buf \<noteq> []" "ring_ok buf head (length buf)"
  shows "ring_items (buf[head := x]) ((head + 1) mod length buf) (length buf)
    = tl (ring_items buf head (length buf)) @ [x]"
proof -
  let ?n = "length buf" and ?h = "(head + 1) mod length buf"
  have n: "0 < ?n" "head < ?n"
    using assms by (auto simp: ring_ok_def)
  have "(?h + (?n - 1)) mod ?n = (head + 1 + (?n - 1)) mod ?n"
    by (rule mod_add_left_eq)
  also have "head + 1 + (?n - 1) = head + ?n"
    using n by linarith
  finally have last: "(?h + (?n - 1)) mod ?n = head"
    using n by simp
  have "ring_items (buf[(?h + (?n - 1)) mod ?n := x]) ?h (Suc (?n - 1)) = ring_items buf ?h (?n - 1) @ [x]"
    by (rule ring_items_push) (use n in linarith)
  then have "ring_items (buf[head := x]) ?h (Suc (?n - 1)) = ring_items buf ?h (?n - 1) @ [x]"
    unfolding last .
  moreover have "ring_items buf ?h (?n - 1) = tl (ring_items buf head ?n)"
    using ring_items_pop [of ?n buf head] assms n by simp
  ultimately show ?thesis
    using n by simp
qed

lemma ring_items_new [simp]: "ring_ok (replicate n x) 0 0"
  by (simp add: ring_ok_def)

section \<open>The queue interface\<close>

datatype 'i queue_op = Enqueue 'i | Dequeue

text \<open>
  Running a client program on a queue; the result lists the accepted and the delivered items.
\<close>

fun run_queue ::
  "('s \<Rightarrow> 'i \<Rightarrow> ('e + 'a) \<times> 's) \<Rightarrow> ('s \<Rightarrow> 'a option \<times> 's) \<Rightarrow> 's \<Rightarrow> 'i queue_op list
     \<Rightarrow> 'a list \<times> 'a list \<times> 's" where
  "run_queue enq deq s [] = ([], [], s)"
| "run_queue enq deq s (Enqueue i # ops) =
     (case enq s i of
        (Inl e, s') \<Rightarrow> run_queue enq deq s' ops
      | (Inr a, s') \<Rightarrow> (case run_queue enq deq s' ops of (ins, outs, s'') \<Rightarrow> (a # ins, outs, s'')))"
| "run_queue enq deq s (Dequeue # ops) =
     (case deq s of
        (None, s') \<Rightarrow> run_queue enq deq s' ops
      | (Some a, s') \<Rightarrow> (case run_queue enq deq s' ops of (ins, outs, s'') \<Rightarrow> (ins, a # outs, s'')))"

text \<open>
  The account of a run: what is delivered, followed by what is still in the queue, is in order and
  without repetition a part of what was in the queue followed by what was accepted, and \<open>lost\<close>
  counts exactly the missing items.
\<close>

definition accounts ::
  "('s \<Rightarrow> bool) \<Rightarrow> ('s \<Rightarrow> 'a list) \<Rightarrow> ('s \<Rightarrow> nat) \<Rightarrow> 's \<Rightarrow> 'a list \<Rightarrow> 'a list \<Rightarrow> 's \<Rightarrow> bool" where
  "accounts ok items lost s ins outs s' \<longleftrightarrow> ok s' \<and> subseq (outs @ items s') (items s @ ins)
     \<and> length (items s @ ins) + lost s = length (outs @ items s') + lost s'"

locale queue_consumer =
  fixes inv :: "'s \<Rightarrow> bool" and items :: "'s \<Rightarrow> 'a list" and deq :: "'s \<Rightarrow> 'a option \<times> 's"
  assumes deq_empty: "inv s \<Longrightarrow> items s = [] \<Longrightarrow> deq s = (None, s)"
    and deq_cons: "inv s \<Longrightarrow> items s = a # as \<Longrightarrow> \<exists>s'. deq s = (Some a, s') \<and> inv s' \<and> items s' = as"

text \<open>A queue whose producer may push out the oldest items, and counts them in \<open>lost\<close>.\<close>

locale lossy_queue = queue_consumer inv items deq
  for inv :: "'s \<Rightarrow> bool" and items :: "'s \<Rightarrow> 'a list" and deq :: "'s \<Rightarrow> 'a option \<times> 's" +
  fixes enq :: "'s \<Rightarrow> 'i \<Rightarrow> ('e + 'a) \<times> 's" and lost :: "'s \<Rightarrow> nat"
  assumes enq_drop: "inv s \<Longrightarrow> enq s i = (Inr a, s') \<Longrightarrow> inv s' \<and>
      (\<exists>k \<le> length (items s). items s' = drop k (items s) @ [a] \<and> lost s' = lost s + k)"
    and enq_err: "inv s \<Longrightarrow> enq s i = (Inl e, s') \<Longrightarrow> s' = s"
    and deq_lost: "inv s \<Longrightarrow> deq s = (r, s') \<Longrightarrow> lost s' = lost s"
begin

lemma accounts_enq:
  assumes "inv s" "enq s i = (Inr a, s1)" "accounts inv items lost s1 ins outs s'"
  shows "accounts inv items lost s (a # ins) outs s'"
proof -
  obtain k where k: "k \<le> length (items s)" "items s1 = drop k (items s) @ [a]" "lost s1 = lost s + k"
    using enq_drop [OF assms(1,2)] by blast
  have "subseq (items s1 @ ins) (items s @ a # ins)"
    using list_emb_append_mono [OF suffix_imp_subseq [OF suffix_drop [of k "items s"]] subseq_order.order_refl, of "a # ins"]
    by (simp add: k(2))
  then have "subseq (outs @ items s') (items s @ a # ins)"
    using assms(3) subseq_order.order_trans unfolding accounts_def by blast
  then show ?thesis
    using assms(3) k by (simp add: accounts_def)
qed

lemma accounts_deq:
  assumes "inv s" "items s = a # as" "deq s = (Some a, s1)" "items s1 = as" "accounts inv items lost s1 ins outs s'"
  shows "accounts inv items lost s ins (a # outs) s'"
  using assms(2,4,5) deq_lost [OF assms(1,3)] by (simp add: accounts_def)

lemma run_accounts:
  assumes "inv s" "run_queue enq deq s ops = (ins, outs, s')"
  shows "accounts inv items lost s ins outs s'"
  using assms
proof (induction ops arbitrary: s ins outs)
  case Nil
  then show ?case by (simp add: accounts_def)
next
  case (Cons op ops)
  show ?case
  proof (cases op)
    case (Enqueue i)
    obtain r s1 where r: "enq s i = (r, s1)" by (rule prod.exhaust)
    show ?thesis
    proof (cases r)
      case (Inl e)
      then show ?thesis
        using Cons.IH [of s ins outs] Cons.prems Enqueue r enq_err [OF Cons.prems(1), of i e s1] by simp
    next
      case (Inr a)
      then obtain ins1 where "run_queue enq deq s1 ops = (ins1, outs, s')" "ins = a # ins1"
        using Cons.prems(2) Enqueue r by (auto split: prod.splits)
      then show ?thesis
        using Cons.IH [of s1] enq_drop [OF Cons.prems(1)] accounts_enq [OF Cons.prems(1)] r Inr by blast
    qed
  next
    case Dequeue
    show ?thesis
    proof (cases "items s")
      case empty: Nil
      then show ?thesis
        using Cons.IH [of s ins outs] Cons.prems Dequeue deq_empty [OF Cons.prems(1)] by simp
    next
      case queue: (Cons a as)
      then obtain s1 where s1: "deq s = (Some a, s1)" "inv s1" "items s1 = as"
        using deq_cons Cons.prems(1) by blast
      then obtain outs1 where "run_queue enq deq s1 ops = (ins, outs1, s')" "outs = a # outs1"
        using Cons.prems(2) Dequeue by (auto split: prod.splits)
      then show ?thesis
        using Cons.IH [of s1] accounts_deq [OF Cons.prems(1) queue s1(1,3)] s1(2) by blast
    qed
  qed
qed

lemma lossy:
  assumes "inv s" "run_queue enq deq s ops = (ins, outs, s')"
  shows "inv s' \<and> subseq (outs @ items s') (items s @ ins)
    \<and> length (items s @ ins) + lost s = length (outs @ items s') + lost s'"
  using run_accounts [OF assms] by (simp add: accounts_def)

end

text \<open>A queue that refuses instead of dropping.\<close>

locale fifo_queue = queue_consumer inv items deq
  for inv :: "'s \<Rightarrow> bool" and items :: "'s \<Rightarrow> 'a list" and deq :: "'s \<Rightarrow> 'a option \<times> 's" +
  fixes enq :: "'s \<Rightarrow> 'i \<Rightarrow> ('e + 'a) \<times> 's"
  assumes enq_ok: "inv s \<Longrightarrow> enq s i = (Inr a, s') \<Longrightarrow> inv s' \<and> items s' = items s @ [a]"
    and refused: "inv s \<Longrightarrow> enq s i = (Inl e, s') \<Longrightarrow> s' = s"

sublocale fifo_queue \<subseteq> lossless: lossy_queue inv items deq enq "\<lambda>_. 0"
  by unfold_locales (use enq_ok refused in \<open>auto intro!: exI [of _ 0]\<close>)

context fifo_queue
begin

text \<open>
  First in, first out, for every interleaving of producer and consumer: what was in the queue
  followed by what was accepted is what was delivered followed by what is still in the queue.
\<close>

lemma fifo:
  assumes "inv s" "run_queue enq deq s ops = (ins, outs, s')"
  shows "inv s' \<and> items s @ ins = outs @ items s'"
  using lossless.lossy [OF assms] by (auto dest: subseq_same_length)

end

end
