(* ===== verification/Abi_Rings.thy ===== *)
theory Abi_Rings
  imports Bounded_Queue
begin

text \<open>
  The event and command rings of \<open>crates/aegishv-hypervisor-core/src/abi.rs\<close>. The event ring
  overwrites its oldest record when full and counts what it dropped; the command ring refuses.
  Both number their records. The interpretations show that the command ring is a first-in
  first-out queue and the event ring a queue that accounts for every record it drops.
\<close>

section \<open>Types\<close>

definition CORE_ABI_VERSION :: u16 where
  "CORE_ABI_VERSION = 1"

datatype memory_order = Relaxed | Acquire | Release_order | AcqRel

record ring_memory_contract =
  producer_publish :: memory_order
  consumer_observe :: memory_order

abbreviation RING_MEMORY_CONTRACT :: ring_memory_contract where
  "RING_MEMORY_CONTRACT \<equiv> \<lparr>producer_publish = Release_order, consumer_observe = Acquire\<rparr>"

datatype event_kind = Ev_Boot | Ev_Crash | Ev_VmState | Ev_VcpuState | Ev_Trap | Ev_Loss

record event_record =
  ev_abi_version :: u16
  ev_sequence :: u64
  ev_kind :: event_kind
  ev_vm_id :: "vm_id option"
  ev_vcpu_id :: "vcpu_id option"
  ev_arg0 :: u64
  ev_arg1 :: u64

definition event_record_empty :: event_record where
  "event_record_empty =
     \<lparr>ev_abi_version = CORE_ABI_VERSION, ev_sequence = 0, ev_kind = Ev_Boot, ev_vm_id = None,
      ev_vcpu_id = None, ev_arg0 = 0, ev_arg1 = 0\<rparr>"

record event_ring =
  er_entries :: "event_record list"
  er_head :: nat
  er_len :: nat
  er_next_sequence :: u64
  er_dropped :: u64

section \<open>The event ring\<close>

definition event_ring_new :: "nat \<Rightarrow> event_ring" where
  "event_ring_new n =
     \<lparr>er_entries = replicate n event_record_empty, er_head = 0, er_len = 0,
      er_next_sequence = 1, er_dropped = 0\<rparr>"

abbreviation event_ring_is_empty :: "event_ring \<Rightarrow> bool" where
  "event_ring_is_empty r \<equiv> er_len r = 0"

text \<open>The arguments of \<open>push_lossy\<close> after the ring itself, in order.\<close>

type_synonym event_args = "event_kind \<times> vm_id option \<times> vcpu_id option \<times> u64 \<times> u64"

fun push_lossy :: "event_ring \<Rightarrow> event_args \<Rightarrow> event_record core_result \<times> event_ring" where
  "push_lossy r (k, vm, vcpu, arg0, arg1) =
     (let n = length (er_entries r) in
      if n = 0
      then (Inl (CoreError CapacityExceeded ''event ring capacity must be positive''), r)
      else
        let rec = \<lparr>ev_abi_version = CORE_ABI_VERSION, ev_sequence = er_next_sequence r, ev_kind = k,
                   ev_vm_id = vm, ev_vcpu_id = vcpu, ev_arg0 = arg0, ev_arg1 = arg1\<rparr> in
        case checked_add (er_next_sequence r) 1 of
          None \<Rightarrow> (Inl (CoreError InvalidState ''event ring sequence counter overflowed''), r)
        | Some next \<Rightarrow>
            if er_len r = n
            then (Inr rec, r\<lparr>er_next_sequence := next, er_entries := (er_entries r)[er_head r := rec],
                             er_head := (er_head r + 1) mod n, er_dropped := er_dropped r + 1\<rparr>)
            else (Inr rec, r\<lparr>er_next_sequence := next,
                             er_entries := (er_entries r)[(er_head r + er_len r) mod n := rec],
                             er_len := er_len r + 1\<rparr>))"

definition event_ring_pop :: "event_ring \<Rightarrow> event_record option \<times> event_ring" where
  "event_ring_pop r =
     (if er_len r = 0 then (None, r)
      else (Some (er_entries r ! er_head r),
            r\<lparr>er_head := (er_head r + 1) mod length (er_entries r), er_len := er_len r - 1\<rparr>))"

section \<open>The command ring\<close>

datatype command_kind = PauseVm | ResumeVm | StopVm | DumpState

definition command_kind_from_raw :: "u16 \<Rightarrow> command_kind core_result" where
  "command_kind_from_raw raw =
     (if raw = 1 then Inr PauseVm
      else if raw = 2 then Inr ResumeVm
      else if raw = 3 then Inr StopVm
      else if raw = 4 then Inr DumpState
      else Inl (CoreError UnknownCommand ''control-plane command code is not supported by this ABI''))"

fun command_kind_raw :: "command_kind \<Rightarrow> u16" where
  "command_kind_raw PauseVm = 1"
| "command_kind_raw ResumeVm = 2"
| "command_kind_raw StopVm = 3"
| "command_kind_raw DumpState = 4"

record command_record =
  cmd_abi_version :: u16
  cmd_sequence :: u64
  cmd_kind :: command_kind
  cmd_vm_id :: vm_id
  cmd_arg0 :: u64
  cmd_arg1 :: u64

definition command_record_empty :: command_record where
  "command_record_empty =
     \<lparr>cmd_abi_version = CORE_ABI_VERSION, cmd_sequence = 0, cmd_kind = DumpState,
      cmd_vm_id = vm_id_one, cmd_arg0 = 0, cmd_arg1 = 0\<rparr>"

record command_ring =
  cr_entries :: "command_record list"
  cr_head :: nat
  cr_len :: nat
  cr_next_sequence :: u64

definition command_ring_new :: "nat \<Rightarrow> command_ring" where
  "command_ring_new n =
     \<lparr>cr_entries = replicate n command_record_empty, cr_head = 0, cr_len = 0, cr_next_sequence = 1\<rparr>"

definition command_ring_push ::
  "command_ring \<Rightarrow> command_kind \<Rightarrow> vm_id \<Rightarrow> u64 \<Rightarrow> u64 \<Rightarrow> command_record core_result \<times> command_ring" where
  "command_ring_push r k vm arg0 arg1 =
     (let n = length (cr_entries r) in
      if n = 0 \<or> cr_len r = n then (Inl (CoreError RingFull ''command ring is full''), r)
      else
        let rec = \<lparr>cmd_abi_version = CORE_ABI_VERSION, cmd_sequence = cr_next_sequence r, cmd_kind = k,
                   cmd_vm_id = vm, cmd_arg0 = arg0, cmd_arg1 = arg1\<rparr> in
        case checked_add (cr_next_sequence r) 1 of
          None \<Rightarrow> (Inl (CoreError InvalidState ''command ring sequence counter overflowed''), r)
        | Some next \<Rightarrow>
            (Inr rec, r\<lparr>cr_next_sequence := next,
                        cr_entries := (cr_entries r)[(cr_head r + cr_len r) mod n := rec],
                        cr_len := cr_len r + 1\<rparr>))"

text \<open>The arguments of \<open>push_raw\<close> after the ring itself, in order.\<close>

type_synonym command_args = "u16 \<times> vm_id \<times> u64 \<times> u64"

fun push_raw :: "command_ring \<Rightarrow> command_args \<Rightarrow> command_record core_result \<times> command_ring" where
  "push_raw r (raw_kind, vm, arg0, arg1) =
     (case command_kind_from_raw raw_kind of
        Inl e \<Rightarrow> (Inl e, r)
      | Inr k \<Rightarrow> command_ring_push r k vm arg0 arg1)"

definition command_ring_pop :: "command_ring \<Rightarrow> command_record option \<times> command_ring" where
  "command_ring_pop r =
     (if cr_len r = 0 then (None, r)
      else (Some (cr_entries r ! cr_head r),
            r\<lparr>cr_head := (cr_head r + 1) mod length (cr_entries r), cr_len := cr_len r - 1\<rparr>))"

section \<open>Contents and invariants\<close>

definition er_items :: "event_ring \<Rightarrow> event_record list" where
  "er_items r = ring_items (er_entries r) (er_head r) (er_len r)"

definition cr_items :: "command_ring \<Rightarrow> command_record list" where
  "cr_items r = ring_items (cr_entries r) (cr_head r) (cr_len r)"

text \<open>
  The records in a ring carry the sequence numbers just below the next one, in order. In the event
  ring the dropped records and the ones still held are among those already numbered.
\<close>

definition er_inv :: "event_ring \<Rightarrow> bool" where
  "er_inv r \<longleftrightarrow> ring_ok (er_entries r) (er_head r) (er_len r)
     \<and> unat (er_dropped r) + er_len r < unat (er_next_sequence r)
     \<and> map (\<lambda>e. unat (ev_sequence e)) (er_items r)
         = [unat (er_next_sequence r) - er_len r ..< unat (er_next_sequence r)]"

definition cr_inv :: "command_ring \<Rightarrow> bool" where
  "cr_inv r \<longleftrightarrow> ring_ok (cr_entries r) (cr_head r) (cr_len r)
     \<and> cr_len r < unat (cr_next_sequence r)
     \<and> map (\<lambda>e. unat (cmd_sequence e)) (cr_items r)
         = [unat (cr_next_sequence r) - cr_len r ..< unat (cr_next_sequence r)]"

lemma er_inv_new: "er_inv (event_ring_new n)"
  by (simp add: er_inv_def event_ring_new_def er_items_def)

lemma cr_inv_new: "cr_inv (command_ring_new n)"
  by (simp add: cr_inv_def command_ring_new_def cr_items_def)

section \<open>Correctness\<close>

lemma upt_snoc: "k \<le> n \<Longrightarrow> [n - k ..< n] @ [n] = [Suc n - Suc k ..< Suc n]"
  by simp

lemma upt_shift: "0 < k \<Longrightarrow> k \<le> n \<Longrightarrow> tl [n - k ..< n] @ [n] = [Suc n - k ..< Suc n]"
  by (simp add: Suc_diff_le tl_upt)

lemma upt_tl: "0 < k \<Longrightarrow> k \<le> n \<Longrightarrow> tl [n - k ..< n] = [n - (k - 1) ..< n]"
  by (cases k) (simp_all add: Suc_diff_Suc tl_upt)

lemma push_lossy_error:
  assumes "push_lossy r args = (Inl e, r')"
  shows "r' = r" "er_entries r = [] \<and> kind e = CapacityExceeded
    \<or> er_next_sequence r = - 1 \<and> kind e = InvalidState"
  using assms unat_neq_max [of "er_next_sequence r"]
  by (cases args; auto simp: Let_def checked_add_eq_None split: if_splits option.splits)+

lemma push_lossy_step:
  assumes inv: "er_inv r" and push: "push_lossy r args = (Inr rec, r')"
  shows "er_inv r'" "ev_sequence rec = er_next_sequence r"
    "unat (er_next_sequence r') = unat (er_next_sequence r) + 1"
    "er_items r' = drop (if er_len r = length (er_entries r) then 1 else 0) (er_items r) @ [rec]"
    "unat (er_dropped r') = unat (er_dropped r) + (if er_len r = length (er_entries r) then 1 else 0)"
    "0 < length (er_entries r)"
proof -
  obtain k vm vcpu a0 a1 where args: "args = (k, vm, vcpu, a0, a1)"
    by (cases args)
  let ?n = "length (er_entries r)" and ?next = "er_next_sequence r"
  obtain next' where n: "0 < ?n" "checked_add ?next 1 = Some next'" "unat next' = unat ?next + 1"
    and rec: "ev_sequence rec = ?next"
    using push by (auto simp: args Let_def checked_add_eq_Some split: if_splits option.splits)
  then show "0 < ?n" "ev_sequence rec = ?next" by simp_all
  have i: "ring_ok (er_entries r) (er_head r) (er_len r)"
    "unat (er_dropped r) + er_len r < unat ?next"
    "map (\<lambda>e. unat (ev_sequence e)) (er_items r) = [unat ?next - er_len r ..< unat ?next]"
    using inv by (simp_all add: er_inv_def)
  have "er_inv r' \<and> unat (er_next_sequence r') = unat ?next + 1
    \<and> er_items r' = drop (if er_len r = ?n then 1 else 0) (er_items r) @ [rec]
    \<and> unat (er_dropped r') = unat (er_dropped r) + (if er_len r = ?n then 1 else 0)"
  proof (cases "er_len r = ?n")
    case True
    then have r': "r' = r\<lparr>er_next_sequence := next', er_entries := (er_entries r)[er_head r := rec],
          er_head := (er_head r + 1) mod ?n, er_dropped := er_dropped r + 1\<rparr>"
      using push n by (auto simp: args Let_def)
    have items: "er_items r' = tl (er_items r) @ [rec]"
      using ring_items_overwrite [of "er_entries r" "er_head r" rec] n(1) i(1) True
      by (simp add: er_items_def r')
    have "unat (er_dropped r + 1) = unat (er_dropped r) + 1"
      using i(2) unat_lt_64 [of ?next] unat_add_exact [of "er_dropped r" 1] by simp
    moreover have "map (\<lambda>e. unat (ev_sequence e)) (er_items r') = [Suc (unat ?next) - er_len r ..< Suc (unat ?next)]"
      using upt_shift [of "er_len r" "unat ?next"] i(2,3) True n(1) rec by (simp add: items map_tl)
    moreover have "ring_ok (er_entries r') (er_head r') (er_len r')"
      using i(1) n(1) by (simp add: r' ring_ok_def True)
    ultimately show ?thesis
      using True n(3) items i(2) by (simp add: er_inv_def r' drop_Suc)
  next
    case False
    then have r': "r' = r\<lparr>er_next_sequence := next',
          er_entries := (er_entries r)[(er_head r + er_len r) mod ?n := rec], er_len := er_len r + 1\<rparr>"
      using push n by (auto simp: args Let_def)
    have lt: "er_len r < ?n"
      using False i(1) by (simp add: ring_ok_def)
    then have items: "er_items r' = er_items r @ [rec]"
      using ring_items_push [of "er_len r" "er_entries r" "er_head r" rec] by (simp add: er_items_def r')
    moreover have "map (\<lambda>e. unat (ev_sequence e)) (er_items r') = [Suc (unat ?next) - Suc (er_len r) ..< Suc (unat ?next)]"
      using upt_snoc [of "er_len r" "unat ?next"] i(2,3) rec by (simp add: items)
    moreover have "ring_ok (er_entries r') (er_head r') (er_len r')"
      using ring_ok_push [OF i(1) lt] by (simp add: r')
    ultimately show ?thesis
      using False n(3) i(2) by (simp add: er_inv_def r')
  qed
  then show "er_inv r'" "unat (er_next_sequence r') = unat ?next + 1"
    "er_items r' = drop (if er_len r = ?n then 1 else 0) (er_items r) @ [rec]"
    "unat (er_dropped r') = unat (er_dropped r) + (if er_len r = ?n then 1 else 0)"
    by simp_all
qed


lemma event_ring_pop_empty: "er_items r = [] \<Longrightarrow> event_ring_pop r = (None, r)"
  using length_ring_items [of "er_entries r" "er_head r" "er_len r"] by (simp add: event_ring_pop_def er_items_def)

lemma event_ring_pop_step:
  assumes inv: "er_inv r" and items: "er_items r = e # es"
  shows "\<exists>r'. event_ring_pop r = (Some e, r') \<and> er_inv r' \<and> er_items r' = es"
proof -
  have len: "0 < er_len r"
    using arg_cong [OF items, of length] by (simp add: er_items_def)
  have i: "ring_ok (er_entries r) (er_head r) (er_len r)"
    "unat (er_dropped r) + er_len r < unat (er_next_sequence r)"
    "map (\<lambda>e. unat (ev_sequence e)) (er_items r)
       = [unat (er_next_sequence r) - er_len r ..< unat (er_next_sequence r)]"
    using inv by (simp_all add: er_inv_def)
  define r' where "r' = r\<lparr>er_head := (er_head r + 1) mod length (er_entries r), er_len := er_len r - 1\<rparr>"
  have eq: "er_items r = er_entries r ! er_head r # er_items r'"
    using ring_items_pop [OF len i(1)] by (simp add: er_items_def r'_def)
  have "map (\<lambda>e. unat (ev_sequence e)) (er_items r') = tl (map (\<lambda>e. unat (ev_sequence e)) (er_items r))"
    by (simp add: eq)
  also have "\<dots> = [unat (er_next_sequence r) - (er_len r - 1) ..< unat (er_next_sequence r)]"
    using upt_tl [of "er_len r" "unat (er_next_sequence r)"] len i(2,3) by simp
  finally have "er_inv r'"
    using ring_ok_pop [OF i(1)] i(2) by (simp add: er_inv_def r'_def)
  moreover have "event_ring_pop r = (Some e, r')" "er_items r' = es"
    using len eq items by (simp_all add: event_ring_pop_def r'_def)
  ultimately show ?thesis by blast
qed

lemma event_ring_pop_keeps: "event_ring_pop r = (x, r') \<Longrightarrow>
    er_dropped r' = er_dropped r \<and> er_next_sequence r' = er_next_sequence r"
  by (auto simp: event_ring_pop_def split: if_splits)

interpretation er: lossy_queue er_inv er_items event_ring_pop push_lossy "\<lambda>r. unat (er_dropped r)"
proof
  fix r r' :: event_ring and e es a args x err
  assume inv: "er_inv r"
  show "er_items r = [] \<Longrightarrow> event_ring_pop r = (None, r)"
    by (rule event_ring_pop_empty)
  show "er_items r = e # es \<Longrightarrow> \<exists>r'. event_ring_pop r = (Some e, r') \<and> er_inv r' \<and> er_items r' = es"
    by (rule event_ring_pop_step [OF inv])
  show "event_ring_pop r = (x, r') \<Longrightarrow> unat (er_dropped r') = unat (er_dropped r)"
    using event_ring_pop_keeps by simp
  show "push_lossy r args = (Inl err, r') \<Longrightarrow> r' = r"
    by (rule push_lossy_error)
  assume "push_lossy r args = (Inr a, r')"
  note step = push_lossy_step [OF inv this]
  let ?k = "if er_len r = length (er_entries r) then 1 else 0"
  have "?k \<le> length (er_items r)"
    using step(6) by (simp add: er_items_def Suc_le_eq)
  then show "er_inv r' \<and> (\<exists>k \<le> length (er_items r). er_items r' = drop k (er_items r) @ [a]
      \<and> unat (er_dropped r') = unat (er_dropped r) + k)"
    using step(1,4,5) by blast
qed

subsection \<open>The command ring\<close>

lemma command_ring_push_error:
  assumes "command_ring_push r k vm a0 a1 = (Inl e, r')" "cr_inv r"
  shows "r' = r" "cr_len r = length (cr_entries r) \<and> kind e = RingFull
    \<or> cr_next_sequence r = - 1 \<and> kind e = InvalidState"
  using assms unat_neq_max [of "cr_next_sequence r"]
  by (auto simp: command_ring_push_def Let_def checked_add_eq_None cr_inv_def ring_ok_def split: if_splits option.splits)

lemma command_ring_push_step:
  assumes inv: "cr_inv r" and push: "command_ring_push r k vm a0 a1 = (Inr rec, r')"
  shows "cr_inv r'" "cmd_sequence rec = cr_next_sequence r" "cmd_kind rec = k" "cmd_vm_id rec = vm"
    "cr_items r' = cr_items r @ [rec]"
proof -
  let ?n = "length (cr_entries r)" and ?next = "cr_next_sequence r"
  have i: "ring_ok (cr_entries r) (cr_head r) (cr_len r)" "cr_len r < unat ?next"
    "map (\<lambda>e. unat (cmd_sequence e)) (cr_items r) = [unat ?next - cr_len r ..< unat ?next]"
    using inv by (simp_all add: cr_inv_def)
  obtain next' where n: "0 < ?n" "cr_len r \<noteq> ?n" "unat next' = unat ?next + 1"
    and rec: "cmd_sequence rec = ?next" "cmd_kind rec = k" "cmd_vm_id rec = vm"
    and r': "r' = r\<lparr>cr_next_sequence := next',
       cr_entries := (cr_entries r)[(cr_head r + cr_len r) mod ?n := rec], cr_len := cr_len r + 1\<rparr>"
    using push by (auto simp: command_ring_push_def Let_def checked_add_eq_Some split: if_splits option.splits)
  show "cmd_sequence rec = ?next" "cmd_kind rec = k" "cmd_vm_id rec = vm" by (fact rec)+
  have lt: "cr_len r < ?n"
    using n i(1) by (simp add: ring_ok_def)
  then show items: "cr_items r' = cr_items r @ [rec]"
    using ring_items_push [of "cr_len r" "cr_entries r" "cr_head r" rec] by (simp add: cr_items_def r')
  have "map (\<lambda>e. unat (cmd_sequence e)) (cr_items r') = [Suc (unat ?next) - Suc (cr_len r) ..< Suc (unat ?next)]"
    using upt_snoc [of "cr_len r" "unat ?next"] i(2,3) rec by (simp add: items)
  then show "cr_inv r'"
    using ring_ok_push [OF i(1) lt] n(3) i(2) by (simp add: cr_inv_def r')
qed

lemma command_ring_pop_empty: "cr_items r = [] \<Longrightarrow> command_ring_pop r = (None, r)"
  using length_ring_items [of "cr_entries r" "cr_head r" "cr_len r"] by (simp add: command_ring_pop_def cr_items_def)

lemma command_ring_pop_step:
  assumes inv: "cr_inv r" and items: "cr_items r = e # es"
  shows "\<exists>r'. command_ring_pop r = (Some e, r') \<and> cr_inv r' \<and> cr_items r' = es"
proof -
  have len: "0 < cr_len r"
    using arg_cong [OF items, of length] by (simp add: cr_items_def)
  have i: "ring_ok (cr_entries r) (cr_head r) (cr_len r)" "cr_len r < unat (cr_next_sequence r)"
    "map (\<lambda>e. unat (cmd_sequence e)) (cr_items r)
       = [unat (cr_next_sequence r) - cr_len r ..< unat (cr_next_sequence r)]"
    using inv by (simp_all add: cr_inv_def)
  define r' where "r' = r\<lparr>cr_head := (cr_head r + 1) mod length (cr_entries r), cr_len := cr_len r - 1\<rparr>"
  have eq: "cr_items r = cr_entries r ! cr_head r # cr_items r'"
    using ring_items_pop [OF len i(1)] by (simp add: cr_items_def r'_def)
  have "map (\<lambda>e. unat (cmd_sequence e)) (cr_items r') = tl (map (\<lambda>e. unat (cmd_sequence e)) (cr_items r))"
    by (simp add: eq)
  also have "\<dots> = [unat (cr_next_sequence r) - (cr_len r - 1) ..< unat (cr_next_sequence r)]"
    using upt_tl [of "cr_len r" "unat (cr_next_sequence r)"] len i(2,3) by simp
  finally have "cr_inv r'"
    using ring_ok_pop [OF i(1)] i(2) by (simp add: cr_inv_def r'_def)
  moreover have "command_ring_pop r = (Some e, r')" "cr_items r' = es"
    using len items eq by (simp_all add: command_ring_pop_def r'_def)
  ultimately show ?thesis by blast
qed

lemma push_raw_cases:
  "push_raw r (raw, vm, a0, a1) = (x, r') \<Longrightarrow>
     (\<exists>e. x = Inl e \<and> r' = r \<and> command_kind_from_raw raw = Inl e)
     \<or> (\<exists>k. command_kind_from_raw raw = Inr k \<and> command_ring_push r k vm a0 a1 = (x, r'))"
  by (auto split: sum.splits)

interpretation cr: fifo_queue cr_inv cr_items command_ring_pop push_raw
proof
  fix r r' :: command_ring and e es a err and args :: command_args
  assume inv: "cr_inv r"
  obtain raw vm a0 a1 where args: "args = (raw, vm, a0, a1)" by (cases args)
  show "cr_items r = [] \<Longrightarrow> command_ring_pop r = (None, r)"
    by (rule command_ring_pop_empty)
  show "cr_items r = e # es \<Longrightarrow> \<exists>r'. command_ring_pop r = (Some e, r') \<and> cr_inv r' \<and> cr_items r' = es"
    by (rule command_ring_pop_step [OF inv])
  show "push_raw r args = (Inr a, r') \<Longrightarrow> cr_inv r' \<and> cr_items r' = cr_items r @ [a]"
    unfolding args by (auto simp del: push_raw.simps dest!: push_raw_cases dest: command_ring_push_step(1,5) [OF inv])
  show "push_raw r args = (Inl err, r') \<Longrightarrow> r' = r"
    unfolding args by (auto simp del: push_raw.simps dest!: push_raw_cases dest: command_ring_push_error(1) [OF _ inv])
qed


section \<open>Properties of the rings\<close>

text \<open>
  C35. Over any interleaving of producers and the consumer, the event ring accounts for every
  event: what the consumer received, followed by what the ring still holds, is in order and
  without repetition a part of the accepted records; the dropped counter grows by exactly the
  number of missing records and never wraps; and the records still held carry the consecutive
  sequence numbers that end just below the next one.
\<close>

theorem event_ring_accounts_for_loss:
  assumes "er_inv r" "run_queue push_lossy event_ring_pop r ops = (accepted, received, r')"
  shows "er_inv r' \<and> subseq (received @ er_items r') (er_items r @ accepted)
    \<and> length (er_items r @ accepted) + unat (er_dropped r)
        = length (received @ er_items r') + unat (er_dropped r')
    \<and> map (\<lambda>e. unat (ev_sequence e)) (er_items r')
        = [unat (er_next_sequence r') - er_len r' ..< unat (er_next_sequence r')]"
  using er.lossy [OF assms] by (simp add: er_inv_def)

definition demo_event :: event_args where
  "demo_event = (Ev_Trap, None, None, 7, 0)"

definition demo_event_record :: "u64 \<Rightarrow> event_record" where
  "demo_event_record n = \<lparr>ev_abi_version = 1, ev_sequence = n, ev_kind = Ev_Trap, ev_vm_id = None,
     ev_vcpu_id = None, ev_arg0 = 7, ev_arg1 = 0\<rparr>"

lemma event_run_demo:
  "run_queue push_lossy event_ring_pop (event_ring_new 1) [Enqueue demo_event, Enqueue demo_event, Dequeue]
     = ([demo_event_record 1, demo_event_record 2], [demo_event_record 2],
        \<lparr>er_entries = [demo_event_record 2], er_head = 0, er_len = 0, er_next_sequence = 3, er_dropped = 1\<rparr>)"
  by (simp add: event_ring_new_def demo_event_def demo_event_record_def Let_def checked_add_def
      CORE_ABI_VERSION_def event_ring_pop_def)

theorem event_ring_accounts_for_loss_witness:
  "er_inv (event_ring_new 1)
    \<and> run_queue push_lossy event_ring_pop (event_ring_new 1) [Enqueue demo_event, Enqueue demo_event, Dequeue]
     = ([demo_event_record 1, demo_event_record 2], [demo_event_record 2],
        \<lparr>er_entries = [demo_event_record 2], er_head = 0, er_len = 0, er_next_sequence = 3, er_dropped = 1\<rparr>)
    \<and> subseq [demo_event_record 2] [demo_event_record 1, demo_event_record 2]"
proof (intro conjI)
  show "subseq [demo_event_record 2] [demo_event_record 1, demo_event_record 2]"
    using event_ring_accounts_for_loss [OF er_inv_new event_run_demo]
    by (simp add: er_items_def event_ring_new_def)
qed (rule er_inv_new event_run_demo)+

text \<open>
  C36. The command ring is a first-in first-out queue of the accepted commands: over any
  interleaving of raw pushes and pops, the commands already queued followed by the accepted ones
  are exactly the delivered ones followed by those still queued. Unknown codes and a full ring
  are refused without a trace.
\<close>

theorem command_ring_fifo:
  assumes "cr_inv r" "run_queue push_raw command_ring_pop r ops = (accepted, delivered, r')"
  shows "cr_inv r' \<and> cr_items r @ accepted = delivered @ cr_items r'"
  by (rule cr.fifo [OF assms])

definition demo_command :: "u64 \<Rightarrow> command_record" where
  "demo_command n = \<lparr>cmd_abi_version = 1, cmd_sequence = n, cmd_kind = StopVm, cmd_vm_id = VmId 7,
     cmd_arg0 = 0, cmd_arg1 = 0\<rparr>"

lemma command_run_demo:
  "run_queue push_raw command_ring_pop (command_ring_new 1)
      [Enqueue (3, VmId 7, 0, 0), Enqueue (9, VmId 7, 0, 0), Dequeue, Enqueue (3, VmId 7, 0, 0)]
     = ([demo_command 1, demo_command 2], [demo_command 1],
        \<lparr>cr_entries = [demo_command 2], cr_head = 0, cr_len = 1, cr_next_sequence = 3\<rparr>)"
  by (simp add: command_ring_new_def demo_command_def Let_def checked_add_def command_ring_push_def
      CORE_ABI_VERSION_def command_ring_pop_def command_kind_from_raw_def)

theorem command_ring_fifo_witness:
  "cr_inv (command_ring_new 1)
    \<and> run_queue push_raw command_ring_pop (command_ring_new 1)
      [Enqueue (3, VmId 7, 0, 0), Enqueue (9, VmId 7, 0, 0), Dequeue, Enqueue (3, VmId 7, 0, 0)]
     = ([demo_command 1, demo_command 2], [demo_command 1],
        \<lparr>cr_entries = [demo_command 2], cr_head = 0, cr_len = 1, cr_next_sequence = 3\<rparr>)
    \<and> cr_items \<lparr>cr_entries = [demo_command 2], cr_head = 0, cr_len = 1, cr_next_sequence = 3\<rparr>
      = [demo_command 2]"
proof (intro conjI)
  show "cr_items \<lparr>cr_entries = [demo_command 2], cr_head = 0, cr_len = 1, cr_next_sequence = 3\<rparr>
      = [demo_command 2]"
    using command_ring_fifo [OF cr_inv_new command_run_demo]
    by (simp add: cr_items_def command_ring_new_def)
qed (rule cr_inv_new command_run_demo)+

text \<open>
  Command codes round trip: decoding is exactly the inverse of encoding, and every code that
  encodes no command is rejected as \<open>UnknownCommand\<close>.
\<close>

theorem command_kind_round_trip:
  "(command_kind_from_raw raw = Inr k \<longleftrightarrow> raw = command_kind_raw k)
    \<and> (raw \<notin> range command_kind_raw \<longleftrightarrow>
         (\<exists>e. command_kind_from_raw raw = Inl e \<and> kind e = UnknownCommand))"
proof -
  have range: "range command_kind_raw = {1, 2, 3, 4}"
  proof -
    have "command_kind_raw c \<in> {1, 2, 3, 4}" for c
      by (cases c) simp_all
    moreover have "{1, 2, 3, 4} \<subseteq> range command_kind_raw"
      using rangeI [of command_kind_raw PauseVm] rangeI [of command_kind_raw ResumeVm]
        rangeI [of command_kind_raw StopVm] rangeI [of command_kind_raw DumpState] by simp
    ultimately show ?thesis by blast
  qed
  show ?thesis
    unfolding range by (cases k) (auto simp: command_kind_from_raw_def)
qed

end
