(* ===== verification/Ownership.thy ===== *)
theory Ownership
  imports Core_Ids
begin

text \<open>
  The page ownership table of \<open>crates/aegishv-hypervisor-core/src/ownership.rs\<close>: which host
  pages belong to the hypervisor, to a VM or to a device, and the check that a guest mapping only
  uses host pages of its own VM. The check is shown to accept exactly the ranges that lie wholly
  in the VM's pages, so two VMs are never granted the same host page.
\<close>

section \<open>Types\<close>

definition OWNER_PAGE_SIZE :: u64 where
  "OWNER_PAGE_SIZE = 4096"

datatype page_owner = OwnerFree | OwnerReserved | OwnerHypervisor | OwnerVm vm_id | OwnerDevice device_id

record page_range =
  rg_start :: host_physical
  rg_length :: u64

definition page_range_new :: "host_physical \<Rightarrow> u64 \<Rightarrow> page_range core_result" where
  "page_range_new start len =
     (if len = 0 \<or> hpa_get start mod OWNER_PAGE_SIZE \<noteq> 0 \<or> len mod OWNER_PAGE_SIZE \<noteq> 0
      then Inl (CoreError InvalidAddress ''page ownership ranges must be non-empty and 4K aligned'')
      else case host_physical_checked_add start len of
        Inl e \<Rightarrow> Inl e
      | Inr _ \<Rightarrow> Inr \<lparr>rg_start = start, rg_length = len\<rparr>)"

definition page_range_end :: "page_range \<Rightarrow> u64 core_result" where
  "page_range_end r = map_sum id hpa_get (host_physical_checked_add (rg_start r) (rg_length r))"

text \<open>The conjunctions of \<open>contains\<close> and \<open>overlaps\<close> are short-circuiting, also for the error of \<open>end\<close>.\<close>

definition page_range_contains :: "page_range \<Rightarrow> u64 \<Rightarrow> bool core_result" where
  "page_range_contains r address =
     (if hpa_get (rg_start r) \<le> address
      then case page_range_end r of Inl e \<Rightarrow> Inl e | Inr stop \<Rightarrow> Inr (address < stop)
      else Inr False)"

definition page_range_overlaps :: "page_range \<Rightarrow> page_range \<Rightarrow> bool core_result" where
  "page_range_overlaps r other =
     (case page_range_end other of
        Inl e \<Rightarrow> Inl e
      | Inr other_end \<Rightarrow>
          if hpa_get (rg_start r) < other_end
          then case page_range_end r of Inl e \<Rightarrow> Inl e | Inr stop \<Rightarrow> Inr (hpa_get (rg_start other) < stop)
          else Inr False)"

record page_ownership =
  po_range :: page_range
  po_owner :: page_owner

record page_ownership_table =
  ot_entries :: "page_ownership option list"
  ot_len :: nat

section \<open>Operations\<close>

definition ownership_new :: "nat \<Rightarrow> page_ownership_table" where
  "ownership_new n = \<lparr>ot_entries = replicate n None, ot_len = 0\<rparr>"

abbreviation ownership_is_empty :: "page_ownership_table \<Rightarrow> bool" where
  "ownership_is_empty t \<equiv> ot_len t = 0"

definition ownership_entries :: "page_ownership_table \<Rightarrow> page_ownership list" where
  "ownership_entries t = List.map_filter id (take (ot_len t) (ot_entries t))"

fun assign_check :: "page_range \<Rightarrow> page_ownership list \<Rightarrow> unit core_result" where
  "assign_check rng [] = Inr ()"
| "assign_check rng (entry # entries) =
     (case page_range_overlaps (po_range entry) rng of
        Inl e \<Rightarrow> Inl e
      | Inr True \<Rightarrow> Inl (CoreError Overlap ''page ownership ranges must not overlap'')
      | Inr False \<Rightarrow> assign_check rng entries)"

definition assign ::
  "page_ownership_table \<Rightarrow> page_range \<Rightarrow> page_owner \<Rightarrow> unit core_result \<times> page_ownership_table" where
  "assign t rng owner =
     (if length (ot_entries t) \<le> ot_len t
      then (Inl (CoreError CapacityExceeded ''page ownership table is full''), t)
      else case assign_check rng (ownership_entries t) of
        Inl e \<Rightarrow> (Inl e, t)
      | Inr _ \<Rightarrow>
          (Inr (), t\<lparr>ot_entries := (ot_entries t)[ot_len t := Some \<lparr>po_range = rng, po_owner = owner\<rparr>],
                     ot_len := ot_len t + 1\<rparr>))"

fun owner_scan :: "u64 \<Rightarrow> page_ownership list \<Rightarrow> page_owner option core_result" where
  "owner_scan address [] = Inr None"
| "owner_scan address (entry # entries) =
     (case page_range_contains (po_range entry) address of
        Inl e \<Rightarrow> Inl e
      | Inr True \<Rightarrow> Inr (Some (po_owner entry))
      | Inr False \<Rightarrow> owner_scan address entries)"

definition owner_at :: "page_ownership_table \<Rightarrow> host_physical \<Rightarrow> page_owner option core_result" where
  "owner_at t address = owner_scan (hpa_get address) (ownership_entries t)"

text \<open>
  The inner loop of \<open>validate_guest_host_mapping\<close>: the end of the entry that holds the cursor,
  clipped to the requested end.
\<close>

fun covered_until :: "vm_id \<Rightarrow> u64 \<Rightarrow> u64 \<Rightarrow> page_ownership list \<Rightarrow> u64 option core_result" where
  "covered_until vm cursor stop [] = Inr None"
| "covered_until vm cursor stop (entry # entries) =
     (case page_range_contains (po_range entry) cursor of
        Inl e \<Rightarrow> Inl e
      | Inr True \<Rightarrow>
          if po_owner entry \<noteq> OwnerVm vm
          then Inl (CoreError PermissionViolation ''guest mapping references a page not owned by that VM'')
          else (case page_range_end (po_range entry) of Inl e \<Rightarrow> Inl e | Inr en \<Rightarrow> Inr (Some (min en stop)))
      | Inr False \<Rightarrow> covered_until vm cursor stop entries)"

text \<open>The outer loop: every iteration moves the cursor strictly towards the end.\<close>

function walk_mapping :: "vm_id \<Rightarrow> page_ownership list \<Rightarrow> u64 \<Rightarrow> u64 \<Rightarrow> unit core_result" where
  "walk_mapping vm entries stop cursor =
     (if cursor < stop then
        case covered_until vm cursor stop entries of
          Inl e \<Rightarrow> Inl e
        | Inr (Some next) \<Rightarrow>
            if cursor < next then walk_mapping vm entries stop next
            else Inl (CoreError PermissionViolation ''guest mapping references unowned host pages'')
        | Inr None \<Rightarrow>
            Inl (CoreError PermissionViolation ''guest mapping references unowned host pages'')
      else Inr ())"
  by pat_completeness auto
termination
  by (relation "measure (\<lambda>(vm, entries, stop, cursor). unat stop - unat cursor)")
    (auto simp: word_less_nat_alt)

declare walk_mapping.simps [simp del]

definition validate_guest_host_mapping ::
  "page_ownership_table \<Rightarrow> vm_id \<Rightarrow> host_physical \<Rightarrow> u64 \<Rightarrow> unit core_result" where
  "validate_guest_host_mapping t vm host_start len =
     (case page_range_new host_start len of
        Inl e \<Rightarrow> Inl e
      | Inr requested \<Rightarrow>
         (case page_range_end requested of
            Inl e \<Rightarrow> Inl e
          | Inr stop \<Rightarrow> walk_mapping vm (ownership_entries t) stop (hpa_get host_start)))"

section \<open>Ownership of addresses\<close>

definition rg_lo :: "page_range \<Rightarrow> nat" where
  "rg_lo r = unat (hpa_get (rg_start r))"

definition rg_hi :: "page_range \<Rightarrow> nat" where
  "rg_hi r = unat (hpa_get (rg_start r)) + unat (rg_length r)"

definition range_ok :: "page_range \<Rightarrow> bool" where
  "range_ok r \<longleftrightarrow> rg_lo r < rg_hi r \<and> rg_hi r < 2 ^ 64 - 1"

definition in_range :: "page_range \<Rightarrow> nat \<Rightarrow> bool" where
  "in_range r a \<longleftrightarrow> rg_lo r \<le> a \<and> a < rg_hi r"

text \<open>Who owns an address according to a list of entries.\<close>

fun owner_map :: "page_ownership list \<Rightarrow> nat \<Rightarrow> page_owner option" where
  "owner_map [] a = None"
| "owner_map (e # es) a = (if in_range (po_range e) a then Some (po_owner e) else owner_map es a)"

definition entries_ok :: "page_ownership list \<Rightarrow> bool" where
  "entries_ok es \<longleftrightarrow> (\<forall>e \<in> set es. range_ok (po_range e))
     \<and> pairwise (\<lambda>x y. \<forall>a. \<not> (in_range (po_range x) a \<and> in_range (po_range y) a)) (set es) \<and> distinct es"

definition own_inv :: "page_ownership_table \<Rightarrow> bool" where
  "own_inv t \<longleftrightarrow> ot_len t \<le> length (ot_entries t) \<and> None \<notin> set (take (ot_len t) (ot_entries t))
     \<and> entries_ok (ownership_entries t)"

lemma page_range_end_ok: "range_ok r \<Longrightarrow> \<exists>e. page_range_end r = Inr e \<and> unat e = rg_hi r"
proof -
  assume ok: "range_ok r"
  define b :: u64 where "b = hpa_get (rg_start r) + rg_length r"
  have b: "unat b = rg_hi r"
    unfolding b_def rg_hi_def using ok by (intro unat_add_exact) (simp add: range_ok_def rg_hi_def)
  then have "host_physical_checked_add (rg_start r) (rg_length r) = Inr (HostPhysical b)"
    using ok by (simp add: host_physical_checked_add_ok host_physical_valid_def unat_neq_max range_ok_def rg_hi_def)
  with b show ?thesis by (simp add: page_range_end_def)
qed

lemma page_range_contains_ok: "range_ok r \<Longrightarrow> page_range_contains r a = Inr (in_range r (unat a))"
  using page_range_end_ok [of r]
  by (auto simp: page_range_contains_def in_range_def rg_lo_def word_le_nat_alt word_less_nat_alt)

lemma page_range_overlaps_ok:
  "range_ok r \<Longrightarrow> range_ok q \<Longrightarrow> page_range_overlaps r q = Inr (\<exists>a. in_range r a \<and> in_range q a)"
proof -
  assume ok: "range_ok r" "range_ok q"
  have "page_range_overlaps r q = Inr (rg_lo r < rg_hi q \<and> rg_lo q < rg_hi r)"
    using page_range_end_ok [OF ok(1)] page_range_end_ok [OF ok(2)]
    by (auto simp: page_range_overlaps_def rg_lo_def word_less_nat_alt)
  moreover have "rg_lo r < rg_hi q \<and> rg_lo q < rg_hi r \<longleftrightarrow> (\<exists>a. in_range r a \<and> in_range q a)"
    using ok by (auto simp: in_range_def range_ok_def intro: exI [of _ "max (rg_lo r) (rg_lo q)"])
  ultimately show ?thesis by simp
qed

lemma page_range_new_ok:
  "page_range_new start len = Inr r \<longleftrightarrow>
     r = \<lparr>rg_start = start, rg_length = len\<rparr> \<and> range_ok r \<and> 4096 dvd rg_lo r \<and> 4096 dvd unat len"
proof -
  have al: "x mod OWNER_PAGE_SIZE = 0 \<longleftrightarrow> 4096 dvd unat x" for x :: u64
    by (simp add: word_unat_eq_iff unat_mod_distrib OWNER_PAGE_SIZE_def mod_eq_0_iff_dvd)
  show ?thesis
  proof (cases "host_physical_checked_add start len")
    case (Inl e)
    then have "\<not> range_ok \<lparr>rg_start = start, rg_length = len\<rparr>"
      using page_range_end_ok [of "\<lparr>rg_start = start, rg_length = len\<rparr>"] by (auto simp: page_range_end_def)
    with Inl show ?thesis by (auto simp: page_range_new_def)
  next
    case (Inr b)
    then have "unat (hpa_get start) + unat len < 2 ^ 64 - 1"
      by (simp add: host_physical_checked_add_ok host_physical_valid_def unat_neq_max)
    with Inr al [of "hpa_get start"] al [of len] show ?thesis
      by (auto simp: page_range_new_def range_ok_def rg_lo_def rg_hi_def unat_gt_0)
  qed
qed

lemma page_range_new_kind: "page_range_new start len = Inl e \<Longrightarrow> kind e = InvalidAddress"
  by (auto simp: page_range_new_def host_physical_checked_add_kind split: if_splits sum.splits)

section \<open>Looking up and assigning\<close>

lemma owner_scan_eq: "\<forall>e \<in> set es. range_ok (po_range e) \<Longrightarrow> owner_scan a es = Inr (owner_map es (unat a))"
  by (induction es) (auto simp: page_range_contains_ok split: bool.splits)

lemma owner_map_mem:
  "entries_ok es \<Longrightarrow> e \<in> set es \<Longrightarrow> in_range (po_range e) a \<Longrightarrow> owner_map es a = Some (po_owner e)"
proof (induction es)
  case (Cons x es)
  then have "entries_ok es"
    by (auto simp: entries_ok_def pairwise_insert)
  moreover have "e = x \<or> \<not> in_range (po_range x) a"
    using Cons.prems by (auto simp: entries_ok_def pairwise_def)
  ultimately show ?case
    using Cons by auto
qed simp

lemma owner_map_None: "owner_map es a = None \<longleftrightarrow> (\<forall>e \<in> set es. \<not> in_range (po_range e) a)"
  by (induction es) auto

lemma owner_map_append:
  "owner_map (es @ fs) a = (case owner_map es a of None \<Rightarrow> owner_map fs a | Some w \<Rightarrow> Some w)"
  by (induction es) auto

lemma assign_check_cases:
  assumes "\<forall>e \<in> set es. range_ok (po_range e)" "range_ok r"
  shows "assign_check r es = Inr () \<and> (\<forall>a. in_range r a \<longrightarrow> owner_map es a = None)
    \<or> (\<exists>e. assign_check r es = Inl e \<and> kind e = Overlap \<and> (\<exists>a. in_range r a \<and> owner_map es a \<noteq> None))"
  using assms(1)
proof (induction es)
  case (Cons x es)
  note overlap = page_range_overlaps_ok [OF _ assms(2), of "po_range x"]
  show ?case
  proof (cases "\<exists>a. in_range (po_range x) a \<and> in_range r a")
    case True
    with Cons.prems overlap show ?thesis by auto
  next
    case False
    with overlap Cons.prems have "page_range_overlaps (po_range x) r = Inr False"
      by simp
    then have "assign_check r (x # es) = assign_check r es"
      by simp
    moreover have "in_range r a \<Longrightarrow> owner_map (x # es) a = owner_map es a" for a
      using False by auto
    moreover have "\<forall>e \<in> set es. range_ok (po_range e)"
      using Cons.prems by simp
    ultimately show ?thesis
      using Cons.IH by metis
  qed
qed simp

lemma ownership_entries_snoc:
  assumes "ot_len t < length (ot_entries t)"
  shows "ownership_entries (t\<lparr>ot_entries := (ot_entries t)[ot_len t := Some e], ot_len := ot_len t + 1\<rparr>)
    = ownership_entries t @ [e]"
  using assms by (simp add: ownership_entries_def take_Suc_conv_app_nth List.map_filter_def)

lemma entries_ok_snoc:
  assumes "entries_ok es" "range_ok (po_range e)" "\<forall>a. in_range (po_range e) a \<longrightarrow> owner_map es a = None"
  shows "entries_ok (es @ [e])"
proof -
  have "in_range (po_range e) (rg_lo (po_range e))"
    using assms(2) by (simp add: in_range_def range_ok_def)
  then have "e \<notin> set es"
    using assms(3) by (auto simp: owner_map_None)
  then show ?thesis
    using assms by (auto simp: entries_ok_def pairwise_insert owner_map_None)
qed

lemma assign_spec:
  assumes inv: "own_inv t" and ok: "range_ok r"
  shows "(\<exists>t'. assign t r w = (Inr (), t') \<and> own_inv t' \<and> (\<forall>a. in_range r a \<longrightarrow> owner_map (ownership_entries t) a = None)
       \<and> owner_map (ownership_entries t')
         = (\<lambda>a. if in_range r a then Some w else owner_map (ownership_entries t) a))
    \<or> (\<exists>e. assign t r w = (Inl e, t) \<and> (kind e = CapacityExceeded \<and> ot_len t = length (ot_entries t)
       \<or> kind e = Overlap \<and> (\<exists>a. in_range r a \<and> owner_map (ownership_entries t) a \<noteq> None)))"
proof (cases "ot_len t < length (ot_entries t)")
  case False
  then show ?thesis
    using inv by (auto simp: assign_def own_inv_def)
next
  case True
  let ?es = "ownership_entries t" and ?e = "\<lparr>po_range = r, po_owner = w\<rparr>"
  have es: "entries_ok ?es" "\<forall>e \<in> set ?es. range_ok (po_range e)"
    using inv by (simp_all add: own_inv_def entries_ok_def)
  from assign_check_cases [OF es(2) ok] show ?thesis
  proof (elim disjE exE conjE)
    assume chk: "assign_check r ?es = Inr ()" and free: "\<forall>a. in_range r a \<longrightarrow> owner_map ?es a = None"
    define t' where "t' = t\<lparr>ot_entries := (ot_entries t)[ot_len t := Some ?e], ot_len := ot_len t + 1\<rparr>"
    have new: "ownership_entries t' = ?es @ [?e]"
      unfolding t'_def by (rule ownership_entries_snoc [OF True])
    have "own_inv t'"
      using entries_ok_snoc [OF es(1), of ?e] ok free inv True unfolding own_inv_def new
      by (simp add: t'_def take_Suc_conv_app_nth)
    moreover have "owner_map (ownership_entries t') = (\<lambda>a. if in_range r a then Some w else owner_map ?es a)"
      using free by (auto simp: new owner_map_append fun_eq_iff split: option.splits)
    moreover have "assign t r w = (Inr (), t')"
      using True chk by (simp add: assign_def t'_def)
    ultimately show ?thesis using free by blast
  qed (use True in \<open>auto simp: assign_def\<close>)
qed

section \<open>Validating a guest mapping\<close>

lemma covered_until_eq:
  assumes "entries_ok es"
  shows "(\<exists>e \<in> set es. in_range (po_range e) (unat c) \<and> po_owner e = OwnerVm vm
       \<and> (\<exists>n. covered_until vm c stop es = Inr (Some n) \<and> unat n = min (rg_hi (po_range e)) (unat stop)))
    \<or> owner_map es (unat c) \<noteq> Some (OwnerVm vm) \<and>
       (covered_until vm c stop es = Inr None
         \<or> (\<exists>e. covered_until vm c stop es = Inl e \<and> kind e = PermissionViolation))"
  using assms
proof (induction es)
  case (Cons x es)
  then have x: "range_ok (po_range x)" "entries_ok es"
    by (auto simp: entries_ok_def pairwise_insert)
  from page_range_end_ok [OF x(1)] obtain e where e: "page_range_end (po_range x) = Inr e" "unat e = rg_hi (po_range x)"
    by blast
  have "unat (min e stop) = min (rg_hi (po_range x)) (unat stop)"
    using e(2) by (simp add: min_def word_le_nat_alt)
  with e Cons.IH [OF x(2)] show ?case
    by (cases "in_range (po_range x) (unat c)") (auto simp: page_range_contains_ok [OF x(1)])
qed simp

lemma walk_mapping_iff:
  shows "entries_ok es \<Longrightarrow> (walk_mapping vm es stop c = Inr () \<longleftrightarrow>
      (\<forall>a. unat c \<le> a \<and> a < unat stop \<longrightarrow> owner_map es a = Some (OwnerVm vm)))
    \<and> (\<forall>e. walk_mapping vm es stop c = Inl e \<longrightarrow> kind e = PermissionViolation)"
proof (induction vm es stop c rule: walk_mapping.induct)
  case (1 vm es stop c)
  let ?vm = "Some (OwnerVm vm)"
  show ?case
  proof (cases "c < stop")
    case False
    then show ?thesis
      by (auto simp: walk_mapping.simps word_less_nat_alt)
  next
    case lt: True
    from covered_until_eq [OF 1(2), of c vm stop] show ?thesis
    proof (elim disjE bexE exE conjE)
      fix e n assume e: "e \<in> set es" "in_range (po_range e) (unat c)" "po_owner e = OwnerVm vm"
        and n: "covered_until vm c stop es = Inr (Some n)" "unat n = min (rg_hi (po_range e)) (unat stop)"
      have cn: "c < n"
        using e(2) n(2) lt by (simp add: word_less_nat_alt in_range_def)
      have own: "owner_map es a = ?vm" if "unat c \<le> a" "a < unat n" for a
        using owner_map_mem [OF 1(2) e(1), of a] e(2,3) n(2) that by (simp add: in_range_def)
      have "(\<forall>a. unat c \<le> a \<and> a < unat stop \<longrightarrow> owner_map es a = ?vm)
          \<longleftrightarrow> (\<forall>a. unat n \<le> a \<and> a < unat stop \<longrightarrow> owner_map es a = ?vm)"
        using own cn unfolding word_less_nat_alt by (meson le_trans less_imp_le not_less)
      moreover have "walk_mapping vm es stop c = walk_mapping vm es stop n"
        using lt n(1) cn by (simp add: walk_mapping.simps [of vm es stop c])
      ultimately show ?thesis
        using 1(1) [OF lt n(1) refl cn 1(2)] by (elim conjE) (simp only: simp_thms)
    qed (use lt in \<open>auto simp: walk_mapping.simps [of vm es stop c] word_less_nat_alt\<close>)
  qed
qed


lemma validate_cases:
  assumes "own_inv t"
  shows "(validate_guest_host_mapping t vm start len = Inr () \<longleftrightarrow>
      range_ok \<lparr>rg_start = start, rg_length = len\<rparr> \<and> 4096 dvd unat (hpa_get start) \<and> 4096 dvd unat len
      \<and> (\<forall>a. unat (hpa_get start) \<le> a \<and> a < unat (hpa_get start) + unat len
            \<longrightarrow> owner_map (ownership_entries t) a = Some (OwnerVm vm)))
    \<and> (\<forall>e. validate_guest_host_mapping t vm start len = Inl e \<longrightarrow>
      kind e = (if range_ok \<lparr>rg_start = start, rg_length = len\<rparr> \<and> 4096 dvd unat (hpa_get start) \<and> 4096 dvd unat len
                then PermissionViolation else InvalidAddress))"
proof (cases "page_range_new start len")
  case (Inl e)
  then have "\<not> (range_ok \<lparr>rg_start = start, rg_length = len\<rparr> \<and> 4096 dvd unat (hpa_get start) \<and> 4096 dvd unat len)"
    using page_range_new_ok [of start len "\<lparr>rg_start = start, rg_length = len\<rparr>"] by (auto simp: rg_lo_def)
  with Inl page_range_new_kind [OF Inl] show ?thesis
    by (auto simp: validate_guest_host_mapping_def)
next
  case (Inr r)
  then have r: "r = \<lparr>rg_start = start, rg_length = len\<rparr>" "range_ok r"
    "4096 dvd unat (hpa_get start)" "4096 dvd unat len"
    by (auto simp: page_range_new_ok rg_lo_def)
  from page_range_end_ok [OF r(2)] obtain stop where
    stop: "page_range_end r = Inr stop" "unat stop = unat (hpa_get start) + unat len"
    by (auto simp: rg_hi_def r(1))
  then show ?thesis
    using walk_mapping_iff [of "ownership_entries t" vm stop "hpa_get start"] assms Inr r
    by (simp add: validate_guest_host_mapping_def own_inv_def)
qed

section \<open>Properties of the ownership table\<close>

definition demo_range :: page_range where
  "demo_range = \<lparr>rg_start = HostPhysical 0x4000, rg_length = 0x2000\<rparr>"

definition demo_table :: page_ownership_table where
  "demo_table = \<lparr>ot_entries = [Some \<lparr>po_range = demo_range, po_owner = OwnerVm (VmId 7)\<rparr>, None], ot_len = 1\<rparr>"

lemma own_inv_new: "own_inv (ownership_new n)"
  by (simp add: own_inv_def ownership_new_def ownership_entries_def entries_ok_def List.map_filter_def)

lemma assign_demo: "assign (ownership_new 2) demo_range (OwnerVm (VmId 7)) = (Inr (), demo_table)"
  by (simp add: assign_def ownership_new_def ownership_entries_def List.map_filter_def demo_table_def replicate_small)

lemma demo_range_ok: "range_ok demo_range"
  by (simp add: range_ok_def demo_range_def rg_lo_def rg_hi_def)

lemma demo_table_inv: "own_inv demo_table"
  using assign_spec [OF own_inv_new [of 2] demo_range_ok, of "OwnerVm (VmId 7)"] assign_demo by auto

text \<open>
  Assigning a range to an owner changes the owner of exactly the addresses of the range, all of
  which had none before, keeps the table free of overlaps, and is refused without effect when the
  table is full or some address of the range is owned already.
\<close>

theorem assign_updates_owners:
  assumes "own_inv t" "range_ok r"
  shows "case assign t r w of
      (Inr _, t') \<Rightarrow> own_inv t' \<and> owner_map (ownership_entries t')
         = (\<lambda>a. if in_range r a then Some w else owner_map (ownership_entries t) a)
    | (Inl e, t') \<Rightarrow> t' = t \<and> (kind e = CapacityExceeded \<and> ot_len t = length (ot_entries t)
         \<or> kind e = Overlap \<and> (\<exists>a. in_range r a \<and> owner_map (ownership_entries t) a \<noteq> None))"
  using assign_spec [OF assms, of w] by (elim disjE exE conjE) auto

theorem assign_updates_owners_witness:
  "assign (ownership_new 2) demo_range (OwnerVm (VmId 7)) = (Inr (), demo_table)
    \<and> owner_map (ownership_entries demo_table)
      = (\<lambda>a. if in_range demo_range a then Some (OwnerVm (VmId 7)) else owner_map (ownership_entries (ownership_new 2)) a)"
  using assign_updates_owners [OF own_inv_new [of 2] demo_range_ok, of "OwnerVm (VmId 7)"] assign_demo by simp

text \<open>
  C9. The guest mapping check always terminates and accepts a host range if and only if the range
  is well formed (not empty, page aligned, not overflowing) and every single address of it is
  owned by that VM; an ill-formed range is an \<open>InvalidAddress\<close>, every other refusal a
  \<open>PermissionViolation\<close>.
\<close>

theorem validate_guest_host_mapping_exact:
  assumes "own_inv t"
  shows "(validate_guest_host_mapping t vm start len = Inr () \<longleftrightarrow>
      range_ok \<lparr>rg_start = start, rg_length = len\<rparr> \<and> 4096 dvd unat (hpa_get start) \<and> 4096 dvd unat len
      \<and> (\<forall>a. unat (hpa_get start) \<le> a \<and> a < unat (hpa_get start) + unat len
            \<longrightarrow> owner_map (ownership_entries t) a = Some (OwnerVm vm)))
    \<and> (\<forall>e. validate_guest_host_mapping t vm start len = Inl e \<longrightarrow>
      kind e = (if range_ok \<lparr>rg_start = start, rg_length = len\<rparr> \<and> 4096 dvd unat (hpa_get start) \<and> 4096 dvd unat len
                then PermissionViolation else InvalidAddress))"
  by (rule validate_cases [OF assms])

lemma validate_demo: "validate_guest_host_mapping demo_table (VmId 7) (HostPhysical 0x4000) 0x2000 = Inr ()"
  by (simp add: validate_guest_host_mapping_def page_range_new_def OWNER_PAGE_SIZE_def page_range_end_def
      host_physical_checked_add_def checked_add_def walk_mapping.simps demo_table_def demo_range_def
      ownership_entries_def List.map_filter_def page_range_contains_def)

theorem validate_guest_host_mapping_exact_witness:
  "validate_guest_host_mapping demo_table (VmId 7) (HostPhysical 0x4000) 0x2000 = Inr ()
    \<and> owner_map (ownership_entries demo_table) 0x5fff = Some (OwnerVm (VmId 7))"
  using validate_guest_host_mapping_exact [OF demo_table_inv, of "VmId 7" "HostPhysical 0x4000" "0x2000"]
    validate_demo by auto


definition demo_table2 :: page_ownership_table where
  "demo_table2 = \<lparr>ot_entries = [Some \<lparr>po_range = demo_range, po_owner = OwnerVm (VmId 7)\<rparr>,
     Some \<lparr>po_range = \<lparr>rg_start = HostPhysical 0x8000, rg_length = 0x1000\<rparr>, po_owner = OwnerVm (VmId 8)\<rparr>], ot_len = 2\<rparr>"

lemma demo_table2_inv: "own_inv demo_table2"
proof -
  have "range_ok \<lparr>rg_start = HostPhysical 0x8000, rg_length = 0x1000\<rparr>"
    by (simp add: range_ok_def rg_lo_def rg_hi_def)
  moreover have "assign demo_table \<lparr>rg_start = HostPhysical 0x8000, rg_length = 0x1000\<rparr> (OwnerVm (VmId 8))
      = (Inr (), demo_table2)"
    by (simp add: assign_def demo_table_def demo_table2_def demo_range_def ownership_entries_def
        List.map_filter_def page_range_overlaps_def page_range_end_def host_physical_checked_add_def checked_add_def)
  ultimately show ?thesis
    using assign_spec [OF demo_table_inv, of _ "OwnerVm (VmId 8)"] by fastforce
qed


section \<open>The walk is short\<close>

text \<open>The outer loop of \<open>validate_guest_host_mapping\<close> cut off after a number of evaluations of its condition.\<close>

fun walk_fuel :: "nat \<Rightarrow> vm_id \<Rightarrow> page_ownership list \<Rightarrow> u64 \<Rightarrow> u64 \<Rightarrow> unit core_result option" where
  "walk_fuel 0 vm entries stop cursor = None"
| "walk_fuel (Suc fuel) vm entries stop cursor =
     (if cursor < stop then
        case covered_until vm cursor stop entries of
          Inl e \<Rightarrow> Some (Inl e)
        | Inr (Some next) \<Rightarrow>
            if cursor < next then walk_fuel fuel vm entries stop next
            else Some (Inl (CoreError PermissionViolation ''guest mapping references unowned host pages''))
        | Inr None \<Rightarrow>
            Some (Inl (CoreError PermissionViolation ''guest mapping references unowned host pages''))
      else Some (Inr ()))"

definition ends_after :: "u64 \<Rightarrow> page_ownership \<Rightarrow> bool" where
  "ends_after c e = (case page_range_end (po_range e) of Inl _ \<Rightarrow> False | Inr en \<Rightarrow> c < en)"

lemma covered_until_Some:
  "covered_until vm c stop es = Inr (Some n) \<Longrightarrow>
     \<exists>e \<in> set es. \<exists>en. page_range_end (po_range e) = Inr en \<and> c < en \<and> n = min en stop"
  by (induction es) (auto simp: page_range_contains_def split: sum.splits bool.splits if_splits)

lemma ends_after_shrinks:
  assumes "covered_until vm c stop es = Inr (Some n)" "c < n" "n < stop"
  shows "length (filter (ends_after n) es) < length (filter (ends_after c) es)"
proof -
  from covered_until_Some [OF assms(1)] obtain e where "e \<in> set es" "ends_after c e" "\<not> ends_after n e"
    using assms(3) by (auto simp: ends_after_def min_def split: if_splits)
  moreover have "ends_after n e \<Longrightarrow> ends_after c e" for e
    using assms(2) by (auto simp: ends_after_def split: sum.splits)
  ultimately show ?thesis
  proof (induction es)
    case (Cons x xs)
    have "length (filter (ends_after n) xs) \<le> length (filter (ends_after c) xs)"
      using Cons.prems(4) by (induction xs) auto
    with Cons show ?case by (cases "x = e") auto
  qed simp
qed

lemma walk_fuel_enough:
  "length (filter (ends_after c) es) < fuel \<or> \<not> c < stop \<and> 0 < fuel \<Longrightarrow>
     walk_fuel fuel vm es stop c = Some (walk_mapping vm es stop c)"
proof (induction fuel arbitrary: c)
  case (Suc fuel)
  show ?case
  proof (cases "c < stop")
    case lt: True
    have next_fuel: "walk_fuel fuel vm es stop n = Some (walk_mapping vm es stop n)"
      if n: "covered_until vm c stop es = Inr (Some n)" "c < n" for n
    proof (rule Suc.IH)
      from covered_until_Some [OF n(1)] have "0 < length (filter (ends_after c) es)"
        by (force simp: length_greater_0_conv filter_empty_conv ends_after_def)
      then have "0 < fuel"
        using Suc.prems lt by linarith
      then show "length (filter (ends_after n) es) < fuel \<or> \<not> n < stop \<and> 0 < fuel"
        using ends_after_shrinks [OF n] Suc.prems lt by auto
    qed
    then show ?thesis
      using lt by (auto simp: walk_mapping.simps [of vm es stop c] split: sum.split option.split)
  qed (simp add: walk_mapping.simps [of vm es stop c])
qed simp

text \<open>
  C10. The ownership walk ends after at most one iteration per table entry: cut off after one more evaluation of
  its condition than the table has entries, the loop of \<open>validate_guest_host_mapping\<close> has already
  returned, with the result of the unbounded loop, for every table, range and VM.
\<close>

theorem walk_mapping_terminates:
  "walk_fuel (Suc (ot_len t)) vm (ownership_entries t) stop cursor
     = Some (walk_mapping vm (ownership_entries t) stop cursor)"
proof (rule walk_fuel_enough, rule disjI1)
  have "length (ownership_entries t) \<le> ot_len t"
    by (simp add: ownership_entries_def List.map_filter_def le_trans [OF length_filter_le])
  then show "length (filter (ends_after cursor) (ownership_entries t)) < Suc (ot_len t)"
    using length_filter_le [of "ends_after cursor" "ownership_entries t"] by linarith
qed

end
