(* ===== verification/Vm_Lifecycle.thy ===== *)
theory Vm_Lifecycle
  imports Core_Ids
begin

text \<open>
  The VM lifecycle of \<open>crates/aegishv-hypervisor-core/src/vm.rs\<close> as a step relation on \<open>Vm\<close>
  values, with the histories of entered states that the transition table admits.
\<close>

section \<open>Model\<close>

datatype vm_state = Created | Configured | Runnable | Running | Paused | Stopping | Stopped | Crashed

record vm =
  vm_ident :: vm_id
  vm_state :: vm_state

definition vm_new :: "vm_id \<Rightarrow> vm" where
  "vm_new i = \<lparr>vm_ident = i, vm_state = Created\<rparr>"

fun allowed_transition :: "vm_state \<Rightarrow> vm_state \<Rightarrow> bool" where
  "allowed_transition Created Configured = True"
| "allowed_transition Configured Runnable = True"
| "allowed_transition Runnable Running = True"
| "allowed_transition Running Paused = True"
| "allowed_transition Paused Running = True"
| "allowed_transition Running Stopping = True"
| "allowed_transition Paused Stopping = True"
| "allowed_transition Runnable Stopping = True"
| "allowed_transition Stopping Stopped = True"
| "allowed_transition Created Crashed = True"
| "allowed_transition Configured Crashed = True"
| "allowed_transition Runnable Crashed = True"
| "allowed_transition Running Crashed = True"
| "allowed_transition Paused Crashed = True"
| "allowed_transition Stopping Crashed = True"
| "allowed_transition _ _ = False"

definition vm_transition :: "vm \<Rightarrow> vm_state \<Rightarrow> unit core_result \<times> vm" where
  "vm_transition v next =
     (if \<not> allowed_transition (vm_state v) next
      then (Inl (CoreError InvalidTransition ''VM lifecycle transition is not allowed''), v)
      else (Inr (), v\<lparr>vm_state := next\<rparr>))"

section \<open>Histories\<close>

text \<open>\<open>vm_history v hs v'\<close>: from \<open>v\<close> the transitions to \<open>hs\<close> are accepted one by one and end in \<open>v'\<close>.\<close>

inductive vm_history :: "vm \<Rightarrow> vm_state list \<Rightarrow> vm \<Rightarrow> bool" where
  stay: "vm_history v [] v"
| enter: "vm_transition v next = (Inr (), v') \<Longrightarrow> vm_history v' hs v'' \<Longrightarrow> vm_history v (next # hs) v''"

inductive_simps vm_history_simps [simp]: "vm_history v [] v'" "vm_history v (h # hs) v'"

lemma vm_transition_ok:
  "vm_transition v next = (Inr u, v') \<longleftrightarrow> allowed_transition (vm_state v) next \<and> v' = v\<lparr>vm_state := next\<rparr>"
  by (auto simp: vm_transition_def)

lemma history_ident: "vm_history v hs v' \<Longrightarrow> vm_ident v' = vm_ident v"
  by (induction rule: vm_history.induct) (auto simp: vm_transition_ok)

lemma history_state: "vm_history v hs v' \<Longrightarrow> vm_state v' = last (vm_state v # hs)"
  by (induction rule: vm_history.induct) (auto simp: vm_transition_ok)

definition terminal :: "vm_state \<Rightarrow> bool" where
  "terminal s \<longleftrightarrow> s = Stopped \<or> s = Crashed"

lemma terminal_stuck: "terminal s \<longleftrightarrow> (\<forall>next. \<not> allowed_transition s next)"
proof -
  have "\<exists>next. allowed_transition s next" if "\<not> terminal s"
    using that by (intro exI [of _ Crashed]) (cases s; simp add: terminal_def)
  moreover have "\<not> allowed_transition s next" if "terminal s" for "next"
    using that by (cases "next") (auto simp: terminal_def)
  ultimately show ?thesis by blast
qed

text \<open>States from which no execution is possible any more.\<close>

lemma no_return:
  "vm_history v hs v' \<Longrightarrow> vm_state v \<in> {Stopping, Stopped, Crashed} \<Longrightarrow> set hs \<subseteq> {Stopped, Crashed}"
proof (induction rule: vm_history.induct)
  case (enter v "next" v' hs v'')
  then have "next = Stopped \<or> next = Crashed" "vm_state v' = next"
    by (cases "vm_state v"; cases "next"; simp add: vm_transition_ok)+
  with enter show ?case by auto
qed simp

section \<open>Properties of the lifecycle\<close>

text \<open>
  C37. A virtual machine never runs before it was configured: in every history that the transition
  table accepts for a new VM, if the VM ever enters \<open>Running\<close>, the first three states entered are
  \<open>Configured\<close>, \<open>Runnable\<close> and \<open>Running\<close>, in this order; and the identity of the VM never changes.
\<close>

theorem vm_configured_before_running:
  assumes "vm_history (vm_new i) hs v" "Running \<in> set hs"
  shows "take 3 hs = [Configured, Runnable, Running] \<and> vm_ident v = i"
proof -
  obtain h1 hs1 where 1: "hs = h1 # hs1"
    using assms(2) by (cases hs) auto
  then have h1: "allowed_transition Created h1" "vm_history \<lparr>vm_ident = i, vm_state = h1\<rparr> hs1 v"
    using assms(1) by (auto simp: vm_transition_ok vm_new_def)
  have "h1 = Configured"
    using h1 no_return [OF h1(2)] assms(2) 1 by (cases h1) auto
  moreover obtain h2 hs2 where 2: "hs1 = h2 # hs2"
    using assms(2) 1 \<open>h1 = Configured\<close> by (cases hs1) auto
  ultimately have h2: "allowed_transition Configured h2" "vm_history \<lparr>vm_ident = i, vm_state = h2\<rparr> hs2 v"
    using h1 by (auto simp: vm_transition_ok)
  have "h2 = Runnable"
    using h2 no_return [OF h2(2)] assms(2) 1 2 \<open>h1 = Configured\<close> by (cases h2) auto
  moreover obtain h3 hs3 where 3: "hs2 = h3 # hs3"
    using assms(2) 1 2 \<open>h1 = Configured\<close> \<open>h2 = Runnable\<close> by (cases hs2) auto
  ultimately have h3: "allowed_transition Runnable h3" "vm_history \<lparr>vm_ident = i, vm_state = h3\<rparr> hs3 v"
    using h2 by (auto simp: vm_transition_ok)
  have "h3 = Running"
    using h3 no_return [OF h3(2)] assms(2) 1 2 3 \<open>h1 = Configured\<close> \<open>h2 = Runnable\<close> by (cases h3) auto
  then show ?thesis
    using 1 2 3 \<open>h1 = Configured\<close> \<open>h2 = Runnable\<close> history_ident [OF assms(1)] by (simp add: vm_new_def)
qed

lemma history_demo:
  "vm_history (vm_new (VmId 1)) [Configured, Runnable, Running, Paused, Running, Stopping, Stopped]
     \<lparr>vm_ident = VmId 1, vm_state = Stopped\<rparr>"
  by (simp add: vm_transition_ok vm_new_def)

theorem vm_configured_before_running_witness:
  "vm_history (vm_new (VmId 1)) [Configured, Runnable, Running, Paused, Running, Stopping, Stopped]
     \<lparr>vm_ident = VmId 1, vm_state = Stopped\<rparr>
    \<and> take 3 [Configured, Runnable, Running, Paused, Running, Stopping, Stopped] = [Configured, Runnable, Running]"
  using vm_configured_before_running [OF history_demo] history_demo by simp

text \<open>
  C40. The lifecycle ends in \<open>Stopped\<close> or \<open>Crashed\<close> and nowhere else: exactly in these two states
  every transition is refused, with \<open>InvalidTransition\<close> and no effect; and from every other state
  an orderly sequence of transitions that leads to \<open>Stopped\<close> is accepted.
\<close>

theorem vm_terminal_states:
  "(if terminal (vm_state v)
    then \<forall>next. \<exists>e. vm_transition v next = (Inl e, v) \<and> kind e = InvalidTransition
    else \<exists>hs. vm_history v hs (v\<lparr>vm_state := Stopped\<rparr>) \<and> length hs \<le> 4)"
proof (cases "terminal (vm_state v)")
  case True
  then show ?thesis
    using terminal_stuck by (auto simp: vm_transition_def)
next
  case False
  let ?path = "case vm_state v of Created \<Rightarrow> [Configured, Runnable, Stopping, Stopped]
    | Configured \<Rightarrow> [Runnable, Stopping, Stopped] | Stopping \<Rightarrow> [Stopped] | _ \<Rightarrow> [Stopping, Stopped]"
  have "vm_history v ?path (v\<lparr>vm_state := Stopped\<rparr>) \<and> length ?path \<le> 4"
    using False by (cases "vm_state v") (auto simp: vm_transition_ok terminal_def)
  with False show ?thesis by auto
qed

end
