(* ===== verification/Percpu.thy ===== *)
theory Percpu
  imports Core_Ids
begin

text \<open>
  The per-CPU table of \<open>crates/aegishv-hypervisor-core/src/percpu.rs\<close>: one slot per physical CPU
  with its stack, its event ring and its online state. Every sequence of operations keeps the
  slots distinct and well formed; a CPU is online only with a stack and an event ring.
\<close>

section \<open>Model\<close>

datatype per_cpu_state = PcEmpty | PcReserved | PcStackReady | PcOnline | PcOffline | PcFailed

record per_cpu_slot =
  slot_cpu :: physical_cpu_id
  slot_state :: per_cpu_state
  slot_stack_base :: host_physical
  slot_stack_size :: u64
  slot_event_ring :: "u16 option"
  slot_epoch :: u64

record per_cpu_table =
  pt_slots :: "per_cpu_slot option list"
  pt_len :: nat

definition percpu_new :: "nat \<Rightarrow> per_cpu_table" where
  "percpu_new n = \<lparr>pt_slots = replicate n None, pt_len = 0\<rparr>"

abbreviation percpu_is_empty :: "per_cpu_table \<Rightarrow> bool" where
  "percpu_is_empty t \<equiv> pt_len t = 0"

definition slot_matches :: "physical_cpu_id \<Rightarrow> per_cpu_slot option \<Rightarrow> bool" where
  "slot_matches cpu entry = (case entry of None \<Rightarrow> False | Some slot \<Rightarrow> slot_cpu slot = cpu)"

definition percpu_find :: "per_cpu_table \<Rightarrow> physical_cpu_id \<Rightarrow> per_cpu_slot option" where
  "percpu_find t cpu =
     find (\<lambda>slot. slot_cpu slot = cpu) (List.map_filter id (take (pt_len t) (pt_slots t)))"

definition percpu_get :: "per_cpu_table \<Rightarrow> physical_cpu_id \<Rightarrow> per_cpu_slot option" where
  "percpu_get t cpu = percpu_find t cpu"

text \<open>The mutable reference that \<open>find_mut\<close> returns is the index of the slot.\<close>

definition percpu_find_mut :: "per_cpu_table \<Rightarrow> physical_cpu_id \<Rightarrow> nat core_result" where
  "percpu_find_mut t cpu =
     ok_or (position (slot_matches cpu) (take (pt_len t) (pt_slots t)))
       (CoreError InvalidState ''per-cpu table has no entry for this CPU'')"

definition reserve_stack ::
  "per_cpu_table \<Rightarrow> physical_cpu_id \<Rightarrow> host_physical \<Rightarrow> u64 \<Rightarrow> unit core_result \<times> per_cpu_table" where
  "reserve_stack t cpu stack_base stack_size =
     (if length (pt_slots t) \<le> pt_len t
      then (Inl (CoreError CapacityExceeded ''per-cpu table is full''), t)
      else if percpu_find t cpu \<noteq> None
      then (Inl (CoreError InvalidState ''per-cpu table already has an entry for this CPU''), t)
      else if stack_size < 16 * 1024 \<or> stack_size mod 4096 \<noteq> 0 \<or> hpa_get stack_base mod 4096 \<noteq> 0
      then (Inl (CoreError InvalidAddress ''per-cpu stack must be 4K aligned and at least 16 KiB''), t)
      else (Inr (), t\<lparr>pt_slots := (pt_slots t)[pt_len t := Some
              \<lparr>slot_cpu = cpu, slot_state = PcStackReady, slot_stack_base = stack_base,
               slot_stack_size = stack_size, slot_event_ring = None, slot_epoch = 0\<rparr>],
              pt_len := pt_len t + 1\<rparr>))"

definition put_slot :: "per_cpu_table \<Rightarrow> nat \<Rightarrow> per_cpu_slot \<Rightarrow> per_cpu_table" where
  "put_slot t i slot = t\<lparr>pt_slots := (pt_slots t)[i := Some slot]\<rparr>"

definition attach_event_ring ::
  "per_cpu_table \<Rightarrow> physical_cpu_id \<Rightarrow> u16 \<Rightarrow> unit core_result \<times> per_cpu_table" where
  "attach_event_ring t cpu ring =
     (case percpu_find_mut t cpu of
        Inl e \<Rightarrow> (Inl e, t)
      | Inr i \<Rightarrow>
         (let slot = the (pt_slots t ! i) in
          if slot_state slot = PcEmpty \<or> slot_state slot = PcFailed
          then (Inl (CoreError InvalidState ''per-cpu event ring cannot attach to an empty or failed slot''), t)
          else (Inr (), put_slot t i (slot\<lparr>slot_event_ring := Some ring\<rparr>))))"

definition mark_online :: "per_cpu_table \<Rightarrow> physical_cpu_id \<Rightarrow> unit core_result \<times> per_cpu_table" where
  "mark_online t cpu =
     (case percpu_find_mut t cpu of
        Inl e \<Rightarrow> (Inl e, t)
      | Inr i \<Rightarrow>
         (let slot = the (pt_slots t ! i) in
          if slot_state slot \<noteq> PcStackReady \<and> slot_state slot \<noteq> PcOffline
          then (Inl (CoreError InvalidTransition ''per-cpu slot can only enter online from stack-ready or offline''), t)
          else if slot_event_ring slot = None
          then (Inl (CoreError InvalidState ''per-cpu slot requires an event ring before it enters online''), t)
          else (Inr (), put_slot t i (slot\<lparr>slot_state := PcOnline, slot_epoch := slot_epoch slot + 1\<rparr>))))"

definition mark_offline :: "per_cpu_table \<Rightarrow> physical_cpu_id \<Rightarrow> unit core_result \<times> per_cpu_table" where
  "mark_offline t cpu =
     (case percpu_find_mut t cpu of
        Inl e \<Rightarrow> (Inl e, t)
      | Inr i \<Rightarrow>
         (let slot = the (pt_slots t ! i) in
          if slot_state slot \<noteq> PcOnline
          then (Inl (CoreError InvalidTransition ''per-cpu slot can only enter offline from online''), t)
          else (Inr (), put_slot t i (slot\<lparr>slot_state := PcOffline, slot_epoch := slot_epoch slot + 1\<rparr>))))"

section \<open>Invariant\<close>

text \<open>The live slots; all of them are filled.\<close>

definition live_slots :: "per_cpu_table \<Rightarrow> per_cpu_slot list" where
  "live_slots t = List.map_filter id (take (pt_len t) (pt_slots t))"

text \<open>
  A well-formed slot: a page-aligned stack of at least 16 KiB, an event ring once the CPU has been
  online, and an epoch that is odd exactly while the CPU is online.
\<close>

definition slot_ok :: "per_cpu_slot \<Rightarrow> bool" where
  "slot_ok s \<longleftrightarrow> slot_state s \<in> {PcStackReady, PcOnline, PcOffline}
     \<and> 16384 \<le> unat (slot_stack_size s) \<and> 4096 dvd unat (slot_stack_size s)
     \<and> 4096 dvd unat (hpa_get (slot_stack_base s))
     \<and> (slot_state s \<noteq> PcStackReady \<longrightarrow> slot_event_ring s \<noteq> None)
     \<and> (odd (unat (slot_epoch s)) \<longleftrightarrow> slot_state s = PcOnline)"

definition percpu_inv :: "per_cpu_table \<Rightarrow> bool" where
  "percpu_inv t \<longleftrightarrow> pt_len t \<le> length (pt_slots t)
     \<and> take (pt_len t) (pt_slots t) = map Some (live_slots t)
     \<and> distinct (map slot_cpu (live_slots t)) \<and> (\<forall>s \<in> set (live_slots t). slot_ok s)"

lemma percpu_invI:
  assumes "take (pt_len t) (pt_slots t) = map Some xs" "pt_len t \<le> length (pt_slots t)"
    "distinct (map slot_cpu xs)" "\<forall>s \<in> set xs. slot_ok s"
  shows "percpu_inv t" "live_slots t = xs"
  using assms by (simp_all add: percpu_inv_def live_slots_def)

lemma percpu_inv_new: "percpu_inv (percpu_new n)"
  by (simp add: percpu_inv_def percpu_new_def live_slots_def)

lemma odd_epoch: "odd (unat (e + 1 :: u64)) \<longleftrightarrow> even (unat e)"
  by (simp add: unat_word_ariths(1) dvd_mod_iff)

lemma find_mut_cases [consumes 1]:
  assumes inv: "percpu_inv t"
  obtains (none) e where "percpu_find_mut t cpu = Inl e" "kind e = InvalidState" "cpu \<notin> slot_cpu ` set (live_slots t)"
  | (found) us s vs where "percpu_find_mut t cpu = Inr (length us)" "live_slots t = us @ s # vs" "slot_cpu s = cpu"
      "pt_slots t ! length us = Some s"
proof (cases "position (slot_matches cpu) (take (pt_len t) (pt_slots t))")
  case None
  then have "cpu \<notin> slot_cpu ` set (live_slots t)"
    using inv by (auto simp: position_None percpu_inv_def slot_matches_def)
  with None none show thesis by (simp add: percpu_find_mut_def)
next
  case (Some i)
  let ?xs = "live_slots t"
  have tk: "take (pt_len t) (pt_slots t) = map Some ?xs"
    using inv by (simp add: percpu_inv_def)
  have i: "i < length ?xs" "slot_cpu (?xs ! i) = cpu"
    using position_SomeD [OF Some] by (auto simp: tk slot_matches_def)
  moreover have "pt_slots t ! i = Some (?xs ! i)"
    using i(1) tk by (metis length_map length_take min_less_iff_conj nth_map nth_take)
  ultimately show thesis
    using found [of "take i ?xs" "?xs ! i" "drop (Suc i) ?xs"] Some
    by (simp add: percpu_find_mut_def id_take_nth_drop [symmetric])
qed

lemma put_slot_step:
  assumes inv: "percpu_inv t" and live: "live_slots t = us @ s # vs"
    and s': "slot_cpu s' = slot_cpu s" "slot_ok s'"
  shows "percpu_inv (put_slot t (length us) s')" "live_slots (put_slot t (length us) s') = us @ s' # vs"
proof -
  have "take (pt_len t) (pt_slots t) = map Some us @ Some s # map Some vs"
    using inv live by (simp add: percpu_inv_def)
  from take_update_mid [OF this, of "Some s'"]
  have tk: "take (pt_len (put_slot t (length us) s')) (pt_slots (put_slot t (length us) s')) = map Some (us @ s' # vs)"
    by (simp add: put_slot_def)
  have "pt_len (put_slot t (length us) s') \<le> length (pt_slots (put_slot t (length us) s'))"
    using inv by (simp add: percpu_inv_def put_slot_def)
  moreover have "distinct (map slot_cpu (us @ s' # vs))" "\<forall>x \<in> set (us @ s' # vs). slot_ok x"
    using inv live s' by (auto simp: percpu_inv_def)
  ultimately show "percpu_inv (put_slot t (length us) s')" "live_slots (put_slot t (length us) s') = us @ s' # vs"
    using percpu_invI [OF tk] by blast+
qed

lemma percpu_find_iff:
  assumes "percpu_inv t"
  shows "percpu_find t cpu = Some s \<longleftrightarrow> s \<in> set (live_slots t) \<and> slot_cpu s = cpu"
proof -
  have "distinct (map slot_cpu xs) \<Longrightarrow> find (\<lambda>s. slot_cpu s = cpu) xs = Some s \<longleftrightarrow> s \<in> set xs \<and> slot_cpu s = cpu" for xs
    by (induction xs) (auto simp: image_iff)
  then show ?thesis
    using assms by (simp add: percpu_find_def live_slots_def [symmetric] percpu_inv_def)
qed


section \<open>Operations keep the invariant\<close>

text \<open>
  What a successful operation does to the slots, seen through \<open>get\<close>: only the slot of the given
  CPU changes, to the given new slot.
\<close>

definition updates :: "per_cpu_table \<Rightarrow> physical_cpu_id \<Rightarrow> per_cpu_slot \<Rightarrow> per_cpu_table \<Rightarrow> bool" where
  "updates t cpu s' t' \<longleftrightarrow> percpu_inv t' \<and> percpu_get t' = (percpu_get t)(cpu \<mapsto> s')"

lemma put_slot_updates:
  assumes inv: "percpu_inv t" and live: "live_slots t = us @ s # vs" and s': "slot_cpu s' = slot_cpu s" "slot_ok s'"
  shows "updates t (slot_cpu s) s' (put_slot t (length us) s')"
proof -
  note put = put_slot_step [OF assms]
  have apart: "slot_cpu x \<noteq> slot_cpu s" if "x \<in> set us \<union> set vs" for x
  proof
    assume "slot_cpu x = slot_cpu s"
    then have "slot_cpu s \<in> slot_cpu ` (set us \<union> set vs)"
      using that by (metis imageI)
    then show False
      using inv live by (auto simp: percpu_inv_def)
  qed
  have "percpu_find (put_slot t (length us) s') c = ((percpu_find t)(slot_cpu s \<mapsto> s')) c" for c
  proof (rule option_eqI)
    fix x show "percpu_find (put_slot t (length us) s') c = Some x \<longleftrightarrow> ((percpu_find t)(slot_cpu s \<mapsto> s')) c = Some x"
      using percpu_find_iff [OF put(1), of c x] percpu_find_iff [OF inv, of c x] put(2) live s'(1) apart
      by auto
  qed
  then show ?thesis
    using put(1) by (auto simp: updates_def percpu_get_def)
qed

lemma reserve_stack_step:
  assumes inv: "percpu_inv t" and ok: "reserve_stack t cpu base sz = (Inr u, t')"
  shows "updates t cpu \<lparr>slot_cpu = cpu, slot_state = PcStackReady, slot_stack_base = base,
      slot_stack_size = sz, slot_event_ring = None, slot_epoch = 0\<rparr> t' \<and> percpu_get t cpu = None"
proof -
  define s where "s = \<lparr>slot_cpu = cpu, slot_state = PcStackReady, slot_stack_base = base,
      slot_stack_size = sz, slot_event_ring = None, slot_epoch = 0\<rparr>"
  have c: "pt_len t < length (pt_slots t)" "percpu_find t cpu = None" "\<not> sz < 16 * 1024"
    "sz mod 4096 = 0" "hpa_get base mod 4096 = 0"
    and t': "t' = t\<lparr>pt_slots := (pt_slots t)[pt_len t := Some s], pt_len := pt_len t + 1\<rparr>"
    using ok by (auto simp: reserve_stack_def s_def not_le split: if_splits)
  have sok: "slot_ok s"
    using c(3-5) by (simp add: slot_ok_def s_def word_less_nat_alt word_unat_eq_iff unat_mod_distrib mod_eq_0_iff_dvd)
  have tk: "take (pt_len t') (pt_slots t') = map Some (live_slots t @ [s])"
    using inv c(1) by (simp add: t' percpu_inv_def take_Suc_conv_app_nth)
  have new: "cpu \<notin> slot_cpu ` set (live_slots t)"
    using c(2) percpu_find_iff [OF inv, of cpu] by auto
  have "pt_len t' \<le> length (pt_slots t')"
    using c(1) by (simp add: t')
  moreover have "distinct (map slot_cpu (live_slots t @ [s]))" "\<forall>x \<in> set (live_slots t @ [s]). slot_ok x"
    using inv new sok by (auto simp: percpu_inv_def s_def)
  ultimately have inv': "percpu_inv t'" "live_slots t' = live_slots t @ [s]"
    using percpu_invI [OF tk] by blast+
  have "percpu_find t' x = ((percpu_find t)(cpu \<mapsto> s)) x" for x
  proof (rule option_eqI)
    fix y show "percpu_find t' x = Some y \<longleftrightarrow> ((percpu_find t)(cpu \<mapsto> s)) x = Some y"
      using percpu_find_iff [OF inv'(1), of x y] percpu_find_iff [OF inv, of x y] inv'(2) new
      by (auto simp: s_def)
  qed
  then show ?thesis
    using inv'(1) c(2) by (auto simp: updates_def percpu_get_def s_def)
qed

lemma slot_op_step:
  assumes inv: "percpu_inv t" and s: "percpu_find_mut t cpu = Inr (length us)" "live_slots t = us @ s # vs"
    "slot_cpu s = cpu" and s': "slot_cpu s' = slot_cpu s" "slot_ok s \<Longrightarrow> slot_ok s'"
  shows "percpu_get t cpu = Some s \<and> updates t cpu s' (put_slot t (length us) s')"
  using put_slot_updates [OF inv s(2) s'(1)] s'(2) inv s percpu_find_iff [OF inv, of cpu s]
  by (simp add: percpu_inv_def percpu_get_def)

lemma attach_step:
  assumes inv: "percpu_inv t"
  shows "case attach_event_ring t cpu ring of
      (Inr _, t') \<Rightarrow> \<exists>s. percpu_get t cpu = Some s \<and> updates t cpu (s\<lparr>slot_event_ring := Some ring\<rparr>) t'
    | (Inl e, t') \<Rightarrow> t' = t"
  using inv
proof (cases rule: find_mut_cases [where cpu = cpu])
  case (found us s vs)
  then show ?thesis
    using slot_op_step [OF inv found(1-3), of "s\<lparr>slot_event_ring := Some ring\<rparr>"]
    by (auto simp: attach_event_ring_def Let_def slot_ok_def)
qed (simp add: attach_event_ring_def)

lemma online_step:
  assumes inv: "percpu_inv t"
  shows "case mark_online t cpu of
      (Inr _, t') \<Rightarrow> \<exists>s. percpu_get t cpu = Some s \<and> slot_state s \<in> {PcStackReady, PcOffline} \<and> slot_event_ring s \<noteq> None
        \<and> updates t cpu (s\<lparr>slot_state := PcOnline, slot_epoch := slot_epoch s + 1\<rparr>) t'
    | (Inl e, t') \<Rightarrow> t' = t"
  using inv
proof (cases rule: find_mut_cases [where cpu = cpu])
  case (found us s vs)
  have "slot_ok s"
    using inv found(2) by (simp add: percpu_inv_def)
  then show ?thesis
    using slot_op_step [OF inv found(1-3), of "s\<lparr>slot_state := PcOnline, slot_epoch := slot_epoch s + 1\<rparr>"] found
    by (auto simp: mark_online_def Let_def slot_ok_def odd_epoch)
qed (simp add: mark_online_def)

lemma offline_step:
  assumes inv: "percpu_inv t"
  shows "case mark_offline t cpu of
      (Inr _, t') \<Rightarrow> \<exists>s. percpu_get t cpu = Some s \<and> slot_state s = PcOnline
        \<and> updates t cpu (s\<lparr>slot_state := PcOffline, slot_epoch := slot_epoch s + 1\<rparr>) t'
    | (Inl e, t') \<Rightarrow> t' = t"
  using inv
proof (cases rule: find_mut_cases [where cpu = cpu])
  case (found us s vs)
  have "slot_ok s"
    using inv found(2) by (simp add: percpu_inv_def)
  then show ?thesis
    using slot_op_step [OF inv found(1-3), of "s\<lparr>slot_state := PcOffline, slot_epoch := slot_epoch s + 1\<rparr>"] found
    by (auto simp: mark_offline_def Let_def slot_ok_def odd_epoch)
qed (simp add: mark_offline_def)


section \<open>Sequences of operations\<close>

datatype percpu_op =
    ReserveStack physical_cpu_id host_physical u64
  | AttachRing physical_cpu_id u16
  | MarkOnline physical_cpu_id
  | MarkOffline physical_cpu_id

fun percpu_op_step :: "per_cpu_table \<Rightarrow> percpu_op \<Rightarrow> unit core_result \<times> per_cpu_table" where
  "percpu_op_step t (ReserveStack cpu base sz) = reserve_stack t cpu base sz"
| "percpu_op_step t (AttachRing cpu ring) = attach_event_ring t cpu ring"
| "percpu_op_step t (MarkOnline cpu) = mark_online t cpu"
| "percpu_op_step t (MarkOffline cpu) = mark_offline t cpu"

definition percpu_run :: "per_cpu_table \<Rightarrow> percpu_op list \<Rightarrow> per_cpu_table" where
  "percpu_run t ops = foldl (\<lambda>t op. snd (percpu_op_step t op)) t ops"

lemma reserve_stack_error: "reserve_stack t cpu base sz = (Inl e, t') \<Longrightarrow> t' = t"
  by (auto simp: reserve_stack_def split: if_splits)

lemma percpu_op_inv: "percpu_inv t \<Longrightarrow> percpu_inv (snd (percpu_op_step t op))"
proof (cases op)
  case (ReserveStack cpu base sz)
  assume inv: "percpu_inv t"
  obtain r t' where r: "reserve_stack t cpu base sz = (r, t')" by (rule prod.exhaust)
  then show ?thesis
    using reserve_stack_step [OF inv, of cpu base sz _ t'] reserve_stack_error [of t cpu base sz _ t'] inv ReserveStack
    by (cases r) (auto simp: updates_def)
next
  case (AttachRing cpu ring)
  assume inv: "percpu_inv t"
  then show ?thesis
    using attach_step [OF inv, of cpu ring] AttachRing by (auto simp: updates_def split: prod.splits sum.splits)
next
  case (MarkOnline cpu)
  assume inv: "percpu_inv t"
  then show ?thesis
    using online_step [OF inv, of cpu] MarkOnline by (auto simp: updates_def split: prod.splits sum.splits)
next
  case (MarkOffline cpu)
  assume inv: "percpu_inv t"
  then show ?thesis
    using offline_step [OF inv, of cpu] MarkOffline by (auto simp: updates_def split: prod.splits sum.splits)
qed

lemma percpu_run_inv: "percpu_inv t \<Longrightarrow> percpu_inv (percpu_run t ops)"
  unfolding percpu_run_def by (induction ops arbitrary: t) (simp_all add: percpu_op_inv)

section \<open>Properties of the per-CPU table\<close>

text \<open>
  C38. After any sequence of per-CPU operations, successful or refused, a CPU that is online has a
  page-aligned stack of at least 16 KiB and an event ring, and its scheduler epoch is odd exactly
  while it is online: going online and offline strictly alternate, also across the wrap of the
  64-bit epoch.
\<close>

theorem percpu_online_is_ready:
  assumes "percpu_get (percpu_run (percpu_new n) ops) cpu = Some slot"
  shows "16384 \<le> unat (slot_stack_size slot) \<and> 4096 dvd unat (slot_stack_size slot)
    \<and> 4096 dvd unat (hpa_get (slot_stack_base slot))
    \<and> (slot_state slot = PcOnline \<longrightarrow> slot_event_ring slot \<noteq> None)
    \<and> (odd (unat (slot_epoch slot)) \<longleftrightarrow> slot_state slot = PcOnline)"
proof -
  have inv: "percpu_inv (percpu_run (percpu_new n) ops)"
    by (rule percpu_run_inv [OF percpu_inv_new])
  then have "slot_ok slot"
    using assms percpu_find_iff [OF inv, of cpu slot] by (auto simp: percpu_inv_def percpu_get_def)
  then show ?thesis
    by (auto simp: slot_ok_def)
qed

definition demo_percpu_ops :: "percpu_op list" where
  "demo_percpu_ops = [ReserveStack (PhysicalCpuId 1) (HostPhysical 0x2000) 0x4000, MarkOnline (PhysicalCpuId 1),
     AttachRing (PhysicalCpuId 1) 0, MarkOnline (PhysicalCpuId 1)]"

lemma percpu_demo:
  "percpu_get (percpu_run (percpu_new 2) demo_percpu_ops) (PhysicalCpuId 1)
     = Some \<lparr>slot_cpu = PhysicalCpuId 1, slot_state = PcOnline, slot_stack_base = HostPhysical 0x2000,
         slot_stack_size = 0x4000, slot_event_ring = Some 0, slot_epoch = 1\<rparr>"
  by (simp add: percpu_run_def demo_percpu_ops_def percpu_new_def reserve_stack_def percpu_find_def
      List.map_filter_def replicate_small attach_event_ring_def mark_online_def percpu_find_mut_def
      slot_matches_def Let_def put_slot_def percpu_get_def)

theorem percpu_online_is_ready_witness:
  "percpu_get (percpu_run (percpu_new 2) demo_percpu_ops) (PhysicalCpuId 1)
     = Some \<lparr>slot_cpu = PhysicalCpuId 1, slot_state = PcOnline, slot_stack_base = HostPhysical 0x2000,
         slot_stack_size = 0x4000, slot_event_ring = Some 0, slot_epoch = 1\<rparr>
    \<and> odd (unat (1 :: u64))"
  using percpu_online_is_ready [OF percpu_demo] percpu_demo by simp

end
