(* ===== verification/Scheduler.thy ===== *)
theory Scheduler
  imports Bounded_Queue "HOL-Library.Multiset"
begin

text \<open>
  The vCPU scheduler of \<open>crates/aegishv-hypervisor-core/src/scheduler.rs\<close>: a ring of runnable
  vCPUs, the vCPU that runs on each physical CPU, and a table of halted vCPUs. The invariant
  says that every known vCPU is in exactly one of the three places; each operation is shown to
  implement the corresponding step on lists.
\<close>

section \<open>Model\<close>

record vcpu_ref =
  ref_vm_id :: vm_id
  ref_vcpu_id :: vcpu_id

definition vcpu_ref_new :: "vm_id \<Rightarrow> vcpu_id \<Rightarrow> vcpu_ref" where
  "vcpu_ref_new vm vcpu = \<lparr>ref_vm_id = vm, ref_vcpu_id = vcpu\<rparr>"

datatype vcpu_run_state = RunRunnable | RunRunning physical_cpu_id | RunHalted

record vcpu_scheduler =
  vs_queue :: "vcpu_ref option list"
  vs_head :: nat
  vs_len :: nat
  vs_running :: "vcpu_ref option list"
  vs_halted :: "vcpu_ref option list"
  vs_halted_len :: nat

definition scheduler_new :: "nat \<Rightarrow> nat \<Rightarrow> vcpu_scheduler" where
  "scheduler_new q p =
     \<lparr>vs_queue = replicate q None, vs_head = 0, vs_len = 0, vs_running = replicate p None,
      vs_halted = replicate q None, vs_halted_len = 0\<rparr>"

abbreviation sched_queued :: "vcpu_scheduler \<Rightarrow> nat" where
  "sched_queued s \<equiv> vs_len s"

definition sched_contains :: "vcpu_scheduler \<Rightarrow> vcpu_ref \<Rightarrow> bool" where
  "sched_contains s v \<longleftrightarrow>
     Some v \<in> set (vs_queue s) \<or> Some v \<in> set (vs_running s) \<or> Some v \<in> set (vs_halted s)"

definition push_queue :: "vcpu_scheduler \<Rightarrow> vcpu_ref \<Rightarrow> unit core_result \<times> vcpu_scheduler" where
  "push_queue s v =
     (let q = length (vs_queue s) in
      if vs_len s = q then (Inl (CoreError RingFull ''vCPU run queue is full''), s)
      else (Inr (), s\<lparr>vs_queue := (vs_queue s)[(vs_head s + vs_len s) mod q := Some v],
                      vs_len := vs_len s + 1\<rparr>))"

definition pop_queue :: "vcpu_scheduler \<Rightarrow> vcpu_ref option \<times> vcpu_scheduler" where
  "pop_queue s =
     (if vs_len s = 0 then (None, s)
      else (vs_queue s ! vs_head s,
            s\<lparr>vs_queue := (vs_queue s)[vs_head s := None],
              vs_head := (vs_head s + 1) mod length (vs_queue s), vs_len := vs_len s - 1\<rparr>))"

definition enqueue :: "vcpu_scheduler \<Rightarrow> vcpu_ref \<Rightarrow> unit core_result \<times> vcpu_scheduler" where
  "enqueue s v =
     (if sched_contains s v
      then (Inl (CoreError InvalidState ''vCPU is already queued, running, or halted''), s)
      else push_queue s v)"

definition schedule_on ::
  "vcpu_scheduler \<Rightarrow> physical_cpu_id \<Rightarrow> vcpu_ref option core_result \<times> vcpu_scheduler" where
  "schedule_on s pcpu =
     (let index = unat (physical_cpu_id_get pcpu) in
      if length (vs_running s) \<le> index
      then (Inl (CoreError InvalidId ''physical CPU is outside the scheduler mapping table''), s)
      else if vs_running s ! index \<noteq> None
      then (Inl (CoreError InvalidState ''physical CPU already has a running vCPU''), s)
      else case pop_queue s of
          (None, s') \<Rightarrow> (Inr None, s')
        | (Some v, s') \<Rightarrow> (Inr (Some v), s'\<lparr>vs_running := (vs_running s')[index := Some v]\<rparr>))"

definition halt_running :: "vcpu_scheduler \<Rightarrow> physical_cpu_id \<Rightarrow> vcpu_ref core_result \<times> vcpu_scheduler" where
  "halt_running s pcpu =
     (let index = unat (physical_cpu_id_get pcpu) in
      if length (vs_running s) \<le> index
      then (Inl (CoreError InvalidId ''physical CPU is outside the scheduler mapping table''), s)
      else case vs_running s ! index of
          None \<Rightarrow> (Inl (CoreError InvalidState ''physical CPU has no running vCPU to halt''), s)
        | Some v \<Rightarrow>
            if vs_halted_len s = length (vs_queue s)
            then (Inl (CoreError CapacityExceeded ''halted vCPU table is full''), s)
            else (Inr v, s\<lparr>vs_halted := (vs_halted s)[vs_halted_len s := Some v],
                           vs_halted_len := vs_halted_len s + 1,
                           vs_running := (vs_running s)[index := None]\<rparr>))"

definition remove_option :: "vcpu_ref option list \<Rightarrow> nat \<Rightarrow> nat \<Rightarrow> vcpu_ref option list \<times> nat" where
  "remove_option entries len index = ((shift_left index len entries)[len - 1 := None], len - 1)"

definition wake :: "vcpu_scheduler \<Rightarrow> vcpu_ref \<Rightarrow> unit core_result \<times> vcpu_scheduler" where
  "wake s v =
     (case position (\<lambda>entry. entry = Some v) (take (vs_halted_len s) (vs_halted s)) of
        None \<Rightarrow> (Inl (CoreError InvalidState ''vCPU is not halted''), s)
      | Some index \<Rightarrow>
          (case push_queue s v of
             (Inl e, s') \<Rightarrow> (Inl e, s')
           | (Inr _, s') \<Rightarrow>
               (let (entries, len) = remove_option (vs_halted s') (vs_halted_len s') index
                in (Inr (), s'\<lparr>vs_halted := entries, vs_halted_len := len\<rparr>))))"

definition state_of :: "vcpu_scheduler \<Rightarrow> vcpu_ref \<Rightarrow> vcpu_run_state option" where
  "state_of s v =
     (if Some v \<in> set (vs_queue s) then Some RunRunnable
      else case position (\<lambda>entry. entry = Some v) (vs_running s) of
          Some index \<Rightarrow>
            (case physical_cpu_id_new (of_nat index) of
               Inl _ \<Rightarrow> None
             | Inr pcpu \<Rightarrow> Some (RunRunning pcpu))
        | None \<Rightarrow>
            if Some v \<in> set (take (vs_halted_len s) (vs_halted s)) then Some RunHalted else None)"

section \<open>The abstract scheduler\<close>

text \<open>The three places as lists.\<close>

definition runnable :: "vcpu_scheduler \<Rightarrow> vcpu_ref list" where
  "runnable s = List.map_filter id (rotate (vs_head s) (vs_queue s))"

definition running :: "vcpu_scheduler \<Rightarrow> vcpu_ref list" where
  "running s = List.map_filter id (vs_running s)"

definition halted :: "vcpu_scheduler \<Rightarrow> vcpu_ref list" where
  "halted s = List.map_filter id (vs_halted s)"

text \<open>
  The shape of the arrays: the ring, read from its head, and the halted table hold their entries
  in front and \<open>None\<close> behind.
\<close>

definition shape :: "vcpu_scheduler \<Rightarrow> bool" where
  "shape s \<longleftrightarrow>
     length (vs_halted s) = length (vs_queue s)
     \<and> ring_ok (vs_queue s) (vs_head s) (vs_len s) \<and> vs_halted_len s \<le> length (vs_halted s)
     \<and> rotate (vs_head s) (vs_queue s)
         = map Some (runnable s) @ replicate (length (vs_queue s) - vs_len s) None
     \<and> vs_halted s = map Some (halted s) @ replicate (length (vs_halted s) - vs_halted_len s) None"

definition sched_inv :: "vcpu_scheduler \<Rightarrow> bool" where
  "sched_inv s \<longleftrightarrow> shape s \<and> distinct (runnable s @ running s @ halted s)"

lemma map_filter_app [simp]: "List.map_filter id (xs @ ys) = List.map_filter id xs @ List.map_filter id ys"
  by (simp add: List.map_filter_def)

lemma map_filter_Some_replicate [simp]:
  "List.map_filter id (map Some xs) = xs" "List.map_filter id (replicate n None) = []"
  by (induction xs) (simp_all add: List.map_filter_def)

lemma set_map_filter: "v \<in> set (List.map_filter id xs) \<longleftrightarrow> Some v \<in> set xs"
  by (induction xs) (auto simp: List.map_filter_def split: option.splits)

lemma sched_inv_new: "sched_inv (scheduler_new q p)"
  by (simp add: sched_inv_def scheduler_new_def runnable_def running_def halted_def shape_def)

text \<open>The window of the ring, read from the head.\<close>

lemma rotate_update:
  assumes "i < length xs"
  shows "rotate h (xs[(h + i) mod length xs := x]) = (rotate h xs)[i := x]"
proof (rule nth_equalityI)
  fix j assume "j < length (rotate h (xs[(h + i) mod length xs := x]))"
  then have j: "j < length xs" by simp
  then have "(h + i) mod length xs = (h + j) mod length xs \<longleftrightarrow> i = j"
    using ring_index_inj [of h i "length xs" j] assms by auto
  moreover have "(h + i) mod length xs < length xs"
    using j by (intro mod_less_divisor) linarith
  ultimately show "rotate h (xs[(h + i) mod length xs := x]) ! j = (rotate h xs)[i := x] ! j"
    using j by (cases "i = j") (simp_all add: nth_rotate)
qed simp

lemma rotate_head: "xs \<noteq> [] \<Longrightarrow> h < length xs \<Longrightarrow> rotate h xs ! 0 = xs ! h"
  by (simp add: nth_rotate)

lemma rotate_pop:
  assumes "xs \<noteq> []" "h < length xs"
  shows "rotate ((h + 1) mod length xs) (xs[h := x]) = tl (rotate h xs) @ [x]"
proof -
  have "rotate (h mod length xs + 1) (xs[h := x]) = rotate1 (rotate h (xs[(h + 0) mod length xs := x]))"
    using assms(2) by simp
  also have "\<dots> = rotate1 ((rotate h xs)[0 := x])"
    using assms rotate_update [of 0 xs h x] by simp
  also have "\<dots> = tl (rotate h xs) @ [x]"
    using assms(1) by (cases "rotate h xs") auto
  finally show ?thesis
    using assms(2) by (metis length_list_update mod_less rotate_conv_mod)
qed


lemma shapeD:
  assumes "shape s"
  shows "length (vs_halted s) = length (vs_queue s)" "ring_ok (vs_queue s) (vs_head s) (vs_len s)"
    "rotate (vs_head s) (vs_queue s) = map Some (runnable s) @ replicate (length (vs_queue s) - vs_len s) None"
    "vs_halted s = map Some (halted s) @ replicate (length (vs_halted s) - vs_halted_len s) None"
    "length (runnable s) = vs_len s" "length (halted s) = vs_halted_len s"
    "vs_len s \<le> length (vs_queue s)" "vs_halted_len s \<le> length (vs_halted s)"
proof -
  show *: "length (vs_halted s) = length (vs_queue s)" "ring_ok (vs_queue s) (vs_head s) (vs_len s)"
    "rotate (vs_head s) (vs_queue s) = map Some (runnable s) @ replicate (length (vs_queue s) - vs_len s) None"
    "vs_halted s = map Some (halted s) @ replicate (length (vs_halted s) - vs_halted_len s) None"
    "vs_halted_len s \<le> length (vs_halted s)"
    using assms unfolding shape_def by blast+
  show le: "vs_len s \<le> length (vs_queue s)"
    using *(2) by (simp add: ring_ok_def)
  show "length (runnable s) = vs_len s"
    using arg_cong [OF *(3), of length] le by simp
  show "length (halted s) = vs_halted_len s"
    using arg_cong [OF *(4), of length] *(5) by simp
qed

text \<open>A step that only touches the run queue.\<close>

definition queue_step :: "vcpu_scheduler \<Rightarrow> vcpu_scheduler \<Rightarrow> vcpu_ref list \<Rightarrow> bool" where
  "queue_step s s' q \<longleftrightarrow> shape s' \<and> runnable s' = q \<and> vs_running s' = vs_running s
     \<and> vs_halted s' = vs_halted s \<and> vs_halted_len s' = vs_halted_len s
     \<and> length (vs_queue s') = length (vs_queue s)"

lemma queue_stepI:
  assumes "shape s" "s' = s\<lparr>vs_queue := a, vs_head := h, vs_len := n\<rparr>" "length a = length (vs_queue s)"
    "rotate h a = map Some q @ replicate (length a - n) None" "ring_ok a h n"
  shows "queue_step s s' q"
proof -
  have "runnable s' = q"
    using assms(2,4) by (simp add: runnable_def)
  moreover have "halted s' = halted s"
    using assms(2) by (simp add: halted_def)
  moreover have "vs_halted s' = vs_halted s" "vs_halted_len s' = vs_halted_len s" "vs_running s' = vs_running s"
    "vs_queue s' = a" "vs_head s' = h" "vs_len s' = n"
    using assms(2) by simp_all
  ultimately show ?thesis
    using assms(1,3-5) unfolding queue_step_def shape_def by metis
qed

lemma push_queue_spec:
  assumes sh: "shape s"
  shows "if vs_len s = length (vs_queue s)
    then \<exists>e. push_queue s v = (Inl e, s) \<and> kind e = RingFull
    else \<exists>s'. push_queue s v = (Inr (), s') \<and> queue_step s s' (runnable s @ [v])"
proof (cases "vs_len s = length (vs_queue s)")
  case True
  then show ?thesis by (simp add: push_queue_def)
next
  case False
  note d = shapeD [OF sh]
  let ?q = "vs_queue s" and ?a = "(vs_queue s)[(vs_head s + vs_len s) mod length (vs_queue s) := Some v]"
  have lt: "vs_len s < length ?q"
    using False d(7) by simp
  have "rotate (vs_head s) ?a = (map Some (runnable s) @ replicate (length ?q - vs_len s) None)[vs_len s := Some v]"
    using rotate_update [OF lt, of "vs_head s" "Some v"] d(3) by simp
  also have "\<dots> = map Some (runnable s @ [v]) @ replicate (length ?q - Suc (vs_len s)) None"
    using lt d(5) by (simp add: list_update_append Suc_diff_Suc flip: replicate_Suc)
      (metis Suc_diff_Suc list_update_code(2) replicate_Suc)
  finally have "queue_step s (s\<lparr>vs_queue := ?a, vs_head := vs_head s, vs_len := Suc (vs_len s)\<rparr>) (runnable s @ [v])"
    using ring_ok_push [OF d(2) lt] by (intro queue_stepI [OF sh refl]) simp_all
  then show ?thesis
    using False by (simp add: push_queue_def Let_def)
qed

lemma pop_queue_spec:
  assumes sh: "shape s"
  shows "runnable s = [] \<Longrightarrow> pop_queue s = (None, s)"
    "runnable s = v # vs \<Longrightarrow> \<exists>s'. pop_queue s = (Some v, s') \<and> queue_step s s' vs"
proof -
  note d = shapeD [OF sh]
  show "runnable s = [] \<Longrightarrow> pop_queue s = (None, s)"
    using d(5) by (simp add: pop_queue_def)
  assume v: "runnable s = v # vs"
  let ?q = "vs_queue s"
  have len: "vs_len s = Suc (length vs)" "?q \<noteq> []" "vs_head s < length ?q"
    using d(2,5,7) v by (auto simp: ring_ok_def)
  have hd: "?q ! vs_head s = Some v"
    using rotate_head [OF len(2,3)] d(3) v by simp
  have "rotate ((vs_head s + 1) mod length ?q) (?q[vs_head s := None])
      = map Some vs @ replicate (length ?q - (vs_len s - 1)) None"
    using rotate_pop [OF len(2,3), of None] d(3,7) v len(1)
    by (simp add: replicate_append_same flip: replicate_Suc)
  then have "queue_step s (s\<lparr>vs_queue := ?q[vs_head s := None], vs_head := (vs_head s + 1) mod length ?q,
      vs_len := vs_len s - 1\<rparr>) vs"
    using ring_ok_pop [OF d(2)] by (intro queue_stepI [OF sh refl]) (simp_all add: ring_ok_def)
  then show "\<exists>s'. pop_queue s = (Some v, s') \<and> queue_step s s' vs"
    using len(1) hd by (simp add: pop_queue_def)
qed


section \<open>The operations on the three places\<close>

definition known :: "vcpu_scheduler \<Rightarrow> vcpu_ref multiset" where
  "known s = mset (runnable s @ running s @ halted s)"

lemma sched_contains_iff: "sched_contains s v \<longleftrightarrow> v \<in># known s"
  by (auto simp: sched_contains_def known_def runnable_def running_def halted_def set_map_filter)

lemma sched_inv_iff: "sched_inv s \<longleftrightarrow> shape s \<and> (\<forall>v. count (known s) v \<le> 1)"
  unfolding sched_inv_def known_def distinct_count_atmost_1
  by (auto simp: le_Suc_eq count_eq_zero_iff not_le)

lemma mset_map_filter_update:
  assumes "i < length xs"
  shows "xs ! i = None \<Longrightarrow> mset (List.map_filter id (xs[i := Some v])) = add_mset v (mset (List.map_filter id xs))"
    "xs ! i = Some v \<Longrightarrow> mset (List.map_filter id xs) = add_mset v (mset (List.map_filter id (xs[i := None])))"
proof -
  obtain us x vs where xs: "xs = us @ x # vs" "i = length us"
    using assms by (metis id_take_nth_drop length_take min.absorb4)
  show "xs ! i = None \<Longrightarrow> mset (List.map_filter id (xs[i := Some v])) = add_mset v (mset (List.map_filter id xs))"
    "xs ! i = Some v \<Longrightarrow> mset (List.map_filter id xs) = add_mset v (mset (List.map_filter id (xs[i := None])))"
    by (auto simp: xs List.map_filter_def)
qed

lemma running_update [simp]:
  "runnable (s\<lparr>vs_running := r\<rparr>) = runnable s" "halted (s\<lparr>vs_running := r\<rparr>) = halted s"
  "shape (s\<lparr>vs_running := r\<rparr>) = shape s"
  by (simp_all add: runnable_def halted_def shape_def)

lemma queue_step_places:
  "queue_step s s' q \<Longrightarrow> runnable s' = q \<and> running s' = running s \<and> halted s' = halted s \<and> shape s'"
  by (simp add: queue_step_def running_def halted_def)

lemma enqueue_spec:
  assumes inv: "sched_inv s"
  shows "(\<exists>s'. enqueue s v = (Inr (), s') \<and> sched_inv s' \<and> v \<notin># known s \<and> known s' = add_mset v (known s)
       \<and> runnable s' = runnable s @ [v] \<and> vs_running s' = vs_running s \<and> halted s' = halted s)
    \<or> (\<exists>e. enqueue s v = (Inl e, s) \<and> (v \<in># known s \<and> kind e = InvalidState
       \<or> v \<notin># known s \<and> kind e = RingFull \<and> vs_len s = length (vs_queue s)))"
proof (cases "v \<in># known s \<or> vs_len s = length (vs_queue s)")
  case True
  then show ?thesis
    using push_queue_spec [of s v] inv
    by (auto simp: enqueue_def sched_contains_iff sched_inv_def split: if_splits)
next
  case False
  then obtain s' where s': "push_queue s v = (Inr (), s')" "queue_step s s' (runnable s @ [v])"
    using push_queue_spec [of s v] inv by (auto simp: sched_inv_def)
  note places = queue_step_places [OF s'(2)]
  have k: "known s' = add_mset v (known s)"
    using places by (simp add: known_def)
  moreover have "sched_inv s'"
    using inv False places unfolding sched_inv_iff k by (auto simp: not_in_iff)
  ultimately show ?thesis
    using s' places False by (auto simp: enqueue_def sched_contains_iff queue_step_def)
qed

lemma schedule_on_spec:
  assumes inv: "sched_inv s" and i: "i = unat (physical_cpu_id_get pcpu)"
  shows "(\<exists>v s'. schedule_on s pcpu = (Inr (Some v), s') \<and> sched_inv s' \<and> known s' = known s
       \<and> i < length (vs_running s) \<and> vs_running s ! i = None
       \<and> runnable s = v # runnable s' \<and> vs_running s' = (vs_running s)[i := Some v] \<and> halted s' = halted s)
    \<or> schedule_on s pcpu = (Inr None, s) \<and> runnable s = []
    \<or> (\<exists>e. schedule_on s pcpu = (Inl e, s) \<and>
         (if length (vs_running s) \<le> i then kind e = InvalidId else kind e = InvalidState \<and> vs_running s ! i \<noteq> None))"
proof (cases "i < length (vs_running s) \<and> vs_running s ! i = None")
  case False
  then show ?thesis by (auto simp: schedule_on_def i Let_def)
next
  case True
  have sh: "shape s" using inv by (simp add: sched_inv_def)
  show ?thesis
  proof (cases "runnable s")
    case Nil
    then show ?thesis
      using pop_queue_spec(1) [OF sh] True by (simp add: schedule_on_def i Let_def)
  next
    case (Cons v vs)
    then obtain s1 where s1: "pop_queue s = (Some v, s1)" "queue_step s s1 vs"
      using pop_queue_spec(2) [OF sh] by blast
    define s' where "s' = s1\<lparr>vs_running := (vs_running s1)[i := Some v]\<rparr>"
    have run: "vs_running s1 = vs_running s"
      using s1(2) by (simp add: queue_step_def)
    have p: "runnable s' = vs" "halted s' = halted s" "shape s'" "vs_running s' = (vs_running s)[i := Some v]"
      using queue_step_places [OF s1(2)] run by (simp_all add: s'_def)
    have k: "known s' = known s"
      using mset_map_filter_update(1) [of i "vs_running s" v] True p Cons by (simp add: known_def running_def)
    then have "sched_inv s'"
      using inv p(3) by (simp add: sched_inv_iff)
    moreover have "schedule_on s pcpu = (Inr (Some v), s')"
      using True s1(1) run by (simp add: schedule_on_def i Let_def s'_def)
    ultimately show ?thesis
      using k p True Cons by simp
  qed
qed


lemma halt_running_spec:
  assumes inv: "sched_inv s" and i: "i = unat (physical_cpu_id_get pcpu)"
  shows "(\<exists>v s'. halt_running s pcpu = (Inr v, s') \<and> sched_inv s' \<and> known s' = known s
       \<and> i < length (vs_running s) \<and> vs_running s ! i = Some v
       \<and> runnable s' = runnable s \<and> vs_running s' = (vs_running s)[i := None] \<and> halted s' = halted s @ [v])
    \<or> (\<exists>e. halt_running s pcpu = (Inl e, s) \<and>
         (if length (vs_running s) \<le> i then kind e = InvalidId
          else if vs_running s ! i = None then kind e = InvalidState
          else kind e = CapacityExceeded \<and> length (halted s) = length (vs_queue s)))"
proof (cases "i < length (vs_running s) \<and> vs_running s ! i \<noteq> None \<and> vs_halted_len s \<noteq> length (vs_queue s)")
  case False
  moreover have "length (halted s) = vs_halted_len s"
    using shapeD(6) inv by (simp add: sched_inv_def)
  ultimately show ?thesis
    by (intro disjI2, cases "vs_running s ! i") (auto simp: halt_running_def i Let_def)
next
  case True
  then obtain v where v: "vs_running s ! i = Some v" by blast
  have sh: "shape s" using inv by (simp add: sched_inv_def)
  note d = shapeD [OF sh]
  define s' where "s' = s\<lparr>vs_halted := (vs_halted s)[vs_halted_len s := Some v],
      vs_halted_len := vs_halted_len s + 1, vs_running := (vs_running s)[i := None]\<rparr>"
  have lt: "vs_halted_len s < length (vs_halted s)"
    using True d(1,8) by simp
  have "(vs_halted s)[vs_halted_len s := Some v]
      = (map Some (halted s) @ replicate (length (vs_halted s) - vs_halted_len s) None)[vs_halted_len s := Some v]"
    using d(4) by simp
  also have "\<dots> = map Some (halted s @ [v]) @ replicate (length (vs_halted s) - Suc (vs_halted_len s)) None"
    using lt d(6) by (simp add: list_update_append Suc_diff_Suc flip: replicate_Suc)
      (metis Suc_diff_Suc list_update_code(2) replicate_Suc)
  finally have h: "vs_halted s' = map Some (halted s @ [v]) @ replicate (length (vs_halted s) - Suc (vs_halted_len s)) None"
    by (simp add: s'_def)
  have hs: "halted s' = halted s @ [v]"
    unfolding halted_def [of s'] h by simp
  have p: "runnable s' = runnable s" "vs_running s' = (vs_running s)[i := None]"
    by (simp_all add: s'_def runnable_def)
  have sh': "shape s'"
    unfolding shape_def hs using h d(1-3,6) lt p(1) by (auto simp: s'_def)
  have k: "known s' = known s"
    using mset_map_filter_update(2) [of i "vs_running s" v] True v p hs by (simp add: known_def running_def)
  then have "sched_inv s'"
    using inv sh' by (simp add: sched_inv_iff)
  moreover have "halt_running s pcpu = (Inr v, s')"
    using True v by (simp add: halt_running_def i Let_def s'_def)
  ultimately show ?thesis
    using k p hs True v by simp
qed

lemma halted_free:
  assumes sh: "shape s" and k: "vs_halted_len s \<le> k" "k < length (vs_halted s)"
  shows "vs_halted s ! k = None"
proof -
  note d = shapeD [OF sh]
  have "vs_halted s ! k = (map Some (halted s) @ replicate (length (vs_halted s) - vs_halted_len s) None) ! k"
    by (rule arg_cong [OF d(4), of "\<lambda>xs. xs ! k"])
  also have "\<dots> = None"
    using k d(6) by (simp add: nth_append)
  finally show ?thesis .
qed

lemma remove_option_halted:
  assumes sh: "shape s" and i: "i < length (halted s)"
  shows "fst (remove_option (vs_halted s) (vs_halted_len s) i)
     = map Some (take i (halted s) @ drop (Suc i) (halted s)) @ replicate (length (vs_halted s) - (vs_halted_len s - 1)) None"
proof -
  note d = shapeD [OF sh]
  let ?h = "vs_halted s" and ?n = "vs_halted_len s" and ?r = "(shift_left i (vs_halted_len s) (vs_halted s))[vs_halted_len s - 1 := None]"
  have n: "?n \<le> length ?h" "i < ?n"
    using d(6,8) i by simp_all
  have tk: "take ?n ?h = map Some (halted s)"
    using d(4,6) by (metis append_eq_conv_conj length_map)
  have "take (?n - 1) ?r = map Some (take i (halted s) @ drop (Suc i) (halted s))"
    using take_shift_left_remove [OF n(2,1), of None] tk n(2)
    by (metis drop_map map_append take_map take_take min.absorb3 less_imp_le)
  moreover have "drop (?n - 1) ?r = replicate (length ?h - (?n - 1)) None"
  proof (rule nth_equalityI)
    fix j assume "j < length (drop (?n - 1) ?r)"
    then have j: "?n - 1 + j < length ?h" by simp
    show "drop (?n - 1) ?r ! j = replicate (length ?h - (?n - 1)) None ! j"
    proof (cases "j = 0")
      case True
      then show ?thesis using j by simp
    next
      case False
      then have "?n - 1 + j \<ge> ?n" using n by simp
      moreover from this have "?h ! (?n - 1 + j) = None"
        by (rule halted_free [OF sh _ j])
      ultimately show ?thesis
        using j False n by (simp add: nth_shift_left)
    qed
  qed simp
  ultimately show ?thesis
    unfolding remove_option_def fst_conv by (metis append_take_drop_id)
qed

lemma remove1_split:
  assumes "i < length xs" "xs ! i = v" "v \<notin> set (take i xs)"
  shows "take i xs @ drop (Suc i) xs = remove1 v xs"
proof -
  have "xs = take i xs @ v # drop (Suc i) xs"
    using id_take_nth_drop [OF assms(1)] assms(2) by simp
  then have "remove1 v xs = remove1 v (take i xs @ v # drop (Suc i) xs)"
    by (rule arg_cong)
  then show ?thesis
    using assms(3) by (simp add: remove1_append)
qed

lemma halted_take: "shape s \<Longrightarrow> take (vs_halted_len s) (vs_halted s) = map Some (halted s)"
  using shapeD(4,6) [of s] by (metis append_eq_conv_conj length_map)

lemma remove_halted:
  assumes sh: "shape s" and i: "i < length (halted s)" "halted s ! i = v" "v \<notin> set (take i (halted s))"
    and s': "s' = s\<lparr>vs_halted := fst (remove_option (vs_halted s) (vs_halted_len s) i),
                   vs_halted_len := snd (remove_option (vs_halted s) (vs_halted_len s) i)\<rparr>"
  shows "shape s'" "halted s' = remove1 v (halted s)" "runnable s' = runnable s" "vs_running s' = vs_running s"
proof -
  note d = shapeD [OF sh]
  have h: "vs_halted s' = map Some (remove1 v (halted s)) @ replicate (length (vs_halted s) - (vs_halted_len s - 1)) None"
    using remove_option_halted [OF sh i(1)] remove1_split [OF i] by (simp add: s')
  show hs: "halted s' = remove1 v (halted s)"
    unfolding halted_def [of s'] h by simp
  show p: "runnable s' = runnable s" "vs_running s' = vs_running s"
    by (simp_all add: s' runnable_def)
  have len: "length (vs_halted s') = length (vs_halted s)" "vs_halted_len s' = vs_halted_len s - 1"
    "vs_queue s' = vs_queue s" "vs_head s' = vs_head s" "vs_len s' = vs_len s"
    by (simp_all add: s' remove_option_def)
  show "shape s'"
    unfolding shape_def hs p using h d(1-3,8) len by simp
qed

lemma wake_spec:
  assumes inv: "sched_inv s"
  shows "(\<exists>s'. wake s v = (Inr (), s') \<and> sched_inv s' \<and> known s' = known s \<and> v \<in> set (halted s)
       \<and> runnable s' = runnable s @ [v] \<and> vs_running s' = vs_running s \<and> halted s' = remove1 v (halted s))
    \<or> (\<exists>e. wake s v = (Inl e, s) \<and> (if v \<in> set (halted s)
         then kind e = RingFull \<and> vs_len s = length (vs_queue s) else kind e = InvalidState))"
proof -
  have sh: "shape s" using inv by (simp add: sched_inv_def)
  note tk = halted_take [OF sh]
  show ?thesis
  proof (cases "position (\<lambda>entry. entry = Some v) (take (vs_halted_len s) (vs_halted s))")
    case None
    then have "v \<notin> set (halted s)"
      unfolding tk by (auto simp: position_None)
    with None show ?thesis by (simp add: wake_def)
  next
    case (Some i)
    then have i: "i < length (halted s)" "halted s ! i = v" "\<forall>j < i. halted s ! j \<noteq> v"
      using position_SomeD [OF Some] unfolding tk by auto
    then have v: "v \<in> set (halted s)" "v \<notin> set (take i (halted s))"
      by (auto simp: in_set_conv_nth)
    show ?thesis
    proof (cases "vs_len s = length (vs_queue s)")
      case True
      then obtain e where "push_queue s v = (Inl e, s)" "kind e = RingFull"
        using push_queue_spec [OF sh, of v] by auto
      with True Some v show ?thesis by (simp add: wake_def)
    next
      case False
      then obtain s1 where s1: "push_queue s v = (Inr (), s1)" "queue_step s s1 (runnable s @ [v])"
        using push_queue_spec [OF sh, of v] by auto
      note q = queue_step_places [OF s1(2)]
      define s' where "s' = s1\<lparr>vs_halted := fst (remove_option (vs_halted s1) (vs_halted_len s1) i),
                   vs_halted_len := snd (remove_option (vs_halted s1) (vs_halted_len s1) i)\<rparr>"
      have "halted s1 = halted s" "shape s1" using q by simp_all
      then have p: "shape s'" "halted s' = remove1 v (halted s)" "runnable s' = runnable s @ [v]"
        "vs_running s' = vs_running s"
        using remove_halted [OF _ _ _ _ s'_def, of v] i(1,2) v(2) q s1(2) by (simp_all add: queue_step_def)
      have "mset (halted s) = add_mset v (mset (remove1 v (halted s)))"
        using v(1) by simp
      then have k: "known s' = known s"
        using p by (simp add: known_def running_def)
      then have "sched_inv s'"
        using inv p(1) by (simp add: sched_inv_iff)
      moreover have "wake s v = (Inr (), s')"
        using Some s1(1) by (simp add: wake_def s'_def split_beta)
      ultimately show ?thesis
        using k p v(1) by simp
    qed
  qed
qed


section \<open>Asking for the state of a vCPU\<close>

lemma runnable_set: "Some v \<in> set (vs_queue s) \<longleftrightarrow> v \<in> set (runnable s)"
  by (simp add: runnable_def set_map_filter)

lemma running_set: "Some v \<in> set (vs_running s) \<longleftrightarrow> v \<in> set (running s)"
  by (simp add: running_def set_map_filter)

lemma running_unique:
  assumes "distinct (List.map_filter id xs)" "i < length xs" "xs ! i = Some v" "j < length xs" "xs ! j = Some v"
  shows "i = j"
  using assms
proof (induction xs arbitrary: i j)
  case (Cons x xs)
  have mem: "v \<in> set (List.map_filter id xs)" if "k < length xs" "xs ! k = Some v" for k
    using that by (metis nth_mem set_map_filter)
  show ?case
  proof (cases i; cases j)
    fix i' j' assume "i = Suc i'" "j = Suc j'"
    then show ?thesis
      using Cons.IH [of i' j'] Cons.prems by (cases x) (auto simp: List.map_filter_def)
  qed (use Cons.prems mem in \<open>auto simp: List.map_filter_def\<close>)
qed simp

lemma state_of_running:
  assumes inv: "sched_inv s" and p: "length (vs_running s) \<le> 65535" and nq: "v \<notin> set (runnable s)"
    and i: "i < length (vs_running s)" "vs_running s ! i = Some v"
  shows "state_of s v = Some (RunRunning (PhysicalCpuId (of_nat i)))"
proof -
  have "position (\<lambda>entry. entry = Some v) (vs_running s) = Some i"
  proof (cases "position (\<lambda>entry. entry = Some v) (vs_running s)")
    case None
    then show ?thesis using i by (auto simp: position_None)
  next
    case (Some j)
    moreover have "distinct (List.map_filter id (vs_running s))"
      using inv by (simp add: sched_inv_def running_def)
    ultimately show ?thesis
      using running_unique [of "vs_running s" i v j] i position_SomeD [OF Some] by simp
  qed
  moreover have "(of_nat i :: u16) \<noteq> - 1"
  proof
    assume "(of_nat i :: u16) = - 1"
    then have "unat (of_nat i :: u16) = unat (- 1 :: u16)" by simp
    then show False
      using i(1) p by (simp add: unat_of_nat unsigned_minus_1_eq_mask mask_eq_exp_minus_1)
  qed
  ultimately show ?thesis
    using nq by (simp add: state_of_def runnable_set physical_cpu_id_new_def)
qed

lemma state_of_idle:
  assumes inv: "sched_inv s" and "v \<notin> set (runnable s)" "v \<notin> set (running s)"
  shows "state_of s v = (if v \<in> set (halted s) then Some RunHalted else None)"
proof -
  have "position (\<lambda>entry. entry = Some v) (vs_running s) = None"
    using assms(3) running_set [of v s] by (auto simp: position_None)
  then show ?thesis
    using assms(1,2) halted_take [of s] by (auto simp: state_of_def runnable_set sched_inv_def)
qed

section \<open>The run queue as a queue\<close>

definition push_vcpu :: "vcpu_scheduler \<Rightarrow> vcpu_ref \<Rightarrow> vcpu_ref core_result \<times> vcpu_scheduler" where
  "push_vcpu s v = (case push_queue s v of (Inl e, s') \<Rightarrow> (Inl e, s') | (Inr _, s') \<Rightarrow> (Inr v, s'))"

interpretation rq: fifo_queue shape runnable pop_queue push_vcpu
proof
  fix s s' :: vcpu_scheduler and v a as i e
  assume sh: "shape s"
  show "runnable s = [] \<Longrightarrow> pop_queue s = (None, s)"
    by (rule pop_queue_spec(1) [OF sh])
  show "runnable s = a # as \<Longrightarrow> \<exists>s'. pop_queue s = (Some a, s') \<and> shape s' \<and> runnable s' = as"
    using pop_queue_spec(2) [OF sh, of a as] queue_step_places by blast
  show "push_vcpu s i = (Inr a, s') \<Longrightarrow> shape s' \<and> runnable s' = runnable s @ [a]"
    using push_queue_spec [OF sh, of i] queue_step_places [of s s' "runnable s @ [i]"]
    by (auto simp: push_vcpu_def split: if_splits)
  show "push_vcpu s i = (Inl e, s') \<Longrightarrow> s' = s"
    using push_queue_spec [OF sh, of i] by (auto simp: push_vcpu_def split: if_splits)
qed

section \<open>Sequences of operations\<close>

datatype sched_op = SchedEnqueue vcpu_ref | SchedOn physical_cpu_id | SchedHalt physical_cpu_id | SchedWake vcpu_ref

text \<open>One operation; the result tells whether a new vCPU was accepted.\<close>

fun sched_step :: "vcpu_scheduler \<Rightarrow> sched_op \<Rightarrow> vcpu_ref list \<times> vcpu_scheduler" where
  "sched_step s (SchedEnqueue v) = (case enqueue s v of (Inr _, s') \<Rightarrow> ([v], s') | (Inl _, s') \<Rightarrow> ([], s'))"
| "sched_step s (SchedOn p) = ([], snd (schedule_on s p))"
| "sched_step s (SchedHalt p) = ([], snd (halt_running s p))"
| "sched_step s (SchedWake v) = ([], snd (wake s v))"

fun sched_run :: "vcpu_scheduler \<Rightarrow> sched_op list \<Rightarrow> vcpu_ref list \<times> vcpu_scheduler" where
  "sched_run s [] = ([], s)"
| "sched_run s (op # ops) =
     (case sched_step s op of (new, s') \<Rightarrow> case sched_run s' ops of (news, s'') \<Rightarrow> (new @ news, s''))"

lemma sched_step_inv:
  assumes inv: "sched_inv s" and st: "sched_step s op = (new, s')"
  shows "sched_inv s' \<and> known s' = mset new + known s"
proof (cases op)
  case (SchedEnqueue v)
  then show ?thesis
    using enqueue_spec [OF inv, of v] st inv by (elim disjE exE conjE) auto
next
  case (SchedOn p)
  then show ?thesis
    using schedule_on_spec [OF inv refl, of p] st inv by (elim disjE exE conjE) auto
next
  case (SchedHalt p)
  then show ?thesis
    using halt_running_spec [OF inv refl, of p] st inv by (elim disjE exE conjE) auto
next
  case (SchedWake v)
  then show ?thesis
    using wake_spec [OF inv, of v] st inv by (elim disjE exE conjE) auto
qed

lemma sched_run_inv:
  "sched_inv s \<Longrightarrow> sched_run s ops = (news, s') \<Longrightarrow> sched_inv s' \<and> known s' = mset news + known s"
proof (induction ops arbitrary: s news)
  case (Cons op ops)
  obtain new s1 where s1: "sched_step s op = (new, s1)" by (rule prod.exhaust)
  then obtain news1 where "sched_run s1 ops = (news1, s')" "news = new @ news1"
    using Cons.prems(2) by (auto split: prod.splits)
  then show ?case
    using Cons.IH [of s1 news1] sched_step_inv [OF Cons.prems(1) s1] by (simp add: ac_simps)
qed simp

section \<open>Properties of the scheduler\<close>

text \<open>
  C11. Over any sequence of scheduler operations, whatever their outcomes, no vCPU is lost,
  duplicated or invented: the vCPUs known to the scheduler are those known before plus the accepted
  ones, and each of them is in exactly one place, once: queued, running on one physical CPU, or
  halted.
\<close>

theorem scheduler_one_place:
  assumes "sched_inv s" "sched_run s ops = (accepted, s')"
  shows "sched_inv s' \<and> distinct (runnable s' @ running s' @ halted s')
    \<and> mset (runnable s' @ running s' @ halted s') = mset accepted + mset (runnable s @ running s @ halted s)"
  using sched_run_inv [OF assms] by (simp add: known_def sched_inv_def)

definition demo_vcpu :: "u16 \<Rightarrow> vcpu_ref" where
  "demo_vcpu n = vcpu_ref_new (VmId 1) (VcpuId n)"

lemma sched_run_demo:
  "\<exists>s'. sched_run (scheduler_new 2 1)
     [SchedEnqueue (demo_vcpu 0), SchedEnqueue (demo_vcpu 1), SchedEnqueue (demo_vcpu 0), SchedOn (PhysicalCpuId 0)]
     = ([demo_vcpu 0, demo_vcpu 1], s') \<and> runnable s' = [demo_vcpu 1] \<and> running s' = [demo_vcpu 0]"
  by (simp add: scheduler_new_def enqueue_def sched_contains_def push_queue_def schedule_on_def pop_queue_def
      replicate_small demo_vcpu_def vcpu_ref_new_def Let_def runnable_def running_def List.map_filter_def)

theorem scheduler_one_place_witness:
  "\<exists>s'. sched_run (scheduler_new 2 1)
     [SchedEnqueue (demo_vcpu 0), SchedEnqueue (demo_vcpu 1), SchedEnqueue (demo_vcpu 0), SchedOn (PhysicalCpuId 0)]
     = ([demo_vcpu 0, demo_vcpu 1], s') \<and> sched_inv s'"
  using sched_run_demo scheduler_one_place [OF sched_inv_new] by blast

text \<open>
  Scheduling is first come, first served: a physical CPU receives the vCPU that has been
  runnable longest, the others keep their order and the halted ones stay halted; a CPU that is busy
  or outside the table receives nothing, with an error that tells the two apart.
\<close>

theorem schedule_on_takes_oldest:
  assumes "sched_inv s"
  shows "case schedule_on s pcpu of
      (Inr (Some v), s') \<Rightarrow> runnable s = v # runnable s' \<and> halted s' = halted s
        \<and> vs_running s ! unat (physical_cpu_id_get pcpu) = None
        \<and> vs_running s' = (vs_running s)[unat (physical_cpu_id_get pcpu) := Some v]
    | (Inr None, s') \<Rightarrow> s' = s \<and> runnable s = []
    | (Inl e, s') \<Rightarrow> s' = s \<and> kind e = (if length (vs_running s) \<le> unat (physical_cpu_id_get pcpu)
        then InvalidId else InvalidState)"
  using schedule_on_spec [OF assms refl, of pcpu] by (elim disjE exE conjE) (auto split: if_splits)

theorem schedule_on_takes_oldest_witness:
  "sched_inv (scheduler_new 2 1) \<and> runnable (scheduler_new 2 1) = []"
  using schedule_on_takes_oldest [OF sched_inv_new [of 2 1], of "PhysicalCpuId 0"] sched_inv_new [of 2 1]
  by (simp add: schedule_on_def scheduler_new_def pop_queue_def replicate_small)

text \<open>
  The run queue refines a first-in first-out queue of vCPUs: over any interleaving of pushes
  and pops, what was queued followed by what was accepted is what was popped followed by what is
  still queued.
\<close>

theorem run_queue_fifo:
  assumes "shape s" "run_queue push_vcpu pop_queue s ops = (accepted, popped, s')"
  shows "shape s' \<and> runnable s @ accepted = popped @ runnable s'"
  by (rule rq.fifo [OF assms])

lemma run_queue_demo:
  "\<exists>s'. run_queue push_vcpu pop_queue (scheduler_new 1 1)
     [Enqueue (demo_vcpu 0), Enqueue (demo_vcpu 1), Dequeue, Enqueue (demo_vcpu 2)]
     = ([demo_vcpu 0, demo_vcpu 2], [demo_vcpu 0], s')"
  by (simp add: scheduler_new_def push_vcpu_def push_queue_def pop_queue_def Let_def)

lemma shape_new: "shape (scheduler_new q p)"
  using sched_inv_new by (simp add: sched_inv_def)

theorem run_queue_fifo_witness:
  "\<exists>s'. run_queue push_vcpu pop_queue (scheduler_new 1 1)
     [Enqueue (demo_vcpu 0), Enqueue (demo_vcpu 1), Dequeue, Enqueue (demo_vcpu 2)]
     = ([demo_vcpu 0, demo_vcpu 2], [demo_vcpu 0], s')
     \<and> runnable (scheduler_new 1 1) @ [demo_vcpu 0, demo_vcpu 2] = [demo_vcpu 0] @ runnable s'"
  using run_queue_demo run_queue_fifo [OF shape_new] by blast

text \<open>
  \<open>state_of\<close> answers truthfully: for up to 65535 physical CPUs it reports a vCPU as runnable
  exactly when it is queued, as running on CPU \<open>p\<close> exactly when \<open>p\<close> runs it, as halted exactly when
  it is in the halted table, and as unknown exactly when the scheduler does not hold it.
\<close>

theorem state_of_truthful:
  assumes "sched_inv s" "length (vs_running s) \<le> 65535"
  shows "(state_of s v = Some RunRunnable \<longleftrightarrow> v \<in> set (runnable s))
    \<and> (state_of s v = Some (RunRunning p) \<longleftrightarrow> unat (physical_cpu_id_get p) < length (vs_running s)
         \<and> vs_running s ! unat (physical_cpu_id_get p) = Some v)
    \<and> (state_of s v = Some RunHalted \<longleftrightarrow> v \<in> set (halted s))
    \<and> (state_of s v = None \<longleftrightarrow> v \<notin> set (runnable s @ running s @ halted s))"
proof -
  have dist: "set (runnable s) \<inter> set (running s) = {}" "set (runnable s) \<inter> set (halted s) = {}"
    "set (running s) \<inter> set (halted s) = {}" "distinct (List.map_filter id (vs_running s))"
    using assms(1) by (auto simp: sched_inv_def running_def)
  have in_running: "v \<in> set (running s) \<longleftrightarrow> (\<exists>i < length (vs_running s). vs_running s ! i = Some v)"
    using running_set [of v s] by (auto simp: in_set_conv_nth)
  consider (q) "v \<in> set (runnable s)" | (r) "v \<notin> set (runnable s)" "v \<in> set (running s)"
    | (i) "v \<notin> set (runnable s)" "v \<notin> set (running s)"
    by blast
  then show ?thesis
  proof cases
    case q
    then have "state_of s v = Some RunRunnable"
      by (simp add: state_of_def runnable_set)
    with q dist in_running show ?thesis by auto
  next
    case r
    then obtain k where k: "k < length (vs_running s)" "vs_running s ! k = Some v"
      using in_running by blast
    have st: "state_of s v = Some (RunRunning (PhysicalCpuId (of_nat k)))"
      by (rule state_of_running [OF assms r(1) k])
    have kk: "unat (of_nat k :: u16) = k"
      using k(1) assms(2) by (simp add: unat_of_nat)
    have "PhysicalCpuId (of_nat k) = p \<longleftrightarrow> unat (physical_cpu_id_get p) = k"
      using kk by (cases p) (auto simp: word_unat_eq_iff)
    moreover have "unat (physical_cpu_id_get p) < length (vs_running s)
        \<and> vs_running s ! unat (physical_cpu_id_get p) = Some v \<longleftrightarrow> unat (physical_cpu_id_get p) = k"
      using k running_unique [OF dist(4) _ _ k] by blast
    moreover have "v \<notin> set (halted s)"
      using r(2) dist(3) by blast
    ultimately show ?thesis
      using r by (simp add: st)
  next
    case i
    then show ?thesis
      using state_of_idle [OF assms(1) i] in_running by auto
  qed
qed

theorem state_of_truthful_witness:
  "sched_inv (scheduler_new 2 1) \<and> state_of (scheduler_new 2 1) (demo_vcpu 0) = None"
  using state_of_truthful [OF sched_inv_new [of 2 1], of "demo_vcpu 0"] sched_inv_new [of 2 1]
  by (simp add: scheduler_new_def runnable_def running_def halted_def List.map_filter_def replicate_small)

end
