(* ===== verification/Hugepage.thy ===== *)
theory Hugepage
  imports Core_Ids
begin

text \<open>
  Splitting and merging of translation mappings
  (\<open>crates/aegishv-hypervisor-core/src/hugepage.rs\<close>). The reference definition is the
  translation a mapping stands for, \<open>translate_mapping\<close>; the lemmas show that a merge
  plan keeps it address by address and that a split plan followed by a merge is the identity.
\<close>

section \<open>Page sizes and permissions\<close>

datatype translation_page_size = Size4K | Size2M | Size1G

fun page_bytes :: "translation_page_size \<Rightarrow> u64" where
  "page_bytes Size4K = 4096"
| "page_bytes Size2M = 2 * 1024 * 1024"
| "page_bytes Size1G = 1024 * 1024 * 1024"

fun page_parent :: "translation_page_size \<Rightarrow> translation_page_size option" where
  "page_parent Size4K = Some Size2M"
| "page_parent Size2M = Some Size1G"
| "page_parent Size1G = None"

fun page_child :: "translation_page_size \<Rightarrow> translation_page_size option" where
  "page_child Size1G = Some Size2M"
| "page_child Size2M = Some Size4K"
| "page_child Size4K = None"

record translation_permissions =
  tp_read :: bool
  tp_write :: bool
  tp_execute :: bool

definition permissions_read :: translation_permissions where
  "permissions_read = \<lparr>tp_read = True, tp_write = False, tp_execute = False\<rparr>"

definition permissions_read_write :: translation_permissions where
  "permissions_read_write = \<lparr>tp_read = True, tp_write = True, tp_execute = False\<rparr>"

definition permissions_read_execute :: translation_permissions where
  "permissions_read_execute = \<lparr>tp_read = True, tp_write = False, tp_execute = True\<rparr>"

definition permissions_is_wx :: "translation_permissions \<Rightarrow> bool" where
  "permissions_is_wx p \<longleftrightarrow> tp_write p \<and> tp_execute p"

section \<open>Mappings\<close>

record translation_mapping =
  tm_guest_physical :: guest_physical
  tm_host_physical :: host_physical
  tm_page_size :: translation_page_size
  tm_permissions :: translation_permissions

definition mapping_new ::
    "guest_physical \<Rightarrow> host_physical \<Rightarrow> translation_page_size \<Rightarrow> translation_permissions
      \<Rightarrow> translation_mapping core_result" where
  "mapping_new g h sz p =
     (let bytes = page_bytes sz in
      if gpa_get g mod bytes \<noteq> 0 \<or> hpa_get h mod bytes \<noteq> 0
      then Inl (CoreError InvalidAddress ''translation mapping must be aligned to the selected page size'')
      else if permissions_is_wx p
      then Inl (CoreError PermissionViolation ''translation mapping must not be writable and executable'')
      else Inr \<lparr>tm_guest_physical = g, tm_host_physical = h, tm_page_size = sz, tm_permissions = p\<rparr>)"

definition mapping_end_gpa :: "translation_mapping \<Rightarrow> u64 core_result" where
  "mapping_end_gpa m =
     ok_or (checked_add (gpa_get (tm_guest_physical m)) (page_bytes (tm_page_size m)))
       (CoreError InvalidAddress ''translation mapping guest end address overflowed'')"

definition mapping_end_hpa :: "translation_mapping \<Rightarrow> u64 core_result" where
  "mapping_end_hpa m =
     ok_or (checked_add (hpa_get (tm_host_physical m)) (page_bytes (tm_page_size m)))
       (CoreError InvalidAddress ''translation mapping host end address overflowed'')"

section \<open>Split plans and merge plans\<close>

datatype invalidation_scope = ScopePage | ScopeRange | ScopeAddressSpace

record split_plan =
  sp_source :: translation_mapping
  sp_child_size :: translation_page_size
  sp_child_count :: u64
  sp_invalidation :: invalidation_scope

definition plan_split :: "translation_mapping \<Rightarrow> split_plan core_result" where
  "plan_split m =
     (case ok_or (page_child (tm_page_size m)) (CoreError Unsupported ''4K mapping cannot be split further'') of
        Inl e \<Rightarrow> Inl e
      | Inr child \<Rightarrow> Inr \<lparr>sp_source = m, sp_child_size = child,
          sp_child_count = page_bytes (tm_page_size m) div page_bytes child, sp_invalidation = ScopeRange\<rparr>)"

text \<open>The loop over the children; the two words are \<open>expected_gpa\<close> and \<open>expected_hpa\<close>.\<close>

fun merge_children :: "translation_mapping \<Rightarrow> translation_mapping list \<Rightarrow> u64 \<Rightarrow> u64 \<Rightarrow> unit core_result" where
  "merge_children first [] expected_gpa expected_hpa = Inr ()"
| "merge_children first (m # ms) expected_gpa expected_hpa =
     (if tm_page_size m \<noteq> tm_page_size first \<or> tm_permissions m \<noteq> tm_permissions first
      then Inl (CoreError PermissionViolation
        ''huge page merge requires identical child permissions and sizes'')
      else if gpa_get (tm_guest_physical m) \<noteq> expected_gpa \<or> hpa_get (tm_host_physical m) \<noteq> expected_hpa
      then Inl (CoreError InvalidAddress ''huge page merge children must be physically contiguous'')
      else case mapping_end_gpa m of
        Inl e \<Rightarrow> Inl e
      | Inr next_gpa \<Rightarrow>
          (case mapping_end_hpa m of
             Inl e \<Rightarrow> Inl e
           | Inr next_hpa \<Rightarrow> merge_children first ms next_gpa next_hpa))"

fun plan_merge :: "translation_mapping list \<Rightarrow> translation_mapping core_result" where
  "plan_merge [] = Inl (CoreError InvalidArgument ''huge page merge requires at least one child mapping'')"
| "plan_merge (first # rest) =
     (case ok_or (page_parent (tm_page_size first))
        (CoreError Unsupported ''1G mapping cannot be merged into a larger mapping'') of
        Inl e \<Rightarrow> Inl e
      | Inr parent_size \<Rightarrow>
          let expected_count = page_bytes parent_size div page_bytes (tm_page_size first) in
          if (of_nat (length (first # rest)) :: u64) \<noteq> expected_count
          then Inl (CoreError InvalidArgument ''huge page merge requires a complete aligned child run'')
          else if gpa_get (tm_guest_physical first) mod page_bytes parent_size \<noteq> 0
              \<or> hpa_get (tm_host_physical first) mod page_bytes parent_size \<noteq> 0
          then Inl (CoreError InvalidAddress ''huge page merge base is not aligned to the parent size'')
          else case merge_children first (first # rest)
                 (gpa_get (tm_guest_physical first)) (hpa_get (tm_host_physical first)) of
            Inl e \<Rightarrow> Inl e
          | Inr _ \<Rightarrow> mapping_new (tm_guest_physical first) (tm_host_physical first) parent_size
                        (tm_permissions first))"

section \<open>What a mapping means\<close>

text \<open>
  The translation of a guest address: the host address and the permissions. A run of mappings is
  searched in order.
\<close>

definition translate_range ::
    "nat \<Rightarrow> nat \<Rightarrow> nat \<Rightarrow> translation_permissions \<Rightarrow> nat \<Rightarrow> (nat \<times> translation_permissions) option" where
  "translate_range g h len p a = (if g \<le> a \<and> a < g + len then Some (h + (a - g), p) else None)"

definition translate_mapping :: "translation_mapping \<Rightarrow> nat \<Rightarrow> (nat \<times> translation_permissions) option" where
  "translate_mapping m = translate_range (unat (gpa_get (tm_guest_physical m)))
     (unat (hpa_get (tm_host_physical m))) (unat (page_bytes (tm_page_size m))) (tm_permissions m)"

fun translate_run :: "translation_mapping list \<Rightarrow> nat \<Rightarrow> (nat \<times> translation_permissions) option" where
  "translate_run [] a = None"
| "translate_run (m # ms) a = (case translate_mapping m a of Some r \<Rightarrow> Some r | None \<Rightarrow> translate_run ms a)"

text \<open>A mapping as \<open>TranslationMapping::new\<close> returns it.\<close>

definition mapping_wf :: "translation_mapping \<Rightarrow> bool" where
  "mapping_wf m \<longleftrightarrow> mapping_new (tm_guest_physical m) (tm_host_physical m) (tm_page_size m) (tm_permissions m) = Inr m"

lemma mapping_new_ok:
  "mapping_new g h sz p = Inr m \<longleftrightarrow> gpa_get g mod page_bytes sz = 0 \<and> hpa_get h mod page_bytes sz = 0
     \<and> \<not> permissions_is_wx p
     \<and> m = \<lparr>tm_guest_physical = g, tm_host_physical = h, tm_page_size = sz, tm_permissions = p\<rparr>"
  unfolding mapping_new_def Let_def by (cases "gpa_get g mod page_bytes sz = 0"; cases "hpa_get h mod page_bytes sz = 0") auto

lemma mapping_new_wf: "mapping_new g h sz p = Inr m \<Longrightarrow> mapping_wf m"
  by (simp add: mapping_wf_def mapping_new_ok)

lemma mapping_new_fields:
  assumes "mapping_new g h sz p = Inr m"
  shows "tm_guest_physical m = g" "tm_host_physical m = h" "tm_page_size m = sz" "tm_permissions m = p"
  using assms by (simp_all add: mapping_new_ok)

lemma mapping_ends:
  "mapping_end_gpa m = Inr e \<longleftrightarrow>
     unat e = unat (gpa_get (tm_guest_physical m)) + unat (page_bytes (tm_page_size m))"
  "mapping_end_hpa m = Inr e \<longleftrightarrow>
     unat e = unat (hpa_get (tm_host_physical m)) + unat (page_bytes (tm_page_size m))"
  by (simp_all add: mapping_end_gpa_def mapping_end_hpa_def rust_arith)

lemma translate_range_append:
  "(case translate_range g h n p a of Some r \<Rightarrow> Some r | None \<Rightarrow> translate_range (g + n) (h + n) k p a)
     = translate_range g h (n + k) p a"
  by (auto simp: translate_range_def)

lemma merge_children_Cons_ok:
  assumes "merge_children first (m # ms) g h = Inr u"
  obtains g' h' where "tm_page_size m = tm_page_size first" "tm_permissions m = tm_permissions first"
    "gpa_get (tm_guest_physical m) = g" "hpa_get (tm_host_physical m) = h"
    "unat g' = unat g + unat (page_bytes (tm_page_size first))"
    "unat h' = unat h + unat (page_bytes (tm_page_size first))"
    "merge_children first ms g' h' = Inr u"
  using assms by (auto simp: mapping_ends split: if_splits sum.splits)

text \<open>An accepted run of children translates like one contiguous range.\<close>

lemma merge_children_translates:
  "merge_children first ms g h = Inr u \<Longrightarrow>
     translate_run ms a = translate_range (unat g) (unat h)
       (length ms * unat (page_bytes (tm_page_size first))) (tm_permissions first) a"
proof (induction ms arbitrary: g h)
  case Nil
  then show ?case by (simp add: translate_range_def)
next
  case (Cons m ms)
  from Cons.prems obtain g' h' where m: "tm_page_size m = tm_page_size first"
      "tm_permissions m = tm_permissions first"
      "gpa_get (tm_guest_physical m) = g" "hpa_get (tm_host_physical m) = h"
      "unat g' = unat g + unat (page_bytes (tm_page_size first))"
      "unat h' = unat h + unat (page_bytes (tm_page_size first))"
      "merge_children first ms g' h' = Inr u"
    by (rule merge_children_Cons_ok)
  show ?case
    using translate_range_append [where g = "unat g" and h = "unat h" and p = "tm_permissions first" and a = a
        and n = "unat (page_bytes (tm_page_size first))" and k = "length ms * unat (page_bytes (tm_page_size first))"]
    by (simp add: Cons.IH [OF m(7)] m translate_mapping_def cong: option.case_cong)
qed

lemma page_parent_bytes:
  "page_parent s = Some p \<Longrightarrow> unat (page_bytes p) = 512 * unat (page_bytes s)
     \<and> page_bytes p div page_bytes s = 512"
  by (cases s) auto

lemma page_child_parent: "page_child s = Some c \<longleftrightarrow> page_parent c = Some s"
  by (cases s; cases c) auto

text \<open>The merge, decided step by step.\<close>

lemma plan_merge_ok:
  assumes "plan_merge ms = Inr m" "length ms < 2 ^ 64"
  obtains first rest parent where "ms = first # rest" "page_parent (tm_page_size first) = Some parent"
    "length ms = 512" "merge_children first ms (gpa_get (tm_guest_physical first)) (hpa_get (tm_host_physical first)) = Inr ()"
    "mapping_new (tm_guest_physical first) (tm_host_physical first) parent (tm_permissions first) = Inr m"
proof -
  obtain first rest where ms: "ms = first # rest"
    using assms(1) by (cases ms) auto
  obtain parent where p: "page_parent (tm_page_size first) = Some parent"
    using assms(1) ms by (cases "page_parent (tm_page_size first)") auto
  have steps: "(of_nat (length ms) :: u64) = 512"
    "merge_children first ms (gpa_get (tm_guest_physical first)) (hpa_get (tm_host_physical first)) = Inr ()"
    "mapping_new (tm_guest_physical first) (tm_host_physical first) parent (tm_permissions first) = Inr m"
    using assms(1) ms p page_parent_bytes [OF p]
    by (auto simp: Let_def split: if_splits sum.splits simp del: merge_children.simps of_nat_Suc)
  have "unat (of_nat (length ms) :: u64) = 512"
    using steps(1) by simp
  then have "length ms = 512"
    using assms(2) by (simp add: unat_of_nat)
  then show ?thesis
    by (rule that [OF ms p _ steps(2,3)])
qed

lemma plan_merge_translates:
  assumes "plan_merge ms = Inr m" "length ms < 2 ^ 64"
  shows "translate_mapping m a = translate_run ms a" "mapping_wf m" "length ms = 512"
proof -
  from assms obtain first rest parent where r: "ms = first # rest"
      "page_parent (tm_page_size first) = Some parent" "length ms = 512"
      "merge_children first ms (gpa_get (tm_guest_physical first)) (hpa_get (tm_host_physical first)) = Inr ()"
      "mapping_new (tm_guest_physical first) (tm_host_physical first) parent (tm_permissions first) = Inr m"
    by (rule plan_merge_ok)
  show "mapping_wf m" "length ms = 512"
    using mapping_new_wf [OF r(5)] r(3) by simp_all
  show "translate_mapping m a = translate_run ms a"
    unfolding merge_children_translates [OF r(4)]
    using mapping_new_fields [OF r(5)] page_parent_bytes [OF r(2)] r(3) by (simp add: translate_mapping_def)
qed

section \<open>Carrying out a split plan\<close>

text \<open>The children a split plan describes, and that merging them gives the source back.\<close>

definition split_child :: "split_plan \<Rightarrow> nat \<Rightarrow> translation_mapping" where
  "split_child plan i = (let m = sp_source plan; off = of_nat i * page_bytes (sp_child_size plan) in
     \<lparr>tm_guest_physical = GuestPhysical (gpa_get (tm_guest_physical m) + off),
      tm_host_physical = HostPhysical (hpa_get (tm_host_physical m) + off),
      tm_page_size = sp_child_size plan, tm_permissions = tm_permissions m\<rparr>)"

definition split_children :: "split_plan \<Rightarrow> translation_mapping list" where
  "split_children plan = map (split_child plan) [0..<unat (sp_child_count plan)]"

lemma merge_children_split:
  assumes g: "unat (gpa_get (tm_guest_physical (sp_source plan))) + n * unat (page_bytes (sp_child_size plan)) < 2 ^ 64"
    and h: "unat (hpa_get (tm_host_physical (sp_source plan))) + n * unat (page_bytes (sp_child_size plan)) < 2 ^ 64"
  shows "i \<le> n \<Longrightarrow> merge_children (split_child plan 0) (map (split_child plan) [i..<n])
    (gpa_get (tm_guest_physical (split_child plan i))) (hpa_get (tm_host_physical (split_child plan i))) = Inr ()"
proof (induction "n - i" arbitrary: i)
  case 0
  then show ?case by simp
next
  case (Suc k)
  let ?m = "split_child plan i" and ?n = "split_child plan (Suc i)"
  have i: "i < n" "k = n - Suc i" "Suc i \<le> n" using Suc by linarith+
  have le: "Suc i * unat (page_bytes (sp_child_size plan)) \<le> n * unat (page_bytes (sp_child_size plan))"
    by (rule mult_le_mono1 [OF i(3)])
  have e: "mapping_end_gpa ?m = Inr (gpa_get (tm_guest_physical ?n))"
    "mapping_end_hpa ?m = Inr (hpa_get (tm_host_physical ?n))"
    using g h le by (simp_all add: mapping_ends split_child_def Let_def unat_offset del: of_nat_Suc)
  have c: "tm_page_size ?m = tm_page_size (split_child plan 0)" "tm_permissions ?m = tm_permissions (split_child plan 0)"
    by (simp_all add: split_child_def Let_def)
  show ?case
    unfolding upt_conv_Cons [OF i(1)] using Suc.hyps(1) [OF i(2,3)] by (simp add: e c)
qed

lemma merge_split:
  assumes wf: "mapping_wf m" and plan: "plan_split m = Inr plan"
    and "mapping_end_gpa m = Inr eg" "mapping_end_hpa m = Inr eh"
  shows "plan_merge (split_children plan) = Inr m"
proof -
  obtain child where c: "page_child (tm_page_size m) = Some child" and
      p: "plan = \<lparr>sp_source = m, sp_child_size = child,
          sp_child_count = page_bytes (tm_page_size m) div page_bytes child, sp_invalidation = ScopeRange\<rparr>"
    using plan by (auto simp: plan_split_def split: sum.splits)
  have parent: "page_parent child = Some (tm_page_size m)"
    using c by (simp add: page_child_parent)
  note b = page_parent_bytes [OF parent]
  have ends: "unat (gpa_get (tm_guest_physical m)) + unat (page_bytes (tm_page_size m)) < 2 ^ 64"
    "unat (hpa_get (tm_host_physical m)) + unat (page_bytes (tm_page_size m)) < 2 ^ 64"
    using assms(3,4) unat_lt_64 [of eg] unat_lt_64 [of eh] unfolding mapping_ends by simp_all
  define rest where "rest = map (split_child plan) [Suc 0..<512]"
  have src: "sp_source plan = m" "sp_child_size plan = child" "unat (sp_child_count plan) = 512"
    using p b by simp_all
  have zero: "tm_guest_physical (split_child plan 0) = tm_guest_physical m"
    "tm_host_physical (split_child plan 0) = tm_host_physical m"
    "tm_page_size (split_child plan 0) = child" "tm_permissions (split_child plan 0) = tm_permissions m"
    using src by (simp_all add: split_child_def)
  have upt: "map (split_child plan) [0..<512] = split_child plan 0 # rest"
    unfolding rest_def using upt_conv_Cons [of 0 512] by simp
  have kids: "split_children plan = split_child plan 0 # rest"
    unfolding split_children_def src upt ..
  have loop: "merge_children (split_child plan 0) (split_child plan 0 # rest)
      (gpa_get (tm_guest_physical m)) (hpa_get (tm_host_physical m)) = Inr ()"
    using merge_children_split [of plan 512 0, unfolded upt zero src] ends b by simp
  have al: "gpa_get (tm_guest_physical m) mod page_bytes (tm_page_size m) = 0"
    "hpa_get (tm_host_physical m) mod page_bytes (tm_page_size m) = 0"
    using wf unfolding mapping_wf_def mapping_new_ok by blast+
  have len: "length rest = 511"
    unfolding rest_def by simp
  show ?thesis
    unfolding kids using wf b loop
    by (simp add: zero parent al len Let_def mapping_wf_def del: merge_children.simps)
qed

section \<open>Properties of split and merge plans\<close>

text \<open>
  C17. Merging never changes what the guest sees: when \<open>plan_merge\<close> accepts a list of mappings, the
  list is a complete run of 512 children, and the merged mapping translates every guest address to
  the same host address with the same permissions as the run, and every address the run does not
  map stays unmapped; the result is aligned and never writable and executable.
\<close>

theorem plan_merge_preserves_translation:
  assumes "plan_merge ms = Inr m" "length ms < 2 ^ 64"
  shows "translate_mapping m = translate_run ms \<and> length ms = 512
    \<and> gpa_get (tm_guest_physical m) mod page_bytes (tm_page_size m) = 0
    \<and> hpa_get (tm_host_physical m) mod page_bytes (tm_page_size m) = 0
    \<and> \<not> permissions_is_wx (tm_permissions m)"
  using plan_merge_translates [OF assms] unfolding mapping_wf_def mapping_new_ok by blast

definition demo_mapping :: translation_mapping where
  "demo_mapping = \<lparr>tm_guest_physical = GuestPhysical 0x200000, tm_host_physical = HostPhysical 0x40000000,
     tm_page_size = Size2M, tm_permissions = permissions_read_execute\<rparr>"

definition demo_split_plan :: split_plan where
  "demo_split_plan = \<lparr>sp_source = demo_mapping, sp_child_size = Size4K, sp_child_count = 512,
     sp_invalidation = ScopeRange\<rparr>"

lemma demo_mapping_ok:
  "mapping_wf demo_mapping" "plan_split demo_mapping = Inr demo_split_plan"
  "mapping_end_gpa demo_mapping = Inr 0x400000" "mapping_end_hpa demo_mapping = Inr 0x40200000"
  by (simp_all add: mapping_wf_def mapping_new_def demo_mapping_def demo_split_plan_def plan_split_def
      permissions_read_execute_def permissions_is_wx_def mapping_end_gpa_def mapping_end_hpa_def checked_add_def)

lemma length_split_children [simp]: "length (split_children plan) = unat (sp_child_count plan)"
  by (simp add: split_children_def)

theorem plan_merge_preserves_translation_witness:
  "plan_merge (split_children demo_split_plan) = Inr demo_mapping
   \<and> translate_run (split_children demo_split_plan) 0x234567 = Some (0x40034567, permissions_read_execute)"
proof -
  have m: "plan_merge (split_children demo_split_plan) = Inr demo_mapping"
    by (rule merge_split [OF demo_mapping_ok])
  have "length (split_children demo_split_plan) < 2 ^ 64"
    by (simp add: demo_split_plan_def)
  then have "translate_run (split_children demo_split_plan) = translate_mapping demo_mapping"
    using plan_merge_preserves_translation [OF m] by simp
  with m show ?thesis
    by (simp add: demo_mapping_def translate_mapping_def translate_range_def)
qed

text \<open>
  A split plan loses nothing: laying out the children a plan describes and merging them again
  gives the mapping that was split, for every well-formed 2M or 1G mapping that does not touch the
  end of the address space; a 4K mapping is refused.
\<close>

theorem split_then_merge:
  assumes "mapping_wf m" "mapping_end_gpa m = Inr eg" "mapping_end_hpa m = Inr eh"
  shows "case plan_split m of
      Inl e \<Rightarrow> tm_page_size m = Size4K \<and> kind e = Unsupported
    | Inr plan \<Rightarrow> tm_page_size m \<noteq> Size4K \<and> plan_merge (split_children plan) = Inr m"
proof (cases "plan_split m")
  case (Inl e)
  then show ?thesis
    by (cases "tm_page_size m") (auto simp: plan_split_def)
next
  case (Inr plan)
  then show ?thesis
    using merge_split [OF assms(1) Inr assms(2,3)] by (cases "tm_page_size m") (auto simp: plan_split_def)
qed

theorem split_then_merge_witness:
  "mapping_wf demo_mapping \<and> plan_merge (split_children demo_split_plan) = Inr demo_mapping"
  using split_then_merge [OF demo_mapping_ok(1,3,4)] demo_mapping_ok(1,2) by simp

end
