(* ===== verification/Pci.thy ===== *)
theory Pci
  imports Core_Ids
begin

text \<open>
  The PCI inventory (\<open>crates/aegishv-hypervisor-core/src/pci.rs\<close>): addresses, base address
  registers, interrupt capabilities, devices and the bounded inventory. \<open>with_bar\<close> indexes a
  six-cell array with a public field, so it can panic; a panic is the outer \<^const>\<open>None\<close>.
\<close>

section \<open>Functions and registers\<close>

record pci_bdf =
  bdf_segment :: u16
  bdf_bus :: u8
  bdf_device :: u8
  bdf_function :: u8

definition pci_bdf_new :: "u16 \<Rightarrow> u8 \<Rightarrow> u8 \<Rightarrow> u8 \<Rightarrow> pci_bdf core_result" where
  "pci_bdf_new segment bus device fn =
     (if device \<ge> 32 then Inl (CoreError InvalidArgument ''PCI device number must be below 32'')
      else if fn \<ge> 8 then Inl (CoreError InvalidArgument ''PCI function number must be below 8'')
      else Inr \<lparr>bdf_segment = segment, bdf_bus = bus, bdf_device = device, bdf_function = fn\<rparr>)"

datatype pci_bar_kind = Memory32 | Memory64 | IoPort

record pci_bar =
  bar_index :: u8
  bar_base :: u64
  bar_length :: u64
  bar_kind :: pci_bar_kind
  bar_prefetchable :: bool

definition pci_bar_new :: "u8 \<Rightarrow> u64 \<Rightarrow> u64 \<Rightarrow> pci_bar_kind \<Rightarrow> bool \<Rightarrow> pci_bar core_result" where
  "pci_bar_new index base len k prefetchable =
     (if index \<ge> 6 \<or> len = 0
      then Inl (CoreError InvalidArgument ''PCI BAR index and length must describe a real BAR'')
      else case ok_or (checked_add base len) (CoreError InvalidAddress ''PCI BAR address range overflowed'') of
        Inl e \<Rightarrow> Inl e
      | Inr _ \<Rightarrow> Inr \<lparr>bar_index = index, bar_base = base, bar_length = len, bar_kind = k,
          bar_prefetchable = prefetchable\<rparr>)"

record msi_capability =
  msi_vectors :: u16
  msi_is_msix :: bool
  msi_masked :: bool

definition msi_capability_new :: "u16 \<Rightarrow> bool \<Rightarrow> bool \<Rightarrow> msi_capability core_result" where
  "msi_capability_new vectors is_msix masked =
     (if vectors = 0
      then Inl (CoreError InvalidArgument ''MSI/MSI-X capability must expose at least one vector'')
      else Inr \<lparr>msi_vectors = vectors, msi_is_msix = is_msix, msi_masked = masked\<rparr>)"

section \<open>Devices\<close>

record pci_device =
  dev_id :: device_id
  dev_bdf :: pci_bdf
  dev_vendor_id :: u16
  dev_device_id :: u16
  dev_class_code :: u32
  dev_bars :: "pci_bar option list"
  dev_msi :: "msi_capability option"

definition pci_device_new :: "device_id \<Rightarrow> pci_bdf \<Rightarrow> u16 \<Rightarrow> u16 \<Rightarrow> u32 \<Rightarrow> pci_device" where
  "pci_device_new i bdf vendor device class_code =
     \<lparr>dev_id = i, dev_bdf = bdf, dev_vendor_id = vendor, dev_device_id = device,
      dev_class_code = class_code, dev_bars = replicate 6 None, dev_msi = None\<rparr>"

definition with_bar :: "pci_device \<Rightarrow> pci_bar \<Rightarrow> pci_device core_result option" where
  "with_bar d bar =
     (let i = unat (bar_index bar) in
      if i \<ge> length (dev_bars d) then None
      else if dev_bars d ! i \<noteq> None then Some (Inl (CoreError Overlap ''PCI BAR index is already populated''))
      else Some (Inr (d\<lparr>dev_bars := (dev_bars d)[i := Some bar]\<rparr>)))"

definition with_msi :: "pci_device \<Rightarrow> msi_capability \<Rightarrow> pci_device" where
  "with_msi d msi = d\<lparr>dev_msi := Some msi\<rparr>"

section \<open>The inventory\<close>

record pci_inventory =
  inv_devices :: "pci_device option list"
  inv_len :: nat

definition pci_inventory_new :: "nat \<Rightarrow> pci_inventory" where
  "pci_inventory_new n = \<lparr>inv_devices = replicate n None, inv_len = 0\<rparr>"

definition pci_devices :: "pci_inventory \<Rightarrow> pci_device list" where
  "pci_devices t = List.map_filter id (take (inv_len t) (inv_devices t))"

definition pci_add :: "pci_inventory \<Rightarrow> pci_device \<Rightarrow> unit core_result \<times> pci_inventory" where
  "pci_add t d =
     (if inv_len t \<ge> length (inv_devices t)
      then (Inl (CoreError CapacityExceeded ''PCI inventory is full''), t)
      else if list_ex (\<lambda>existing. dev_bdf existing = dev_bdf d \<or> dev_id existing = dev_id d) (pci_devices t)
      then (Inl (CoreError Overlap ''PCI inventory contains a duplicate BDF or device id''), t)
      else (Inr (), t\<lparr>inv_devices := (inv_devices t)[inv_len t := Some d], inv_len := inv_len t + 1\<rparr>))"

section \<open>Well-formed devices\<close>

definition bar_wf :: "pci_bar \<Rightarrow> bool" where
  "bar_wf bar \<longleftrightarrow> unat (bar_index bar) < 6 \<and> bar_length bar \<noteq> 0
     \<and> unat (bar_base bar) + unat (bar_length bar) < 2 ^ 64"

definition device_wf :: "pci_device \<Rightarrow> bool" where
  "device_wf d \<longleftrightarrow> length (dev_bars d) = 6
     \<and> (\<forall>i < 6. \<forall>bar. dev_bars d ! i = Some bar \<longrightarrow> unat (bar_index bar) = i \<and> bar_wf bar)
     \<and> (\<forall>msi. dev_msi d = Some msi \<longrightarrow> msi_vectors msi \<noteq> 0)"

lemma pci_bar_new_wf: "pci_bar_new index base len k p = Inr bar \<Longrightarrow> bar_wf bar"
proof -
  assume ok: "pci_bar_new index base len k p = Inr bar"
  then obtain e where e: "checked_add base len = Some e" and i: "\<not> index \<ge> 6" "len \<noteq> 0"
      and bar: "bar = \<lparr>bar_index = index, bar_base = base, bar_length = len, bar_kind = k, bar_prefetchable = p\<rparr>"
    by (auto simp: pci_bar_new_def split: if_splits sum.splits)
  have "unat index < 6"
    using i(1) by (simp add: word_le_nat_alt)
  then show ?thesis
    using e i(2) bar unat_lt_64 [of e] by (simp add: bar_wf_def rust_arith)
qed

lemma device_new_wf: "device_wf (pci_device_new i bdf vendor device class_code)"
  by (simp add: device_wf_def pci_device_new_def)

lemma with_bar_wf:
  assumes "device_wf d" "bar_wf bar"
  shows "case with_bar d bar of
      None \<Rightarrow> False
    | Some (Inl e) \<Rightarrow> kind e = Overlap \<and> dev_bars d ! unat (bar_index bar) \<noteq> None
    | Some (Inr d') \<Rightarrow> device_wf d' \<and> dev_bars d ! unat (bar_index bar) = None
        \<and> dev_bars d' = (dev_bars d)[unat (bar_index bar) := Some bar]"
  using assms by (auto simp: with_bar_def device_wf_def bar_wf_def Let_def nth_list_update)

lemma with_msi_wf: "device_wf d \<Longrightarrow> msi_capability_new v x m = Inr msi \<Longrightarrow> device_wf (with_msi d msi)"
  by (auto simp: device_wf_def with_msi_def msi_capability_new_def split: if_splits)

text \<open>Building a device from a list of register descriptions, as the builders chain.\<close>

fun build_bars :: "pci_device \<Rightarrow> (u8 \<times> u64 \<times> u64 \<times> pci_bar_kind \<times> bool) list \<Rightarrow> pci_device core_result option" where
  "build_bars d [] = Some (Inr d)"
| "build_bars d ((index, base, len, k, p) # descs) =
     (case pci_bar_new index base len k p of
        Inl e \<Rightarrow> Some (Inl e)
      | Inr bar \<Rightarrow> (case with_bar d bar of
          None \<Rightarrow> None
        | Some (Inl e) \<Rightarrow> Some (Inl e)
        | Some (Inr d') \<Rightarrow> build_bars d' descs))"

lemma build_bars_wf:
  "device_wf d \<Longrightarrow> case build_bars d descs of None \<Rightarrow> False | Some (Inl e) \<Rightarrow> True | Some (Inr d') \<Rightarrow> device_wf d'"
proof (induction d descs rule: build_bars.induct)
  case (2 d index base len k p descs)
  show ?case
  proof (cases "pci_bar_new index base len k p")
    case (Inr bar)
    show ?thesis
    proof (cases "with_bar d bar")
      case None
      then show ?thesis using with_bar_wf [OF 2(2) pci_bar_new_wf [OF Inr]] by simp
    next
      case (Some r)
      then show ?thesis
        using with_bar_wf [OF 2(2) pci_bar_new_wf [OF Inr]] 2(1) [OF Inr Some] Inr
        by (cases r) auto
    qed
  qed simp
qed simp

section \<open>The inventory holds distinct devices\<close>

definition inventory_inv :: "pci_inventory \<Rightarrow> bool" where
  "inventory_inv t \<longleftrightarrow> inv_len t \<le> length (inv_devices t)
     \<and> take (inv_len t) (inv_devices t) = map Some (pci_devices t)
     \<and> distinct (map dev_bdf (pci_devices t)) \<and> distinct (map dev_id (pci_devices t))"

lemma inventory_inv_new: "inventory_inv (pci_inventory_new n)" "pci_devices (pci_inventory_new n) = []"
  by (simp_all add: inventory_inv_def pci_inventory_new_def pci_devices_def List.map_filter_def)

lemma pci_add_spec:
  assumes inv: "inventory_inv t"
  shows "case pci_add t d of
      (Inl e, t') \<Rightarrow> t' = t \<and> (kind e = CapacityExceeded \<and> length (pci_devices t) = length (inv_devices t)
        \<or> kind e = Overlap \<and> (dev_bdf d \<in> dev_bdf ` set (pci_devices t) \<or> dev_id d \<in> dev_id ` set (pci_devices t)))
    | (Inr _, t') \<Rightarrow> inventory_inv t' \<and> pci_devices t' = pci_devices t @ [d]
        \<and> length (inv_devices t') = length (inv_devices t)"
proof -
  have tk: "inv_len t \<le> length (inv_devices t)" "take (inv_len t) (inv_devices t) = map Some (pci_devices t)"
    and ds: "distinct (map dev_bdf (pci_devices t))" "distinct (map dev_id (pci_devices t))"
    using inv unfolding inventory_inv_def by blast+
  have len: "length (pci_devices t) = inv_len t"
    using arg_cong [OF tk(2), of length] tk(1) by simp
  consider (full) "inv_len t \<ge> length (inv_devices t)"
    | (dup) "inv_len t < length (inv_devices t)"
        "list_ex (\<lambda>x. dev_bdf x = dev_bdf d \<or> dev_id x = dev_id d) (pci_devices t)"
    | (ok) "inv_len t < length (inv_devices t)"
        "\<not> list_ex (\<lambda>x. dev_bdf x = dev_bdf d \<or> dev_id x = dev_id d) (pci_devices t)"
    by linarith
  then show ?thesis
  proof cases
    case full
    then show ?thesis using tk(1) len by (simp add: pci_add_def)
  next
    case dup
    then have "dev_bdf d \<in> dev_bdf ` set (pci_devices t) \<or> dev_id d \<in> dev_id ` set (pci_devices t)"
      unfolding list_ex_iff image_iff by metis
    then show ?thesis using dup by (simp add: pci_add_def)
  next
    case ok
    let ?t = "t\<lparr>inv_devices := (inv_devices t)[inv_len t := Some d], inv_len := inv_len t + 1\<rparr>"
    have live: "take (inv_len ?t) (inv_devices ?t) = map Some (pci_devices t @ [d])"
      using ok(1) tk(2) by (simp add: take_Suc_conv_app_nth)
    have devs: "pci_devices ?t = pci_devices t @ [d]"
      unfolding pci_devices_def [of ?t] live by (rule map_filter_Some)
    have "inventory_inv ?t"
      unfolding inventory_inv_def devs live using ok ds by (auto simp: list_ex_iff)
    then show ?thesis using ok devs by (simp add: pci_add_def)
  qed
qed

fun pci_add_all :: "pci_inventory \<Rightarrow> pci_device list \<Rightarrow> pci_device list \<times> pci_inventory" where
  "pci_add_all t [] = ([], t)"
| "pci_add_all t (d # ds) =
     (case pci_add t d of
        (Inl _, t') \<Rightarrow> pci_add_all t' ds
      | (Inr _, t') \<Rightarrow> (case pci_add_all t' ds of (acc, t'') \<Rightarrow> (d # acc, t'')))"

lemma pci_add_all_spec:
  "inventory_inv t \<Longrightarrow> pci_add_all t ds = (acc, t') \<Longrightarrow>
     inventory_inv t' \<and> pci_devices t' = pci_devices t @ acc \<and> length (inv_devices t') = length (inv_devices t)"
proof (induction ds arbitrary: t acc)
  case (Cons d ds)
  then show ?case
    using pci_add_spec [OF Cons.prems(1), of d] by (fastforce split: prod.splits sum.splits)
qed simp

section \<open>Properties of the PCI inventory\<close>

text \<open>
  Whatever devices are offered, the inventory lists exactly the accepted ones in the order they
  were added, never more than its capacity, and no two listed devices share a bus address or a
  device id.
\<close>

theorem pci_inventory_unique:
  assumes "pci_add_all (pci_inventory_new n) ds = (accepted, t)"
  shows "pci_devices t = accepted \<and> length (pci_devices t) \<le> n
    \<and> distinct (map dev_bdf (pci_devices t)) \<and> distinct (map dev_id (pci_devices t))"
proof -
  have t: "inventory_inv t" "pci_devices t = accepted" "length (inv_devices t) = n"
    using pci_add_all_spec [OF inventory_inv_new(1) assms] inventory_inv_new(2)
    by (simp_all add: pci_inventory_new_def)
  have "length (take (inv_len t) (inv_devices t)) = length (pci_devices t)"
    using t(1) unfolding inventory_inv_def by (metis length_map)
  then have "length (pci_devices t) \<le> n"
    using t(3) by simp
  with t(1,2) show ?thesis
    unfolding inventory_inv_def by blast
qed

definition demo_device :: "u32 \<Rightarrow> u8 \<Rightarrow> pci_device" where
  "demo_device i fn = pci_device_new (DeviceId i) \<lparr>bdf_segment = 0, bdf_bus = 0, bdf_device = 3, bdf_function = fn\<rparr>
     0x8086 0x1234 0x20000"

theorem pci_inventory_unique_witness:
  "\<exists>t. pci_add_all (pci_inventory_new 2) [demo_device 1 0, demo_device 1 1, demo_device 2 1, demo_device 3 2]
     = ([demo_device 1 0, demo_device 2 1], t) \<and> pci_devices t = [demo_device 1 0, demo_device 2 1]"
proof -
  have "\<exists>t. pci_add_all (pci_inventory_new 2) [demo_device 1 0, demo_device 1 1, demo_device 2 1, demo_device 3 2]
     = ([demo_device 1 0, demo_device 2 1], t)"
    by (simp add: pci_inventory_new_def replicate_small pci_add_def pci_devices_def demo_device_def
        pci_device_new_def List.map_filter_def)
  then show ?thesis
    using pci_inventory_unique by blast
qed

text \<open>
  C39. A device assembled by the builders is well formed: it has six register cells, a register
  description sits in the cell its index names, covers a non-empty range that does not wrap around
  the address space, and an interrupt capability has a vector; assembling from arbitrary
  descriptions never indexes outside the array.
\<close>

theorem pci_device_build_wf:
  "case build_bars (pci_device_new i bdf vendor device class_code) descs of
     None \<Rightarrow> False
   | Some (Inl e) \<Rightarrow> True
   | Some (Inr d) \<Rightarrow> device_wf d
       \<and> (case msi_capability_new v x m of Inl e \<Rightarrow> v = 0 | Inr msi \<Rightarrow> device_wf (with_msi d msi))"
proof -
  have msi: "msi_capability_new v x m = Inl e \<Longrightarrow> v = 0" for e
    by (simp add: msi_capability_new_def split: if_splits)
  show ?thesis
    using build_bars_wf [OF device_new_wf [of i bdf vendor device class_code], of descs] with_msi_wf msi
    by (auto split: option.splits sum.splits)
qed

end
