(* ===== verification/Crash.thy ===== *)
theory Crash
  imports Core_Ids
begin

text \<open>
  Crash records (\<open>crates/aegishv-hypervisor-core/src/crash.rs\<close>): fixed-capacity text, crash
  reasons, build information and the record. A \<open>&str\<close> is the list of its bytes, which the
  language keeps valid UTF-8; \<open>core::str::from_utf8\<close> is the check \<open>utf8_valid\<close> by the table
  of well-formed byte sequences.
\<close>

section \<open>UTF-8\<close>

definition byte_in :: "nat \<Rightarrow> nat \<Rightarrow> u8 \<Rightarrow> bool" where
  "byte_in lo hi b \<longleftrightarrow> lo \<le> unat b \<and> unat b \<le> hi"

text \<open>The bytes a lead byte asks for: the bounds of each continuation byte, \<^const>\<open>None\<close> for no lead byte.\<close>

definition utf8_tail :: "u8 \<Rightarrow> (nat \<times> nat) list option" where
  "utf8_tail b =
     (if byte_in 0 0x7F b then Some []
      else if byte_in 0xC2 0xDF b then Some [(0x80, 0xBF)]
      else if byte_in 0xE0 0xE0 b then Some [(0xA0, 0xBF), (0x80, 0xBF)]
      else if byte_in 0xED 0xED b then Some [(0x80, 0x9F), (0x80, 0xBF)]
      else if byte_in 0xE1 0xEF b then Some [(0x80, 0xBF), (0x80, 0xBF)]
      else if byte_in 0xF0 0xF0 b then Some [(0x90, 0xBF), (0x80, 0xBF), (0x80, 0xBF)]
      else if byte_in 0xF1 0xF3 b then Some [(0x80, 0xBF), (0x80, 0xBF), (0x80, 0xBF)]
      else if byte_in 0xF4 0xF4 b then Some [(0x80, 0x8F), (0x80, 0xBF), (0x80, 0xBF)]
      else None)"

text \<open>One pass over the bytes with the bounds the current character still needs.\<close>

fun utf8_check :: "(nat \<times> nat) list \<Rightarrow> u8 list \<Rightarrow> bool" where
  "utf8_check need [] = (need = [])"
| "utf8_check ((lo, hi) # need) (b # bs) = (byte_in lo hi b \<and> utf8_check need bs)"
| "utf8_check [] (b # bs) = (case utf8_tail b of None \<Rightarrow> False | Some need \<Rightarrow> utf8_check need bs)"

definition from_utf8 :: "u8 list \<Rightarrow> u8 list option" where
  "from_utf8 bs = (if utf8_check [] bs then Some bs else None)"

section \<open>Crash records\<close>

datatype crash_code = CrashPanic | MachineCheck | TripleFault | Assertion | CrashUnsupported

record fixed_text =
  ft_bytes :: "u8 list"
  ft_len :: nat

definition fixed_text_new :: "nat \<Rightarrow> u8 list \<Rightarrow> fixed_text core_result" where
  "fixed_text_new n txt =
     (if txt = [] then Inl (CoreError InvalidArgument ''fixed text must not be empty'')
      else if length txt > n
      then Inl (CoreError CapacityExceeded ''fixed text does not fit in the crash record field'')
      else let bytes = replicate n 0 in
        Inr \<lparr>ft_bytes = txt @ drop (length txt) bytes, ft_len = length txt\<rparr>)"

definition fixed_text_as_str :: "fixed_text \<Rightarrow> u8 list" where
  "fixed_text_as_str t = (case from_utf8 (take (ft_len t) (ft_bytes t)) of Some s \<Rightarrow> s | None \<Rightarrow> [])"

record crash_reason =
  cr_code :: crash_code
  cr_detail :: fixed_text

definition crash_reason_new :: "crash_code \<Rightarrow> u8 list \<Rightarrow> crash_reason core_result" where
  "crash_reason_new code detail =
     (case fixed_text_new 96 detail of
        Inl e \<Rightarrow> Inl e
      | Inr t \<Rightarrow> Inr \<lparr>cr_code = code, cr_detail = t\<rparr>)"

record build_info =
  bi_name :: "u8 list"
  bi_version :: "u8 list"
  bi_git_rev :: "u8 list"

definition build_info_new :: "u8 list \<Rightarrow> u8 list \<Rightarrow> u8 list \<Rightarrow> build_info core_result" where
  "build_info_new name version git_rev =
     (if name = [] \<or> version = [] \<or> git_rev = []
      then Inl (CoreError InvalidArgument ''build info requires name, version, and git revision'')
      else Inr \<lparr>bi_name = name, bi_version = version, bi_git_rev = git_rev\<rparr>)"

record crash_record =
  rec_cpu :: physical_cpu_id
  rec_reason :: crash_reason
  rec_instruction_pointer :: "u64 option"
  rec_build :: build_info

definition crash_record_new ::
    "physical_cpu_id \<Rightarrow> crash_reason \<Rightarrow> u64 option \<Rightarrow> build_info \<Rightarrow> crash_record" where
  "crash_record_new cpu reason ip build =
     \<lparr>rec_cpu = cpu, rec_reason = reason, rec_instruction_pointer = ip, rec_build = build\<rparr>"

lemma fixed_text_round_trip:
  "fixed_text_new n txt = Inr t \<Longrightarrow>
     fixed_text_as_str t = (if utf8_check [] txt then txt else []) \<and> length (ft_bytes t) = n \<and> ft_len t \<le> n"
  by (auto simp: fixed_text_new_def fixed_text_as_str_def from_utf8_def Let_def split: if_splits)

section \<open>Properties of crash records\<close>

text \<open>
  A crash reason keeps its text: every non-empty UTF-8 detail of at most 96 bytes is stored in a
  buffer of exactly 96 bytes and read back unchanged with its code, and anything else is refused with
  the error that tells an empty text from one that is too long.
\<close>

theorem crash_reason_round_trip:
  assumes "utf8_check [] detail"
  shows "case crash_reason_new code detail of
      Inr r \<Rightarrow> cr_code r = code \<and> fixed_text_as_str (cr_detail r) = detail
        \<and> length (ft_bytes (cr_detail r)) = 96 \<and> detail \<noteq> [] \<and> length detail \<le> 96
    | Inl e \<Rightarrow> kind e = (if detail = [] then InvalidArgument else CapacityExceeded)
        \<and> (detail = [] \<or> length detail > 96)"
proof (cases "fixed_text_new 96 detail")
  case (Inl e)
  then show ?thesis
    by (auto simp: crash_reason_new_def fixed_text_new_def Let_def split: if_splits)
next
  case (Inr t)
  then have "detail \<noteq> []" "length detail \<le> 96"
    by (auto simp: fixed_text_new_def split: if_splits)
  then show ?thesis
    using fixed_text_round_trip [OF Inr] Inr assms by (simp add: crash_reason_new_def)
qed

theorem crash_reason_round_trip_witness:
  "\<exists>r. crash_reason_new CrashPanic [0x70, 0xC3, 0xA9] = Inr r
     \<and> fixed_text_as_str (cr_detail r) = [0x70, 0xC3, 0xA9]"
proof -
  have v: "utf8_check [] [0x70, 0xC3, 0xA9]"
    by (simp add: utf8_tail_def byte_in_def)
  show ?thesis
    using crash_reason_round_trip [OF v, of CrashPanic]
    by (cases "crash_reason_new CrashPanic [0x70, 0xC3, 0xA9]") auto
qed

end
