(* ===== verification/Rust_Text.thy ===== *)
theory Rust_Text
  imports Prelude "HOL-Library.Sublist"
begin

text \<open>
  Strings of the source: a \<open>String\<close> or \<open>&str\<close> is the list of its UTF-8 bytes, one
  \<^typ>\<open>char\<close> per byte, which is also how the language stores and compares them. The functions here are
  the ones of the standard library the modelled code calls: trimming, prefixes and suffixes,
  searching, splitting, ASCII case and the \<open>{:#x}\<close> format of addresses.
\<close>

section \<open>Prefixes, suffixes, searching and splitting\<close>

definition starts_with :: "string \<Rightarrow> string \<Rightarrow> bool" where
  "starts_with p s \<longleftrightarrow> take (length p) s = p"

definition ends_with :: "string \<Rightarrow> string \<Rightarrow> bool" where
  "ends_with p s \<longleftrightarrow> length p \<le> length s \<and> drop (length s - length p) s = p"

definition strip_prefix :: "string \<Rightarrow> string \<Rightarrow> string option" where
  "strip_prefix p s = (if starts_with p s then Some (drop (length p) s) else None)"

definition strip_suffix :: "string \<Rightarrow> string \<Rightarrow> string option" where
  "strip_suffix p s = (if ends_with p s then Some (take (length s - length p) s) else None)"

fun str_find :: "string \<Rightarrow> string \<Rightarrow> nat option" where
  "str_find p [] = (if p = [] then Some 0 else None)"
| "str_find p (c # cs) = (if starts_with p (c # cs) then Some 0 else map_option Suc (str_find p cs))"

definition str_contains :: "string \<Rightarrow> string \<Rightarrow> bool" where
  "str_contains p s \<longleftrightarrow> str_find p s \<noteq> None"

fun split_char :: "char \<Rightarrow> string \<Rightarrow> string list" where
  "split_char c [] = [[]]"
| "split_char c (x # xs) =
     (if x = c then [] # split_char c xs
      else case split_char c xs of [] \<Rightarrow> [[x]] | piece # pieces \<Rightarrow> (x # piece) # pieces)"

text \<open>\<open>split\<close> at a separator of two bytes.\<close>

fun split_pair :: "char \<Rightarrow> char \<Rightarrow> string \<Rightarrow> string list" where
  "split_pair a b [] = [[]]"
| "split_pair a b [x] = [[x]]"
| "split_pair a b (x # y # xs) =
     (if x = a \<and> y = b then [] # split_pair a b xs
      else case split_pair a b (y # xs) of [] \<Rightarrow> [[x]] | piece # pieces \<Rightarrow> (x # piece) # pieces)"

lemma starts_with_iff: "starts_with p s \<longleftrightarrow> (\<exists>t. s = p @ t)"
  unfolding starts_with_def by (metis append_eq_conv_conj)

lemma ends_with_iff: "ends_with p s \<longleftrightarrow> (\<exists>t. s = t @ p)"
proof
  assume "ends_with p s"
  then have "s = take (length s - length p) s @ p"
    unfolding ends_with_def by (metis append_take_drop_id)
  then show "\<exists>t. s = t @ p" by blast
qed (auto simp: ends_with_def)

lemma str_find_SomeD:
  "str_find p s = Some i \<Longrightarrow> s = take i s @ p @ drop (i + length p) s \<and> i \<le> length s"
proof (induction p s arbitrary: i rule: str_find.induct)
  case (2 p c cs)
  show ?case
  proof (cases "starts_with p (c # cs)")
    case True
    with 2(2) show ?thesis by (auto simp: starts_with_iff)
  next
    case False
    then obtain j where j: "str_find p cs = Some j" "i = Suc j"
      using 2(2) by auto
    then show ?thesis
      using 2(1) [OF False j(1)] by simp
  qed
qed (auto split: if_splits)

lemma str_find_front: "str_find p (p @ t) = Some 0"
proof (cases "p @ t")
  case (Cons c cs)
  then have "starts_with p (c # cs)"
    by (metis starts_with_iff)
  with Cons show ?thesis by simp
qed simp

lemma str_find_le: "str_find p (u @ p @ t) = Some i \<Longrightarrow> i \<le> length u"
  by (induction u arbitrary: i) (auto simp: str_find_front split: if_splits)

lemma str_find_exists: "\<exists>i. str_find p (u @ p @ t) = Some i"
  by (induction u) (auto simp: str_find_front)

lemma str_contains_iff: "str_contains p s \<longleftrightarrow> (\<exists>u t. s = u @ p @ t)"
  unfolding str_contains_def using str_find_SomeD str_find_exists by fastforce

section \<open>White space\<close>

text \<open>The encodings of the characters with the Unicode property \<open>White_Space\<close>.\<close>

definition white_space :: "string list" where
  "white_space =
     [[CHR 0x09], [CHR 0x0A], [CHR 0x0B], [CHR 0x0C], [CHR 0x0D], [CHR 0x20],
      [CHR 0xC2, CHR 0x85], [CHR 0xC2, CHR 0xA0], [CHR 0xE1, CHR 0x9A, CHR 0x80],
      [CHR 0xE2, CHR 0x80, CHR 0x80], [CHR 0xE2, CHR 0x80, CHR 0x81], [CHR 0xE2, CHR 0x80, CHR 0x82],
      [CHR 0xE2, CHR 0x80, CHR 0x83], [CHR 0xE2, CHR 0x80, CHR 0x84], [CHR 0xE2, CHR 0x80, CHR 0x85],
      [CHR 0xE2, CHR 0x80, CHR 0x86], [CHR 0xE2, CHR 0x80, CHR 0x87], [CHR 0xE2, CHR 0x80, CHR 0x88],
      [CHR 0xE2, CHR 0x80, CHR 0x89], [CHR 0xE2, CHR 0x80, CHR 0x8A],
      [CHR 0xE2, CHR 0x80, CHR 0xA8], [CHR 0xE2, CHR 0x80, CHR 0xA9], [CHR 0xE2, CHR 0x80, CHR 0xAF],
      [CHR 0xE2, CHR 0x81, CHR 0x9F], [CHR 0xE3, CHR 0x80, CHR 0x80]]"

function strip_front :: "string list \<Rightarrow> string \<Rightarrow> string" where
  "strip_front ws s =
     (case find (\<lambda>w. w \<noteq> [] \<and> starts_with w s) ws of
        None \<Rightarrow> s
      | Some w \<Rightarrow> strip_front ws (drop (length w) s))"
  by pat_completeness auto
termination
proof (relation "measure (\<lambda>(ws, s). length s)")
  fix ws :: "string list" and s w
  assume "find (\<lambda>w. w \<noteq> [] \<and> starts_with w s) ws = Some w"
  then have "w \<noteq> []" "starts_with w s"
    by (auto simp: find_Some_iff)
  then show "((ws, drop (length w) s), (ws, s)) \<in> measure (\<lambda>(ws, s). length s)"
    by (auto simp: starts_with_iff)
qed simp

declare strip_front.simps [simp del]

definition str_trim :: "string \<Rightarrow> string" where
  "str_trim s = rev (strip_front (map rev white_space) (rev (strip_front white_space s)))"

text \<open>\<open>s.trim().is_empty()\<close>.\<close>

definition blank :: "string \<Rightarrow> bool" where
  "blank s \<longleftrightarrow> str_trim s = []"

lemma blank_Nil [simp]: "blank []"
  by code_simp

lemma strip_front_keeps:
  "find (\<lambda>w. w \<noteq> [] \<and> starts_with w s) ws = None \<Longrightarrow> strip_front ws s = s"
  by (subst strip_front.simps) simp

section \<open>ASCII lower case and hexadecimal\<close>

definition ascii_lower :: "char \<Rightarrow> char" where
  "ascii_lower c = (let n = of_char c :: nat in if 65 \<le> n \<and> n \<le> 90 then char_of (n + 32) else c)"

definition to_ascii_lowercase :: "string \<Rightarrow> string" where
  "to_ascii_lowercase = map ascii_lower"

definition hex_digit :: "nat \<Rightarrow> char" where
  "hex_digit d = ''0123456789abcdef'' ! d"

fun hex_nat :: "nat \<Rightarrow> string" where
  "hex_nat n = (if n < 16 then [hex_digit n] else hex_nat (n div 16) @ [hex_digit (n mod 16)])"

declare hex_nat.simps [simp del]

text \<open>\<open>{:#x}\<close>.\<close>

definition hex_u64 :: "u64 \<Rightarrow> string" where
  "hex_u64 w = ''0x'' @ hex_nat (unat w)"

lemma hex_digit_inj: "a < 16 \<Longrightarrow> b < 16 \<Longrightarrow> hex_digit a = hex_digit b \<Longrightarrow> a = b"
proof -
  assume ab: "a < 16" "b < 16" "hex_digit a = hex_digit b"
  have "distinct ''0123456789abcdef''" "length ''0123456789abcdef'' = 16"
    by simp_all
  then show "a = b"
    using ab nth_eq_iff_index_eq unfolding hex_digit_def by metis
qed

lemma hex_nat_inj: "hex_nat m = hex_nat n \<Longrightarrow> m = n"
proof (induction m arbitrary: n rule: hex_nat.induct)
  case (1 m)
  have ne: "hex_nat k \<noteq> []" for k
    by (subst hex_nat.simps) simp
  show ?case
  proof (cases "m < 16"; cases "n < 16")
    assume "m < 16" "n < 16"
    with 1(2) show "m = n"
      using hex_digit_inj [of m n] by (simp add: hex_nat.simps [of m] hex_nat.simps [of n])
  next
    assume "m < 16" "\<not> n < 16"
    with 1(2) ne ne [symmetric] show "m = n"
      by (simp add: hex_nat.simps [of m] hex_nat.simps [of n])
  next
    assume "\<not> m < 16" "n < 16"
    with 1(2) ne ne [symmetric] show "m = n"
      by (simp add: hex_nat.simps [of m] hex_nat.simps [of n])
  next
    assume big: "\<not> m < 16" "\<not> n < 16"
    then have "hex_nat (m div 16) = hex_nat (n div 16)" "hex_digit (m mod 16) = hex_digit (n mod 16)"
      using 1(2) by (simp_all add: hex_nat.simps [of m] hex_nat.simps [of n])
    then have "m div 16 = n div 16" "m mod 16 = n mod 16"
      using 1(1) [OF big(1)] hex_digit_inj [of "m mod 16" "n mod 16"] by simp_all
    then show "m = n"
      by (metis mult_div_mod_eq)
  qed
qed

lemma hex_u64_inj: "hex_u64 a = hex_u64 b \<longleftrightarrow> a = b"
  using hex_nat_inj by (auto simp: hex_u64_def word_unat_eq_iff)

lemma set_hex_nat: "set (hex_nat n) \<subseteq> set ''0123456789abcdef''"
proof (induction n rule: hex_nat.induct)
  case (1 n)
  have d: "hex_digit k \<in> set ''0123456789abcdef''" if "k < 16" for k
    unfolding hex_digit_def using that by (intro nth_mem) simp
  show ?case
    using 1 d [of n] d [of "n mod 16"] by (subst hex_nat.simps) (simp split: if_split)
qed

end
