(* ===== verification/Stage2.thy ===== *)
theory Stage2
  imports Rust_Text
begin

text \<open>
  The vocabulary of the trap engine: its errors (\<open>src/trap/mod.rs\<close>), and the page sizes, backends,
  permissions and mappings of the second translation stage (\<open>src/trap/stage2.rs\<close>).
\<close>

section \<open>Errors of the trap engine\<close>

datatype trap_error_kind =
    TrapInvalidAddress
  | TrapInvalidPageSize
  | TrapMisaligned
  | TrapOverlap
  | TrapNotMapped
  | TrapUnsupportedCapability
  | TrapInvalidState
  | TrapPolicyDenied
  | TrapMalformedInput

fun trap_error_kind_str :: "trap_error_kind \<Rightarrow> string" where
  "trap_error_kind_str TrapInvalidAddress = ''invalid_address''"
| "trap_error_kind_str TrapInvalidPageSize = ''invalid_page_size''"
| "trap_error_kind_str TrapMisaligned = ''misaligned''"
| "trap_error_kind_str TrapOverlap = ''overlap''"
| "trap_error_kind_str TrapNotMapped = ''not_mapped''"
| "trap_error_kind_str TrapUnsupportedCapability = ''unsupported_capability''"
| "trap_error_kind_str TrapInvalidState = ''invalid_state''"
| "trap_error_kind_str TrapPolicyDenied = ''policy_denied''"
| "trap_error_kind_str TrapMalformedInput = ''malformed_input''"

datatype trap_error = TrapError (trap_error_kind: trap_error_kind) (trap_error_detail: string)

type_synonym 'a trap_result = "trap_error + 'a"

definition trap_error_display :: "trap_error \<Rightarrow> string" where
  "trap_error_display e = trap_error_kind_str (trap_error_kind e) @ '': '' @ trap_error_detail e"

section \<open>Page sizes\<close>

datatype page_size = Pg4K | Pg2M | Pg1G

fun page_size_bytes :: "page_size \<Rightarrow> u64" where
  "page_size_bytes Pg4K = 4096"
| "page_size_bytes Pg2M = 2 * 1024 * 1024"
| "page_size_bytes Pg1G = 1024 * 1024 * 1024"

fun page_size_str :: "page_size \<Rightarrow> string" where
  "page_size_str Pg4K = ''4k''"
| "page_size_str Pg2M = ''2m''"
| "page_size_str Pg1G = ''1g''"

definition is_aligned :: "page_size \<Rightarrow> u64 \<Rightarrow> bool" where
  "is_aligned sz addr \<longleftrightarrow> addr mod page_size_bytes sz = 0"

definition page_align_down :: "page_size \<Rightarrow> u64 \<Rightarrow> u64" where
  "page_align_down sz addr = addr - addr mod page_size_bytes sz"

fun immediate_child :: "page_size \<Rightarrow> page_size option" where
  "immediate_child Pg1G = Some Pg2M"
| "immediate_child Pg2M = Some Pg4K"
| "immediate_child Pg4K = None"

definition split_count :: "page_size \<Rightarrow> page_size \<Rightarrow> u64 trap_result" where
  "split_count sz target =
     (if immediate_child sz \<noteq> Some target
      then Inl (TrapError TrapUnsupportedCapability
        (''stage-2 model splits one page-table level at a time; cannot split '' @ page_size_str sz
          @ '' directly to '' @ page_size_str target))
      else Inr (page_size_bytes sz div page_size_bytes target))"

section \<open>Backends and their limits\<close>

datatype stage2_backend_kind = Synthetic | IntelEpt | AmdNpt | ArmStage2

fun backend_str :: "stage2_backend_kind \<Rightarrow> string" where
  "backend_str Synthetic = ''synthetic''"
| "backend_str IntelEpt = ''intel_ept''"
| "backend_str AmdNpt = ''amd_npt''"
| "backend_str ArmStage2 = ''arm_stage2''"

datatype memory_type = WriteBack | WriteThrough | WriteCombining | WriteProtected | Uncacheable | Normal | Device

fun memory_type_str :: "memory_type \<Rightarrow> string" where
  "memory_type_str WriteBack = ''write_back''"
| "memory_type_str WriteThrough = ''write_through''"
| "memory_type_str WriteCombining = ''write_combining''"
| "memory_type_str WriteProtected = ''write_protected''"
| "memory_type_str Uncacheable = ''uncacheable''"
| "memory_type_str Normal = ''normal''"
| "memory_type_str Device = ''device''"

record stage2_limits =
  lim_backend :: stage2_backend_kind
  lim_page_sizes :: "page_size list"
  lim_memory_types :: "memory_type list"
  lim_supports_execute_only :: bool
  lim_supports_write_without_read :: bool
  lim_note :: string

fun backend_limits :: "stage2_backend_kind \<Rightarrow> stage2_limits" where
  "backend_limits Synthetic =
     \<lparr>lim_backend = Synthetic, lim_page_sizes = [Pg4K, Pg2M, Pg1G],
      lim_memory_types = [WriteBack, Uncacheable], lim_supports_execute_only = True,
      lim_supports_write_without_read = True, lim_note = ''pure model; no hardware permission writes''\<rparr>"
| "backend_limits IntelEpt =
     \<lparr>lim_backend = IntelEpt, lim_page_sizes = [Pg4K, Pg2M, Pg1G],
      lim_memory_types = [Uncacheable, WriteCombining, WriteThrough, WriteProtected, WriteBack],
      lim_supports_execute_only = True, lim_supports_write_without_read = True,
      lim_note = ''model of EPT permission bits and memory type field''\<rparr>"
| "backend_limits AmdNpt =
     \<lparr>lim_backend = AmdNpt, lim_page_sizes = [Pg4K, Pg2M, Pg1G],
      lim_memory_types = [WriteBack, Uncacheable], lim_supports_execute_only = False,
      lim_supports_write_without_read = False, lim_note = ''model of NPT R/W/NX semantics''\<rparr>"
| "backend_limits ArmStage2 =
     \<lparr>lim_backend = ArmStage2, lim_page_sizes = [Pg4K, Pg2M, Pg1G],
      lim_memory_types = [Normal, Device], lim_supports_execute_only = True,
      lim_supports_write_without_read = False,
      lim_note = ''model of Stage-2 access permissions and XN bits''\<rparr>"

section \<open>Permissions\<close>

datatype trap_access_kind = AccessRead | AccessWrite | AccessExecute

fun access_str :: "trap_access_kind \<Rightarrow> string" where
  "access_str AccessRead = ''read''"
| "access_str AccessWrite = ''write''"
| "access_str AccessExecute = ''execute''"

record stage2_permissions =
  p_read :: bool
  p_write :: bool
  p_exec :: bool

definition permissions_new :: "bool \<Rightarrow> bool \<Rightarrow> bool \<Rightarrow> stage2_permissions" where
  "permissions_new r w x = \<lparr>p_read = r, p_write = w, p_exec = x\<rparr>"

abbreviation perm_none :: stage2_permissions where
  "perm_none \<equiv> permissions_new False False False"

abbreviation perm_read :: stage2_permissions where
  "perm_read \<equiv> permissions_new True False False"

abbreviation perm_read_write :: stage2_permissions where
  "perm_read_write \<equiv> permissions_new True True False"

abbreviation perm_read_exec :: stage2_permissions where
  "perm_read_exec \<equiv> permissions_new True False True"

abbreviation perm_exec :: stage2_permissions where
  "perm_exec \<equiv> permissions_new False False True"

abbreviation perm_rwx :: stage2_permissions where
  "perm_rwx \<equiv> permissions_new True True True"

fun without_access :: "stage2_permissions \<Rightarrow> trap_access_kind \<Rightarrow> stage2_permissions" where
  "without_access p AccessRead = p\<lparr>p_read := False\<rparr>"
| "without_access p AccessWrite = p\<lparr>p_write := False\<rparr>"
| "without_access p AccessExecute = p\<lparr>p_exec := False\<rparr>"

fun with_access :: "stage2_permissions \<Rightarrow> trap_access_kind \<Rightarrow> bool \<Rightarrow> stage2_permissions" where
  "with_access p AccessRead enabled = p\<lparr>p_read := enabled\<rparr>"
| "with_access p AccessWrite enabled = p\<lparr>p_write := enabled\<rparr>"
| "with_access p AccessExecute enabled = p\<lparr>p_exec := enabled\<rparr>"

fun perm_allows :: "stage2_permissions \<Rightarrow> trap_access_kind \<Rightarrow> bool" where
  "perm_allows p AccessRead = p_read p"
| "perm_allows p AccessWrite = p_write p"
| "perm_allows p AccessExecute = p_exec p"

abbreviation perm_is_wx :: "stage2_permissions \<Rightarrow> bool" where
  "perm_is_wx p \<equiv> p_write p \<and> p_exec p"

definition perm_compact :: "stage2_permissions \<Rightarrow> string" where
  "perm_compact p =
     [if p_read p then CHR ''r'' else CHR ''-'', if p_write p then CHR ''w'' else CHR ''-'',
      if p_exec p then CHR ''x'' else CHR ''-'']"

section \<open>Mappings\<close>

record stage2_mapping =
  m_owner_vm :: string
  m_address_space :: string
  m_base :: u64
  m_page_size :: page_size
  m_memory_type :: memory_type
  m_permissions :: stage2_permissions

definition stage2_mapping_new ::
    "string \<Rightarrow> string \<Rightarrow> u64 \<Rightarrow> page_size \<Rightarrow> memory_type \<Rightarrow> stage2_permissions \<Rightarrow> stage2_mapping trap_result" where
  "stage2_mapping_new owner_vm address_space base sz mt p =
     (if \<not> is_aligned sz base
      then Inl (TrapError TrapMisaligned
        (''stage-2 mapping base '' @ hex_u64 base @ '' is not aligned to '' @ page_size_str sz))
      else if blank owner_vm
      then Inl (TrapError TrapMalformedInput ''stage-2 mapping requires a non-empty owner VM'')
      else if blank address_space
      then Inl (TrapError TrapMalformedInput ''stage-2 mapping requires a non-empty address space'')
      else Inr \<lparr>m_owner_vm = owner_vm, m_address_space = address_space, m_base = base,
        m_page_size = sz, m_memory_type = mt, m_permissions = p\<rparr>)"

definition mapping_end :: "stage2_mapping \<Rightarrow> u64 trap_result" where
  "mapping_end m =
     (case checked_add (m_base m) (page_size_bytes (m_page_size m)) of
        None \<Rightarrow> Inl (TrapError TrapInvalidAddress
          (''stage-2 mapping at '' @ hex_u64 (m_base m) @ '' overflows address space''))
      | Some e \<Rightarrow> Inr e)"

definition mapping_contains :: "stage2_mapping \<Rightarrow> u64 \<Rightarrow> bool" where
  "mapping_contains m gpa = (case mapping_end m of Inr e \<Rightarrow> m_base m \<le> gpa \<and> gpa < e | Inl _ \<Rightarrow> False)"

section \<open>Facts about page sizes, permissions and mappings\<close>

named_theorems stage2 \<open>mappings read through natural number addresses\<close>

lemma page_size_bytes_bounds [simp]:
  "0 < unat (page_size_bytes sz)" "unat (page_size_bytes sz) \<le> 1073741824" "page_size_bytes sz \<noteq> 0"
  by (cases sz; simp)+

lemma is_aligned_dvd: "is_aligned sz a \<longleftrightarrow> unat (page_size_bytes sz) dvd unat a"
  by (simp add: is_aligned_def word_unat_eq_iff unat_mod_distrib dvd_eq_mod_eq_0)

lemma unat_align_down: "unat (page_align_down sz a) = unat a - unat a mod unat (page_size_bytes sz)"
proof -
  have "a mod page_size_bytes sz \<le> a"
    by (simp add: word_le_nat_alt unat_mod_distrib)
  then show ?thesis
    by (simp add: page_align_down_def unat_sub unat_mod_distrib)
qed

lemma align_down_aligned [simp]: "is_aligned sz (page_align_down sz a)"
  by (simp add: is_aligned_dvd unat_align_down dvd_minus_mod)

lemma align_down_bounds:
  "unat (page_align_down sz a) \<le> unat a" "unat a < unat (page_align_down sz a) + unat (page_size_bytes sz)"
proof -
  have "unat a mod unat (page_size_bytes sz) < unat (page_size_bytes sz)"
    by simp
  then show "unat (page_align_down sz a) \<le> unat a" "unat a < unat (page_align_down sz a) + unat (page_size_bytes sz)"
    unfolding unat_align_down using mod_less_eq_dividend [of "unat a" "unat (page_size_bytes sz)"] by linarith+
qed

lemma align_down_unique:
  assumes "is_aligned sz b" "unat b \<le> unat a" "unat a < unat b + unat (page_size_bytes sz)"
  shows "page_align_down sz a = b"
proof -
  obtain k where k: "unat b = unat (page_size_bytes sz) * k"
    using assms(1) unfolding is_aligned_dvd by (rule dvdE)
  have "unat a - unat b < unat (page_size_bytes sz)"
    using assms(2,3) by linarith
  moreover have "unat a = (unat a - unat b) + unat (page_size_bytes sz) * k"
    using assms(2) k by simp
  ultimately have "unat a mod unat (page_size_bytes sz) = unat a - unat b"
    by (metis mod_less mod_mult_self2)
  then show ?thesis
    using assms(2) by (simp add: word_unat_eq_iff unat_align_down)
qed

lemma without_access_allows:
  "perm_allows (without_access p a) b \<longleftrightarrow> b \<noteq> a \<and> perm_allows p b"
  by (cases a; cases b) auto

lemma with_access_allows:
  "perm_allows (with_access p a e) b \<longleftrightarrow> (if b = a then e else perm_allows p b)"
  by (cases a; cases b) auto

lemma permissions_eqI: "(\<And>a. perm_allows p a = perm_allows q a) \<Longrightarrow> p = (q :: stage2_permissions)"
  by (metis (full_types) perm_allows.simps stage2_permissions.equality unit.exhaust)

lemma with_without_access: "with_access (without_access p a) a (perm_allows p a) = (p :: stage2_permissions)"
  by (rule permissions_eqI) (simp add: with_access_allows without_access_allows)

lemma mapping_end_ok [stage2]:
  "mapping_end m = Inr e \<longleftrightarrow> unat e = unat (m_base m) + unat (page_size_bytes (m_page_size m))"
  unfolding checked_add_eq_Some [symmetric]
  by (cases "checked_add (m_base m) (page_size_bytes (m_page_size m))") (simp_all add: mapping_end_def)

text \<open>A mapping whose end is an address; the others are never matched by a lookup.\<close>

definition mapping_fits :: "stage2_mapping \<Rightarrow> bool" where
  "mapping_fits m \<longleftrightarrow> unat (m_base m) + unat (page_size_bytes (m_page_size m)) < 2 ^ 64"

lemma mapping_end_fits: "(\<exists>e. mapping_end m = Inr e) \<longleftrightarrow> mapping_fits m"
proof
  assume "\<exists>e. mapping_end m = Inr e"
  then obtain e :: u64 where "unat e = unat (m_base m) + unat (page_size_bytes (m_page_size m))"
    by (auto simp: mapping_end_ok)
  then show "mapping_fits m"
    using unat_lt_64 [of e] by (simp add: mapping_fits_def)
next
  assume "mapping_fits m"
  then show "\<exists>e. mapping_end m = Inr e"
    by (auto simp: mapping_fits_def mapping_end_def checked_add_def)
qed

lemma mapping_contains_iff:
  "mapping_contains m gpa \<longleftrightarrow> mapping_fits m \<and> unat (m_base m) \<le> unat gpa
     \<and> unat gpa < unat (m_base m) + unat (page_size_bytes (m_page_size m))"
proof (cases "mapping_end m")
  case (Inl e)
  then show ?thesis
    using mapping_end_fits [of m] by (auto simp: mapping_contains_def)
next
  case (Inr e)
  moreover from this have "mapping_fits m" "unat e = unat (m_base m) + unat (page_size_bytes (m_page_size m))"
    using mapping_end_fits [of m] by (blast, simp add: mapping_end_ok)
  ultimately show ?thesis
    by (simp add: mapping_contains_def word_less_nat_alt word_le_nat_alt)
qed

lemma stage2_mapping_new_ok:
  "stage2_mapping_new vm asp base sz mt p = Inr m \<longleftrightarrow> is_aligned sz base \<and> \<not> blank vm \<and> \<not> blank asp
     \<and> m = \<lparr>m_owner_vm = vm, m_address_space = asp, m_base = base, m_page_size = sz, m_memory_type = mt,
            m_permissions = p\<rparr>"
  by (auto simp: stage2_mapping_new_def)

end
