(* ===== verification/Btree_Map.thy ===== *)
theory Btree_Map
  imports Prelude
begin

text \<open>
  \<open>std::collections::BTreeMap\<close>: a map that is iterated in key order. It is the list of its
  entries in ascending key order; \<open>btree_ok\<close> says so and every operation keeps it.
\<close>

type_synonym ('k, 'v) btree = "('k \<times> 'v) list"

definition btree_ok :: "('k::linorder, 'v) btree \<Rightarrow> bool" where
  "btree_ok m \<longleftrightarrow> sorted_wrt (<) (map fst m)"

abbreviation btree_get :: "('k, 'v) btree \<Rightarrow> 'k \<Rightarrow> 'v option" where
  "btree_get \<equiv> map_of"

abbreviation btree_values :: "('k, 'v) btree \<Rightarrow> 'v list" where
  "btree_values \<equiv> map snd"

fun btree_insert :: "'k::linorder \<Rightarrow> 'v \<Rightarrow> ('k, 'v) btree \<Rightarrow> ('k, 'v) btree" where
  "btree_insert k v [] = [(k, v)]"
| "btree_insert k v ((k', v') # m) =
     (if k < k' then (k, v) # (k', v') # m
      else if k = k' then (k, v) # m
      else (k', v') # btree_insert k v m)"

definition btree_remove :: "'k \<Rightarrow> ('k, 'v) btree \<Rightarrow> ('k, 'v) btree" where
  "btree_remove k m = filter (\<lambda>(k', v). k' \<noteq> k) m"

text \<open>Replace the value of an entry that is there (\<open>get_mut\<close> and a write through it).\<close>

definition btree_update :: "'k \<Rightarrow> ('v \<Rightarrow> 'v) \<Rightarrow> ('k, 'v) btree \<Rightarrow> ('k, 'v) btree" where
  "btree_update k f m = map (\<lambda>(k', v). (k', if k' = k then f v else v)) m"

lemma btree_ok_Nil [simp]: "btree_ok []"
  by (simp add: btree_ok_def)

lemma btree_ok_Cons [simp]: "btree_ok ((k, v) # m) \<longleftrightarrow> (\<forall>k' \<in> fst ` set m. k < k') \<and> btree_ok m"
  by (auto simp: btree_ok_def)

lemma btree_ok_distinct: "btree_ok m \<Longrightarrow> distinct (map fst m)"
  by (simp add: btree_ok_def strict_sorted_iff)

lemma btree_get_iff: "btree_ok m \<Longrightarrow> btree_get m k = Some v \<longleftrightarrow> (k, v) \<in> set m"
  by (simp add: btree_ok_distinct)

lemma fst_set_btree_insert [simp]: "fst ` set (btree_insert k v m) = insert k (fst ` set m)"
  by (induction k v m rule: btree_insert.induct) auto

lemma btree_ok_insert [simp]: "btree_ok m \<Longrightarrow> btree_ok (btree_insert k v m)"
  by (induction k v m rule: btree_insert.induct) force+

lemma btree_get_insert [simp]: "btree_get (btree_insert k v m) = (btree_get m)(k \<mapsto> v)"
  by (induction k v m rule: btree_insert.induct) (auto simp: fun_eq_iff)

lemma set_btree_insert:
  "btree_ok m \<Longrightarrow> set (btree_insert k v m) = insert (k, v) {(k', v') \<in> set m. k' \<noteq> k}"
  by (induction k v m rule: btree_insert.induct) force+

lemma btree_ok_remove [simp]: "btree_ok m \<Longrightarrow> btree_ok (btree_remove k m)"
  by (induction m) (auto simp: btree_remove_def)

lemma set_btree_remove [simp]: "set (btree_remove k m) = {(k', v') \<in> set m. k' \<noteq> k}"
  by (auto simp: btree_remove_def)

lemma btree_get_remove: "btree_get (btree_remove k m) k' = (if k' = k then None else btree_get m k')"
  by (induction m) (auto simp: btree_remove_def)

lemma fst_btree_update [simp]: "map fst (btree_update k f m) = map fst m"
  by (simp add: btree_update_def case_prod_unfold comp_def)

lemma btree_ok_update [simp]: "btree_ok (btree_update k f m) = btree_ok m"
  by (simp add: btree_ok_def)

lemma btree_get_update: "btree_get (btree_update k f m) k' = (if k' = k then map_option f (btree_get m k') else btree_get m k')"
  by (induction m) (auto simp: btree_update_def)

lemma btree_insert_many:
  assumes "btree_ok m" "distinct (map f is)" "\<And>i. i \<in> set is \<Longrightarrow> f i \<notin> fst ` set m"
  shows "btree_ok (foldl (\<lambda>m i. btree_insert (f i) (g i) m) m is)
    \<and> set (foldl (\<lambda>m i. btree_insert (f i) (g i) m) m is) = set m \<union> (\<lambda>i. (f i, g i)) ` set is"
  using assms
proof (induction "is" arbitrary: m)
  case (Cons i "is")
  have fresh: "f j \<notin> fst ` set (btree_insert (f i) (g i) m)" if "j \<in> set is" for j
  proof -
    have "f j \<in> f ` set is"
      using that by (rule imageI)
    then have "f j \<noteq> f i"
      using Cons.prems(2) by auto
    then show ?thesis
      using Cons.prems(3) [of j] that by simp
  qed
  have "set (btree_insert (f i) (g i) m) = insert (f i, g i) (set m)"
    using Cons.prems(3) [of i] by (force simp: set_btree_insert [OF Cons.prems(1)])
  then show ?case
    using Cons.IH [of "btree_insert (f i) (g i) m"] Cons.prems(1,2) fresh by auto
qed simp

text \<open>Searching the values in key order, when at most one of them fits.\<close>

lemma find_values_unique:
  assumes "\<And>v v'. v \<in> set (btree_values m) \<Longrightarrow> v' \<in> set (btree_values m) \<Longrightarrow> P v \<Longrightarrow> P v' \<Longrightarrow> v = v'"
  shows "find P (btree_values m) = Some v \<longleftrightarrow> v \<in> set (btree_values m) \<and> P v"
proof
  assume "find P (btree_values m) = Some v"
  then show "v \<in> set (btree_values m) \<and> P v"
    unfolding find_Some_iff by (metis nth_mem)
next
  assume v: "v \<in> set (btree_values m) \<and> P v"
  then obtain w where "find P (btree_values m) = Some w"
    by (cases "find P (btree_values m)") (auto simp: find_None_iff)
  moreover from this have "w \<in> set (btree_values m) \<and> P w"
    unfolding find_Some_iff by (metis nth_mem)
  ultimately show "find P (btree_values m) = Some v"
    using assms v by metis
qed

end
