(* ===== verification/Stage2_Table.thy ===== *)
theory Stage2_Table
  imports Stage2 Btree_Map "HOL-Library.List_Lexorder" "HOL-Library.Product_Lexorder" "HOL-Library.Char_ord"
begin

text \<open>
  The table of second-stage mappings (\<open>src/trap/stage2_model.rs\<close>): mappings of many virtual
  machines and address spaces keyed by owner, space and base. The invariant \<open>table_inv\<close> says that
  two mappings of one space never share an address; with it a lookup is a function of the address,
  and the effect of every operation is stated on lookups.
\<close>

section \<open>Keys and the table\<close>

datatype mapping_key = MappingKey (mk_owner_vm: string) (mk_address_space: string) (mk_base: u64)

instantiation mapping_key :: linorder
begin

definition less_eq_mapping_key :: "mapping_key \<Rightarrow> mapping_key \<Rightarrow> bool" where
  "less_eq_mapping_key a b \<longleftrightarrow>
     (mk_owner_vm a, mk_address_space a, mk_base a) \<le> (mk_owner_vm b, mk_address_space b, mk_base b)"

definition less_mapping_key :: "mapping_key \<Rightarrow> mapping_key \<Rightarrow> bool" where
  "less_mapping_key a b \<longleftrightarrow>
     (mk_owner_vm a, mk_address_space a, mk_base a) < (mk_owner_vm b, mk_address_space b, mk_base b)"

instance
proof
  fix a b c :: mapping_key
  show "a < b \<longleftrightarrow> a \<le> b \<and> \<not> b \<le> a"
    unfolding less_eq_mapping_key_def less_mapping_key_def by (rule less_le_not_le)
  show "a \<le> a"
    unfolding less_eq_mapping_key_def by (rule order_refl)
  show "a \<le> b \<Longrightarrow> b \<le> c \<Longrightarrow> a \<le> c"
    unfolding less_eq_mapping_key_def by (rule order_trans)
  show "a \<le> b \<Longrightarrow> b \<le> a \<Longrightarrow> a = b"
    unfolding less_eq_mapping_key_def by (drule (1) order_antisym) (simp add: mapping_key.expand)
  show "a \<le> b \<or> b \<le> a"
    unfolding less_eq_mapping_key_def by (rule linear)
qed

end

definition mapping_key_new :: "stage2_mapping \<Rightarrow> mapping_key" where
  "mapping_key_new m = MappingKey (m_owner_vm m) (m_address_space m) (m_base m)"

record stage2_table =
  tbl_mappings :: "(mapping_key, stage2_mapping) btree"

definition stage2_table_new :: stage2_table where
  "stage2_table_new = \<lparr>tbl_mappings = []\<rparr>"

abbreviation stage2_table_len :: "stage2_table \<Rightarrow> nat" where
  "stage2_table_len t \<equiv> length (tbl_mappings t)"

abbreviation stage2_table_is_empty :: "stage2_table \<Rightarrow> bool" where
  "stage2_table_is_empty t \<equiv> tbl_mappings t = []"

definition stage2_table_iter :: "stage2_table \<Rightarrow> stage2_mapping list" where
  "stage2_table_iter t = btree_values (tbl_mappings t)"

definition missing_mapping :: "string \<Rightarrow> string \<Rightarrow> u64 \<Rightarrow> trap_error" where
  "missing_mapping owner_vm address_space gpa =
     TrapError TrapNotMapped (''no stage-2 mapping covers '' @ hex_u64 gpa @ '' for vm='' @ owner_vm
       @ '' address_space='' @ address_space)"

definition mapping_matches :: "string \<Rightarrow> string \<Rightarrow> u64 \<Rightarrow> stage2_mapping \<Rightarrow> bool" where
  "mapping_matches owner_vm address_space gpa m \<longleftrightarrow>
     m_owner_vm m = owner_vm \<and> m_address_space m = address_space \<and> mapping_contains m gpa"

definition stage2_lookup :: "stage2_table \<Rightarrow> string \<Rightarrow> string \<Rightarrow> u64 \<Rightarrow> stage2_mapping option" where
  "stage2_lookup t owner_vm address_space gpa =
     find (mapping_matches owner_vm address_space gpa) (btree_values (tbl_mappings t))"

text \<open>\<open>lookup_mut\<close>: the key of the entry the returned reference points into.\<close>

definition stage2_lookup_mut :: "stage2_table \<Rightarrow> string \<Rightarrow> string \<Rightarrow> u64 \<Rightarrow> (mapping_key \<times> stage2_mapping) option" where
  "stage2_lookup_mut t owner_vm address_space gpa =
     find (\<lambda>(k, m). mapping_matches owner_vm address_space gpa m) (tbl_mappings t)"

definition set_permissions ::
    "stage2_table \<Rightarrow> string \<Rightarrow> string \<Rightarrow> u64 \<Rightarrow> stage2_permissions \<Rightarrow> stage2_permissions trap_result \<times> stage2_table" where
  "set_permissions t owner_vm address_space gpa p =
     (case stage2_lookup_mut t owner_vm address_space gpa of
        None \<Rightarrow> (Inl (missing_mapping owner_vm address_space gpa), t)
      | Some (k, m) \<Rightarrow>
          (Inr (m_permissions m),
           t\<lparr>tbl_mappings := btree_update k (\<lambda>m. m\<lparr>m_permissions := p\<rparr>) (tbl_mappings t)\<rparr>))"

text \<open>The loop of \<open>reject_overlap\<close> over the existing mappings.\<close>

fun overlap_scan :: "stage2_mapping \<Rightarrow> u64 \<Rightarrow> stage2_mapping list \<Rightarrow> unit trap_result" where
  "overlap_scan candidate candidate_end [] = Inr ()"
| "overlap_scan candidate candidate_end (existing # rest) =
     (if m_owner_vm existing \<noteq> m_owner_vm candidate \<or> m_address_space existing \<noteq> m_address_space candidate
      then overlap_scan candidate candidate_end rest
      else case mapping_end existing of
        Inl e \<Rightarrow> Inl e
      | Inr existing_end \<Rightarrow>
          if m_base candidate < existing_end \<and> m_base existing < candidate_end
          then Inl (TrapError TrapOverlap
            (''stage-2 mapping '' @ hex_u64 (m_base candidate) @ ''..'' @ hex_u64 candidate_end
              @ '' overlaps existing mapping '' @ hex_u64 (m_base existing) @ ''..'' @ hex_u64 existing_end
              @ '' for vm='' @ m_owner_vm candidate @ '' address_space='' @ m_address_space candidate))
          else overlap_scan candidate candidate_end rest)"

definition reject_overlap :: "stage2_table \<Rightarrow> stage2_mapping \<Rightarrow> unit trap_result" where
  "reject_overlap t candidate =
     (case mapping_end candidate of
        Inl e \<Rightarrow> Inl e
      | Inr candidate_end \<Rightarrow> overlap_scan candidate candidate_end (btree_values (tbl_mappings t)))"

definition stage2_map :: "stage2_table \<Rightarrow> stage2_mapping \<Rightarrow> unit trap_result \<times> stage2_table" where
  "stage2_map t m =
     (case reject_overlap t m of
        Inl e \<Rightarrow> (Inl e, t)
      | Inr _ \<Rightarrow> (Inr (), t\<lparr>tbl_mappings := btree_insert (mapping_key_new m) m (tbl_mappings t)\<rparr>))"

text \<open>The loop of \<open>split\<close> over the child indices.\<close>

fun split_loop ::
    "stage2_mapping \<Rightarrow> page_size \<Rightarrow> u64 \<Rightarrow> nat list \<Rightarrow> (mapping_key, stage2_mapping) btree \<Rightarrow> stage2_mapping list
      \<Rightarrow> stage2_mapping list trap_result \<times> (mapping_key, stage2_mapping) btree" where
  "split_loop parent target base [] mappings children = (Inr children, mappings)"
| "split_loop parent target base (index # indices) mappings children =
     (case stage2_mapping_new (m_owner_vm parent) (m_address_space parent)
             (base + of_nat index * page_size_bytes target) target (m_memory_type parent) (m_permissions parent) of
        Inl e \<Rightarrow> (Inl e, mappings)
      | Inr child \<Rightarrow> split_loop parent target base indices
          (btree_insert (mapping_key_new child) child mappings) (children @ [child]))"

definition stage2_split ::
    "stage2_table \<Rightarrow> string \<Rightarrow> string \<Rightarrow> u64 \<Rightarrow> page_size \<Rightarrow> stage2_mapping list trap_result \<times> stage2_table" where
  "stage2_split t owner_vm address_space base target =
     (let key = MappingKey owner_vm address_space base in
      case btree_get (tbl_mappings t) key of
        None \<Rightarrow> (Inl (missing_mapping owner_vm address_space base), t)
      | Some parent \<Rightarrow>
          let mappings = btree_remove key (tbl_mappings t) in
          (case split_count (m_page_size parent) target of
             Inl e \<Rightarrow> (Inl e, t\<lparr>tbl_mappings := mappings\<rparr>)
           | Inr count \<Rightarrow>
               (case split_loop parent target base [0..<unat count] mappings [] of
                  (r, mappings') \<Rightarrow> (r, t\<lparr>tbl_mappings := mappings'\<rparr>))))"

definition synthetic_mapping ::
    "string \<Rightarrow> string \<Rightarrow> u64 \<Rightarrow> page_size \<Rightarrow> stage2_permissions \<Rightarrow> stage2_mapping trap_result" where
  "synthetic_mapping owner_vm address_space base sz p =
     stage2_mapping_new owner_vm address_space base sz WriteBack p"

section \<open>The table invariant\<close>

definition mapping_ok :: "stage2_mapping \<Rightarrow> bool" where
  "mapping_ok m \<longleftrightarrow> is_aligned (m_page_size m) (m_base m) \<and> \<not> blank (m_owner_vm m)
     \<and> \<not> blank (m_address_space m)"

definition same_space :: "stage2_mapping \<Rightarrow> stage2_mapping \<Rightarrow> bool" where
  "same_space m m' \<longleftrightarrow> m_owner_vm m = m_owner_vm m' \<and> m_address_space m = m_address_space m'"

definition table_inv :: "stage2_table \<Rightarrow> bool" where
  "table_inv t \<longleftrightarrow> btree_ok (tbl_mappings t)
     \<and> (\<forall>(k, m) \<in> set (tbl_mappings t). k = mapping_key_new m \<and> mapping_ok m \<and> mapping_fits m)
     \<and> (\<forall>m \<in> set (stage2_table_iter t). \<forall>m' \<in> set (stage2_table_iter t). \<forall>gpa.
          same_space m m' \<longrightarrow> mapping_contains m gpa \<longrightarrow> mapping_contains m' gpa \<longrightarrow> m = m')"

lemma stage2_mapping_new_mapping_ok: "stage2_mapping_new vm asp base sz mt p = Inr m \<Longrightarrow> mapping_ok m"
  by (simp add: stage2_mapping_new_ok mapping_ok_def)

lemma table_inv_new: "table_inv stage2_table_new"
  by (simp add: table_inv_def stage2_table_new_def stage2_table_iter_def)

lemma iter_set: "set (stage2_table_iter t) = snd ` set (tbl_mappings t)"
  by (simp add: stage2_table_iter_def)

lemma table_inv_entry:
  assumes "table_inv t" "(k, m) \<in> set (tbl_mappings t)"
  shows "k = mapping_key_new m" "mapping_ok m" "mapping_fits m" "m \<in> set (stage2_table_iter t)"
  using assms by (auto simp: table_inv_def iter_set intro: rev_image_eqI)

lemma table_inv_iter:
  assumes "table_inv t" "m \<in> set (stage2_table_iter t)"
  shows "(mapping_key_new m, m) \<in> set (tbl_mappings t)" "mapping_ok m" "mapping_fits m"
  using assms by (auto simp: table_inv_def iter_set)

lemma table_inv_key:
  assumes "table_inv t" "m \<in> set (stage2_table_iter t)" "m' \<in> set (stage2_table_iter t)"
    "mapping_key_new m = mapping_key_new m'"
  shows "m = m'"
proof -
  have "btree_ok (tbl_mappings t)"
    using assms(1) by (simp add: table_inv_def)
  then show ?thesis
    using table_inv_iter(1) [OF assms(1)] assms(2-4) by (metis btree_get_iff option.inject)
qed

lemma table_inv_overlap:
  "table_inv t \<Longrightarrow> m \<in> set (stage2_table_iter t) \<Longrightarrow> m' \<in> set (stage2_table_iter t) \<Longrightarrow> same_space m m' \<Longrightarrow>
     mapping_contains m gpa \<Longrightarrow> mapping_contains m' gpa \<Longrightarrow> m = m'"
  unfolding table_inv_def by blast

lemma table_inv_unique:
  assumes "table_inv t" "m \<in> set (stage2_table_iter t)" "m' \<in> set (stage2_table_iter t)"
    "mapping_matches vm asp gpa m" "mapping_matches vm asp gpa m'"
  shows "m = m'"
proof -
  have "same_space m m'" "mapping_contains m gpa" "mapping_contains m' gpa"
    using assms(4,5) by (simp_all add: mapping_matches_def same_space_def)
  then show ?thesis
    using assms(1-3) unfolding table_inv_def by blast
qed

text \<open>A lookup finds the one mapping of the space that covers the address.\<close>

lemma stage2_lookup_iff:
  assumes "table_inv t"
  shows "stage2_lookup t vm asp gpa = Some m \<longleftrightarrow> m \<in> set (stage2_table_iter t) \<and> mapping_matches vm asp gpa m"
  unfolding stage2_lookup_def stage2_table_iter_def
  by (rule find_values_unique) (use table_inv_unique [OF assms] in \<open>auto simp: stage2_table_iter_def\<close>)

lemma find_pairs: "find P (map snd xs) = map_option snd (find (\<lambda>(k, m). P m) xs)"
  by (induction xs) auto

lemma stage2_lookup_mut_iff:
  assumes inv: "table_inv t"
  shows "stage2_lookup_mut t vm asp gpa = map_option (\<lambda>m. (mapping_key_new m, m)) (stage2_lookup t vm asp gpa)"
proof (cases "stage2_lookup_mut t vm asp gpa")
  case None
  then show ?thesis
    by (simp add: stage2_lookup_mut_def stage2_lookup_def find_pairs)
next
  case (Some km)
  obtain k m where km: "km = (k, m)" by (rule prod.exhaust)
  have "(k, m) \<in> set (tbl_mappings t)"
    using Some km unfolding stage2_lookup_mut_def find_Some_iff by (metis nth_mem)
  then have "k = mapping_key_new m"
    using table_inv_entry [OF inv] by blast
  then show ?thesis
    using Some km by (simp add: stage2_lookup_mut_def stage2_lookup_def find_pairs)
qed

section \<open>Mapping\<close>

lemma overlaps_iff:
  assumes "mapping_fits m" "mapping_fits m'"
  shows "(\<exists>gpa. mapping_contains m gpa \<and> mapping_contains m' gpa) \<longleftrightarrow>
     unat (m_base m) < unat (m_base m') + unat (page_size_bytes (m_page_size m'))
     \<and> unat (m_base m') < unat (m_base m) + unat (page_size_bytes (m_page_size m))" (is "?L = ?R")
proof
  assume ?L
  then show ?R by (auto simp: mapping_contains_iff)
next
  assume r: ?R
  show ?L
  proof (cases "unat (m_base m) \<le> unat (m_base m')")
    case True
    then show ?thesis
      using assms r by (intro exI [of _ "m_base m'"]) (simp add: mapping_contains_iff)
  next
    case False
    then show ?thesis
      using assms r by (intro exI [of _ "m_base m"]) (simp add: mapping_contains_iff)
  qed
qed

lemma overlap_scan_ok:
  assumes c: "unat e = unat (m_base c) + unat (page_size_bytes (m_page_size c))"
  shows "\<forall>m \<in> set ms. mapping_fits m \<Longrightarrow>
    (case overlap_scan c e ms of
       Inr _ \<Rightarrow> \<forall>m \<in> set ms. same_space m c \<longrightarrow> (\<nexists>gpa. mapping_contains m gpa \<and> mapping_contains c gpa)
     | Inl err \<Rightarrow> trap_error_kind err = TrapOverlap
         \<and> (\<exists>m \<in> set ms. same_space m c \<and> (\<exists>gpa. mapping_contains m gpa \<and> mapping_contains c gpa)))"
proof (induction ms)
  case (Cons m ms)
  have cf: "mapping_fits c"
    using c unat_lt_64 [of e] by (simp add: mapping_fits_def)
  obtain f where f: "mapping_end m = Inr f"
    using Cons.prems mapping_end_fits [of m] by auto
  then have f': "unat f = unat (m_base m) + unat (page_size_bytes (m_page_size m))"
    by (simp add: mapping_end_ok)
  have ov: "(\<exists>gpa. mapping_contains m gpa \<and> mapping_contains c gpa) \<longleftrightarrow> m_base c < f \<and> m_base m < e"
    using overlaps_iff [of m c] Cons.prems cf f' c by (auto simp: word_less_nat_alt)
  show ?case
  proof (cases "same_space m c \<and> m_base c < f \<and> m_base m < e")
    case True
    then show ?thesis
      using f ov by (auto simp: same_space_def)
  next
    case False
    then have "overlap_scan c e (m # ms) = overlap_scan c e ms"
      using f by (auto simp: same_space_def)
    then show ?thesis
      using Cons False ov by (auto split: sum.splits)
  qed
qed simp

lemma reject_overlap_spec:
  assumes inv: "table_inv t"
  shows "case reject_overlap t c of
      Inr _ \<Rightarrow> mapping_fits c \<and> (\<forall>m \<in> set (stage2_table_iter t). same_space m c \<longrightarrow>
        (\<nexists>gpa. mapping_contains m gpa \<and> mapping_contains c gpa))
    | Inl e \<Rightarrow> \<not> mapping_fits c \<and> trap_error_kind e = TrapInvalidAddress
        \<or> mapping_fits c \<and> trap_error_kind e = TrapOverlap \<and> (\<exists>m \<in> set (stage2_table_iter t).
            same_space m c \<and> (\<exists>gpa. mapping_contains m gpa \<and> mapping_contains c gpa))"
proof (cases "mapping_end c")
  case (Inl e)
  then have "\<not> mapping_fits c"
    using mapping_end_fits [of c] by auto
  moreover have "trap_error_kind e = TrapInvalidAddress"
    using Inl by (auto simp: mapping_end_def split: option.splits)
  ultimately show ?thesis
    using Inl by (simp add: reject_overlap_def)
next
  case (Inr e)
  then have "mapping_fits c" "unat e = unat (m_base c) + unat (page_size_bytes (m_page_size c))"
    using mapping_end_fits [of c] by (blast, simp add: mapping_end_ok)
  moreover have "\<forall>m \<in> set (stage2_table_iter t). mapping_fits m"
    using table_inv_iter(3) [OF inv] by blast
  ultimately show ?thesis
    using overlap_scan_ok [of e c "stage2_table_iter t"] Inr
    by (auto simp: reject_overlap_def stage2_table_iter_def split: sum.splits)
qed

text \<open>The invariant from the set of mappings alone.\<close>

lemma table_invI:
  assumes "btree_ok es" "\<And>k m. (k, m) \<in> set es \<Longrightarrow> k = mapping_key_new m"
    "\<And>m. m \<in> snd ` set es \<Longrightarrow> mapping_ok m \<and> mapping_fits m"
    "\<And>m m' gpa. m \<in> snd ` set es \<Longrightarrow> m' \<in> snd ` set es \<Longrightarrow> same_space m m' \<Longrightarrow> mapping_contains m gpa
       \<Longrightarrow> mapping_contains m' gpa \<Longrightarrow> m = m'"
  shows "table_inv (t\<lparr>tbl_mappings := es\<rparr>)"
  unfolding table_inv_def iter_set
proof (intro conjI ballI allI impI)
  fix km
  assume "km \<in> set (tbl_mappings (t\<lparr>tbl_mappings := es\<rparr>))"
  then have "(fst km, snd km) \<in> set es" "snd km \<in> snd ` set es"
    by simp_all
  then show "case km of (k, m) \<Rightarrow> k = mapping_key_new m \<and> mapping_ok m \<and> mapping_fits m"
    using assms(2) [of "fst km" "snd km"] assms(3) [of "snd km"] by (simp add: case_prod_unfold)
next
  fix m m' gpa
  assume "m \<in> snd ` set (tbl_mappings (t\<lparr>tbl_mappings := es\<rparr>))" "m' \<in> snd ` set (tbl_mappings (t\<lparr>tbl_mappings := es\<rparr>))"
    "same_space m m'" "mapping_contains m gpa" "mapping_contains m' gpa"
  then show "m = m'"
    using assms(4) [of m m' gpa] by simp
qed (simp add: assms(1))

lemma mapping_contains_base: "mapping_fits m \<Longrightarrow> mapping_contains m (m_base m)"
  by (simp add: mapping_contains_iff)

lemma stage2_map_ok:
  assumes inv: "table_inv t" and ok: "mapping_ok m" "mapping_fits m"
    and free: "\<And>m' gpa. m' \<in> set (stage2_table_iter t) \<Longrightarrow> same_space m' m \<Longrightarrow>
      mapping_contains m' gpa \<Longrightarrow> mapping_contains m gpa \<Longrightarrow> False"
  shows "table_inv (t\<lparr>tbl_mappings := btree_insert (mapping_key_new m) m (tbl_mappings t)\<rparr>)"
    and "set (btree_insert (mapping_key_new m) m (tbl_mappings t)) = insert (mapping_key_new m, m) (set (tbl_mappings t))"
proof -
  have bt: "btree_ok (tbl_mappings t)"
    using inv by (simp add: table_inv_def)
  have fresh: "k \<noteq> mapping_key_new m" if "(k, m') \<in> set (tbl_mappings t)" for k m'
  proof
    assume "k = mapping_key_new m"
    then have "mapping_key_new m' = mapping_key_new m"
      using table_inv_entry(1) [OF inv that] by simp
    then have "same_space m' m" "m_base m' = m_base m"
      by (simp_all add: mapping_key_new_def same_space_def)
    then show False
      using free [OF table_inv_entry(4) [OF inv that], of "m_base m"] ok(2) table_inv_entry(3) [OF inv that]
        mapping_contains_base [of m] mapping_contains_base [of m'] by simp
  qed
  show es: "set (btree_insert (mapping_key_new m) m (tbl_mappings t)) = insert (mapping_key_new m, m) (set (tbl_mappings t))"
    using fresh by (auto simp: set_btree_insert [OF bt])
  show "table_inv (t\<lparr>tbl_mappings := btree_insert (mapping_key_new m) m (tbl_mappings t)\<rparr>)"
  proof (rule table_invI)
    show "btree_ok (btree_insert (mapping_key_new m) m (tbl_mappings t))"
      using bt by simp
    show "k = mapping_key_new m'" if "(k, m') \<in> set (btree_insert (mapping_key_new m) m (tbl_mappings t))" for k m'
      using that table_inv_entry(1) [OF inv] unfolding es by auto
    show "mapping_ok m' \<and> mapping_fits m'"
      if "m' \<in> snd ` set (btree_insert (mapping_key_new m) m (tbl_mappings t))" for m'
      using that ok table_inv_iter(2,3) [OF inv] unfolding es by (auto simp: iter_set)
    fix m1 m2 gpa
    assume "m1 \<in> snd ` set (btree_insert (mapping_key_new m) m (tbl_mappings t))"
      "m2 \<in> snd ` set (btree_insert (mapping_key_new m) m (tbl_mappings t))"
      and sp: "same_space m1 m2" and c: "mapping_contains m1 gpa" "mapping_contains m2 gpa"
    then have "m1 = m \<or> m1 \<in> set (stage2_table_iter t)" "m2 = m \<or> m2 \<in> set (stage2_table_iter t)"
      unfolding es by (auto simp: iter_set)
    moreover have "same_space m2 m1"
      using sp by (simp add: same_space_def)
    ultimately show "m1 = m2"
      using free [of m1 gpa] free [of m2 gpa] sp c table_inv_unique [OF inv, of m1 m2 _ _ gpa]
      unfolding mapping_matches_def same_space_def by metis
  qed
qed

lemma stage2_map_spec:
  assumes inv: "table_inv t" and ok: "mapping_ok c"
  shows "case stage2_map t c of
      (Inr _, t') \<Rightarrow> table_inv t' \<and> mapping_fits c \<and> (\<forall>vm asp gpa. stage2_lookup t' vm asp gpa =
          (if mapping_matches vm asp gpa c then Some c else stage2_lookup t vm asp gpa))
        \<and> (\<forall>gpa. mapping_contains c gpa \<longrightarrow> stage2_lookup t (m_owner_vm c) (m_address_space c) gpa = None)
    | (Inl e, t') \<Rightarrow> t' = t \<and> (\<not> mapping_fits c \<and> trap_error_kind e = TrapInvalidAddress
        \<or> trap_error_kind e = TrapOverlap \<and> (\<exists>gpa. mapping_contains c gpa
            \<and> stage2_lookup t (m_owner_vm c) (m_address_space c) gpa \<noteq> None))"
proof (cases "reject_overlap t c")
  case (Inl e)
  have "\<exists>gpa. mapping_contains c gpa \<and> stage2_lookup t (m_owner_vm c) (m_address_space c) gpa \<noteq> None"
    if "m \<in> set (stage2_table_iter t)" "same_space m c" "mapping_contains m gpa" "mapping_contains c gpa" for m gpa
    using that stage2_lookup_iff [OF inv, of "m_owner_vm c" "m_address_space c" gpa m]
    by (auto simp: mapping_matches_def same_space_def)
  then show ?thesis
    using reject_overlap_spec [OF inv, of c] Inl by (auto simp: stage2_map_def)
next
  case (Inr u)
  let ?t = "t\<lparr>tbl_mappings := btree_insert (mapping_key_new c) c (tbl_mappings t)\<rparr>"
  have fits: "mapping_fits c" and free: "\<And>m' gpa. m' \<in> set (stage2_table_iter t) \<Longrightarrow> same_space m' c \<Longrightarrow>
      mapping_contains m' gpa \<Longrightarrow> mapping_contains c gpa \<Longrightarrow> False"
    using reject_overlap_spec [OF inv, of c] Inr by auto
  note new = stage2_map_ok [OF inv ok fits free]
  have iter: "set (stage2_table_iter ?t) = insert c (set (stage2_table_iter t))"
    using new(2) by (simp add: iter_set)
  have none: "stage2_lookup t (m_owner_vm c) (m_address_space c) gpa = None" if "mapping_contains c gpa" for gpa
    using free that stage2_lookup_iff [OF inv, of "m_owner_vm c" "m_address_space c" gpa]
    by (cases "stage2_lookup t (m_owner_vm c) (m_address_space c) gpa") (auto simp: mapping_matches_def same_space_def)
  have look: "stage2_lookup ?t vm asp gpa = (if mapping_matches vm asp gpa c then Some c else stage2_lookup t vm asp gpa)"
    for vm asp gpa
  proof (rule option_eqI)
    fix m
    have "stage2_lookup ?t vm asp gpa = Some m \<longleftrightarrow> (m = c \<or> m \<in> set (stage2_table_iter t)) \<and> mapping_matches vm asp gpa m"
      by (simp only: stage2_lookup_iff [OF new(1)] iter insert_iff)
    moreover have "mapping_matches vm asp gpa c \<Longrightarrow> m \<in> set (stage2_table_iter t) \<Longrightarrow> \<not> mapping_matches vm asp gpa m"
      using free [of m gpa] by (auto simp: mapping_matches_def same_space_def)
    ultimately show "stage2_lookup ?t vm asp gpa = Some m \<longleftrightarrow>
        (if mapping_matches vm asp gpa c then Some c else stage2_lookup t vm asp gpa) = Some m"
      using stage2_lookup_iff [OF inv, of vm asp gpa m] by (auto split: if_splits)
  qed
  show ?thesis
    using Inr new(1) fits look none by (simp add: stage2_map_def)
qed

section \<open>Changing permissions\<close>

definition reperm :: "stage2_permissions \<Rightarrow> stage2_mapping \<Rightarrow> stage2_mapping \<Rightarrow> stage2_mapping" where
  "reperm p m m' = (if m' = m then m\<lparr>m_permissions := p\<rparr> else m')"

lemma reperm_frame [simp]:
  "m_owner_vm (reperm p m m') = m_owner_vm m'" "m_address_space (reperm p m m') = m_address_space m'"
  "m_base (reperm p m m') = m_base m'" "m_page_size (reperm p m m') = m_page_size m'"
  "m_memory_type (reperm p m m') = m_memory_type m'"
  by (simp_all add: reperm_def)

lemma reperm_geometry [simp]:
  "mapping_key_new (reperm p m m') = mapping_key_new m'" "mapping_fits (reperm p m m') = mapping_fits m'"
  "mapping_ok (reperm p m m') = mapping_ok m'" "mapping_contains (reperm p m m') gpa = mapping_contains m' gpa"
  "mapping_matches vm asp gpa (reperm p m m') = mapping_matches vm asp gpa m'"
  "same_space (reperm p m m') m'' = same_space m' m''" "same_space m'' (reperm p m m') = same_space m'' m'"
  by (simp_all add: mapping_key_new_def mapping_fits_def mapping_ok_def mapping_contains_iff mapping_matches_def
      same_space_def)

lemma set_permissions_spec:
  assumes inv: "table_inv t"
  shows "case stage2_lookup t vm asp gpa of
      None \<Rightarrow> set_permissions t vm asp gpa p = (Inl (missing_mapping vm asp gpa), t)
    | Some m \<Rightarrow> (\<exists>t'. set_permissions t vm asp gpa p = (Inr (m_permissions m), t') \<and> table_inv t'
        \<and> (\<forall>v a x. stage2_lookup t' v a x = map_option (reperm p m) (stage2_lookup t v a x)))"
proof (cases "stage2_lookup t vm asp gpa")
  case None
  then show ?thesis
    by (simp add: set_permissions_def stage2_lookup_mut_iff [OF inv])
next
  case (Some m)
  let ?es = "btree_update (mapping_key_new m) (\<lambda>m. m\<lparr>m_permissions := p\<rparr>) (tbl_mappings t)"
  let ?t = "t\<lparr>tbl_mappings := ?es\<rparr>"
  have m: "m \<in> set (stage2_table_iter t)"
    using Some stage2_lookup_iff [OF inv] by blast
  have key: "mapping_key_new m' = mapping_key_new m \<longleftrightarrow> m' = m" if "m' \<in> set (stage2_table_iter t)" for m'
    using table_inv_key [OF inv that m] by auto
  have es: "?es = map (\<lambda>(k, m'). (k, reperm p m m')) (tbl_mappings t)"
    unfolding btree_update_def
  proof (rule map_cong [OF refl], clarify)
    fix k m'
    assume e: "(k, m') \<in> set (tbl_mappings t)"
    have "k = mapping_key_new m \<longleftrightarrow> m' = m"
      using key [OF table_inv_entry(4) [OF inv e]] table_inv_entry(1) [OF inv e] by simp
    then show "k = k \<and> (if k = mapping_key_new m then m'\<lparr>m_permissions := p\<rparr> else m') = reperm p m m'"
      by (simp add: reperm_def)
  qed
  have iter: "set (stage2_table_iter ?t) = reperm p m ` set (stage2_table_iter t)"
    by (simp add: iter_set es image_image case_prod_unfold)
  have inv': "table_inv ?t"
  proof (rule table_invI)
    show "btree_ok ?es"
      using inv by (simp add: table_inv_def)
    show "k = mapping_key_new m'" if "(k, m') \<in> set ?es" for k m'
      using that table_inv_entry(1) [OF inv] unfolding es by auto
    show "mapping_ok m' \<and> mapping_fits m'" if "m' \<in> snd ` set ?es" for m'
      using that table_inv_entry(2,3) [OF inv] unfolding es by auto
    fix m1 m2 x
    assume "m1 \<in> snd ` set ?es" "m2 \<in> snd ` set ?es" and
      both: "same_space m1 m2" "mapping_contains m1 x" "mapping_contains m2 x"
    moreover have "snd ` set ?es = reperm p m ` set (stage2_table_iter t)"
      using iter by (simp add: iter_set)
    ultimately obtain n1 n2 where n: "n1 \<in> set (stage2_table_iter t)" "n2 \<in> set (stage2_table_iter t)"
        "m1 = reperm p m n1" "m2 = reperm p m n2"
      by auto
    then show "m1 = m2"
      using table_inv_overlap [OF inv n(1,2), of x] both by simp
  qed
  have "stage2_lookup ?t v a x = map_option (reperm p m) (stage2_lookup t v a x)" for v a x
  proof (rule option_eqI)
    fix m'
    show "stage2_lookup ?t v a x = Some m' \<longleftrightarrow> map_option (reperm p m) (stage2_lookup t v a x) = Some m'"
      unfolding stage2_lookup_iff [OF inv'] iter map_option_eq_Some stage2_lookup_iff [OF inv] by auto
  qed
  then show ?thesis
    using Some inv' by (simp add: set_permissions_def stage2_lookup_mut_iff [OF inv])
qed

section \<open>Splitting\<close>

definition split_piece :: "stage2_mapping \<Rightarrow> page_size \<Rightarrow> u64 \<Rightarrow> stage2_mapping" where
  "split_piece parent target b = parent\<lparr>m_base := b, m_page_size := target\<rparr>"

abbreviation piece_base :: "stage2_mapping \<Rightarrow> page_size \<Rightarrow> nat \<Rightarrow> u64" where
  "piece_base parent target i \<equiv> m_base parent + of_nat i * page_size_bytes target"

lemma split_piece_frame [simp]:
  "m_owner_vm (split_piece m sz b) = m_owner_vm m" "m_address_space (split_piece m sz b) = m_address_space m"
  "m_base (split_piece m sz b) = b" "m_page_size (split_piece m sz b) = sz"
  "m_memory_type (split_piece m sz b) = m_memory_type m" "m_permissions (split_piece m sz b) = m_permissions m"
  "same_space (split_piece m sz b) m' = same_space m m'" "same_space m' (split_piece m sz b) = same_space m' m"
  by (simp_all add: split_piece_def same_space_def)

lemma split_loop_ok:
  assumes "\<not> blank (m_owner_vm parent)" "\<not> blank (m_address_space parent)"
    "\<And>i. i \<in> set is \<Longrightarrow> is_aligned target (piece_base parent target i)"
  shows "split_loop parent target (m_base parent) is ms acc =
     (Inr (acc @ map (\<lambda>i. split_piece parent target (piece_base parent target i)) is),
      foldl (\<lambda>ms i. btree_insert (mapping_key_new (split_piece parent target (piece_base parent target i)))
        (split_piece parent target (piece_base parent target i)) ms) ms is)"
  using assms(3)
proof (induction "is" arbitrary: ms acc)
  case (Cons i "is")
  have "stage2_mapping_new (m_owner_vm parent) (m_address_space parent) (piece_base parent target i) target
      (m_memory_type parent) (m_permissions parent) = Inr (split_piece parent target (piece_base parent target i))"
    using assms(1,2) Cons.prems by (simp add: stage2_mapping_new_ok split_piece_def)
  then show ?case
    using Cons by simp
qed simp

lemma immediate_child_bytes:
  assumes "immediate_child sz = Some target"
  shows "unat (page_size_bytes sz) = 512 * unat (page_size_bytes target)" "split_count sz target = Inr 512"
  using assms by (cases sz; auto simp: split_count_def)+

text \<open>The pieces tile the parent.\<close>

definition splittable :: "stage2_mapping \<Rightarrow> page_size \<Rightarrow> bool" where
  "splittable parent target \<longleftrightarrow> mapping_ok parent \<and> mapping_fits parent
     \<and> immediate_child (m_page_size parent) = Some target"

lemma splittableD:
  assumes "splittable parent target"
  shows "mapping_ok parent" "unat (m_base parent) + 512 * unat (page_size_bytes target) < 2 ^ 64" "mapping_fits parent"
    "unat (page_size_bytes (m_page_size parent)) = 512 * unat (page_size_bytes target)"
  using assms immediate_child_bytes(1) by (auto simp: splittable_def mapping_fits_def)

lemma unat_piece_base:
  assumes "splittable parent target" "i < 512"
  shows "unat (piece_base parent target i) = unat (m_base parent) + i * unat (page_size_bytes target)"
proof (rule unat_offset)
  have "i * unat (page_size_bytes target) \<le> 512 * unat (page_size_bytes target)"
    using assms(2) by (intro mult_le_mono1) simp
  then show "unat (m_base parent) + i * unat (page_size_bytes target) < 2 ^ 64"
    using splittableD(2) [OF assms(1)] by linarith
qed

lemma piece_aligned:
  assumes "splittable parent target" "i < 512"
  shows "is_aligned target (piece_base parent target i)"
proof -
  have "unat (page_size_bytes target) dvd unat (page_size_bytes (m_page_size parent))"
    using splittableD(4) [OF assms(1)] by simp
  moreover have "unat (page_size_bytes (m_page_size parent)) dvd unat (m_base parent)"
    using splittableD(1) [OF assms(1)] by (simp add: mapping_ok_def is_aligned_dvd)
  ultimately have "unat (page_size_bytes target) dvd unat (m_base parent)"
    by (rule dvd_trans)
  then show ?thesis
    unfolding is_aligned_dvd unat_piece_base [OF assms] by simp
qed

lemma piece_top:
  "i < 512 \<Longrightarrow> i * unat (page_size_bytes target) + unat (page_size_bytes target) \<le> 512 * unat (page_size_bytes target)"
  using mult_le_mono1 [of "Suc i" 512 "unat (page_size_bytes target)"] by simp

lemma piece_fits:
  assumes "splittable parent target" "i < 512"
  shows "mapping_fits (split_piece parent target (piece_base parent target i))"
  unfolding mapping_fits_def split_piece_frame unat_piece_base [OF assms]
  using piece_top [OF assms(2), of target] splittableD(2) [OF assms(1)] by linarith

lemma piece_ok:
  assumes "splittable parent target" "i < 512"
  shows "mapping_ok (split_piece parent target (piece_base parent target i))"
  using splittableD(1) [OF assms(1)] piece_aligned [OF assms] by (simp add: mapping_ok_def)

lemma piece_contains:
  assumes sp: "splittable parent target" and i: "i < 512"
  shows "mapping_contains (split_piece parent target (piece_base parent target i)) x
    \<longleftrightarrow> mapping_contains parent x \<and> page_align_down target x = piece_base parent target i" (is "?L = ?R")
proof
  assume ?L
  then have b: "unat (piece_base parent target i) \<le> unat x"
    "unat x < unat (piece_base parent target i) + unat (page_size_bytes target)"
    by (simp_all add: mapping_contains_iff)
  then have "page_align_down target x = piece_base parent target i"
    by (rule align_down_unique [OF piece_aligned [OF sp i]])
  moreover have "mapping_contains parent x"
    unfolding mapping_contains_iff splittableD(4) [OF sp]
    using b piece_top [OF i, of target] splittableD(3) [OF sp] unfolding unat_piece_base [OF sp i] by linarith
  ultimately show ?R by simp
next
  assume ?R
  then show ?L
    using piece_fits [OF sp i] align_down_bounds [where sz = target and a = x] by (simp add: mapping_contains_iff)
qed

lemma piece_exists:
  assumes sp: "splittable parent target" and "mapping_contains parent x"
  shows "\<exists>i < 512. page_align_down target x = piece_base parent target i"
proof -
  let ?s = "unat (page_size_bytes target)"
  let ?i = "(unat x - unat (m_base parent)) div ?s"
  have b: "unat (m_base parent) \<le> unat x" "unat x - unat (m_base parent) < 512 * ?s"
    using assms(2) unfolding mapping_contains_iff splittableD(4) [OF sp] by linarith+
  have i: "?i < 512"
    using b(2) by (simp add: less_mult_imp_div_less)
  have "?i * ?s \<le> unat x - unat (m_base parent)" "unat x - unat (m_base parent) < ?i * ?s + ?s"
    using div_times_less_eq_dividend [of "unat x - unat (m_base parent)" ?s]
      dividend_less_div_times [of ?s "unat x - unat (m_base parent)"] by simp_all
  then have "unat (piece_base parent target ?i) \<le> unat x" "unat x < unat (piece_base parent target ?i) + ?s"
    unfolding unat_piece_base [OF sp i] using b(1) by linarith+
  then have "page_align_down target x = piece_base parent target ?i"
    by (rule align_down_unique [OF piece_aligned [OF sp i]])
  with i show ?thesis by blast
qed

lemma piece_base_inj:
  assumes sp: "splittable parent target" and "i < 512" "j < 512" "piece_base parent target i = piece_base parent target j"
  shows "i = j"
proof -
  have "i * unat (page_size_bytes target) = j * unat (page_size_bytes target)"
    using unat_piece_base [OF sp assms(2)] unat_piece_base [OF sp assms(3)] unfolding assms(4) by linarith
  then show ?thesis
    using page_size_bytes_bounds(1) [of target] by simp
qed

text \<open>The table after a successful split: the parent is replaced by its pieces.\<close>

lemma split_entries:
  assumes inv: "table_inv t" and p: "parent \<in> set (stage2_table_iter t)"
    and child: "immediate_child (m_page_size parent) = Some target"
  obtains es where
    "stage2_split t (m_owner_vm parent) (m_address_space parent) (m_base parent) target =
      (Inr (map (\<lambda>i. split_piece parent target (piece_base parent target i)) [0..<512]), t\<lparr>tbl_mappings := es\<rparr>)"
    "btree_ok es"
    "set es = {e \<in> set (tbl_mappings t). e \<noteq> (mapping_key_new parent, parent)}
       \<union> (\<lambda>i. (mapping_key_new (split_piece parent target (piece_base parent target i)),
                  split_piece parent target (piece_base parent target i))) ` {0..<512}"
proof -
  let ?pc = "\<lambda>i. split_piece parent target (piece_base parent target i)"
  let ?rest = "btree_remove (mapping_key_new parent) (tbl_mappings t)"
  let ?es = "foldl (\<lambda>ms i. btree_insert (mapping_key_new (?pc i)) (?pc i) ms) ?rest [0..<512]"
  have sp: "splittable parent target"
    using table_inv_iter(2,3) [OF inv p] child by (simp add: splittable_def)
  have bt: "btree_ok (tbl_mappings t)"
    using inv by (simp add: table_inv_def)
  have get: "btree_get (tbl_mappings t) (mapping_key_new parent) = Some parent"
    using table_inv_iter(1) [OF inv p] by (simp add: btree_get_iff [OF bt])
  have "m = parent" if "(mapping_key_new parent, m) \<in> set (tbl_mappings t)" for m
    using get btree_get_iff [OF bt, of "mapping_key_new parent" m] that by simp
  then have rest: "set ?rest = {e \<in> set (tbl_mappings t). e \<noteq> (mapping_key_new parent, parent)}"
    by auto
  have fresh: "mapping_key_new (?pc i) \<notin> fst ` set ?rest" if i: "i < 512" for i
  proof
    assume "mapping_key_new (?pc i) \<in> fst ` set ?rest"
    then obtain e where "e \<in> {e \<in> set (tbl_mappings t). e \<noteq> (mapping_key_new parent, parent)}"
        "mapping_key_new (?pc i) = fst e"
      unfolding rest by (rule imageE) simp
    then obtain m where m: "(mapping_key_new (?pc i), m) \<in> set (tbl_mappings t)"
        "(mapping_key_new (?pc i), m) \<noteq> (mapping_key_new parent, parent)"
      by (cases e) auto
    have k: "mapping_key_new m = mapping_key_new (?pc i)"
      using table_inv_entry(1) [OF inv m(1)] by simp
    then have b: "m_base m = piece_base parent target i" "same_space m parent"
      by (simp_all add: mapping_key_new_def same_space_def)
    have "mapping_contains (?pc i) (m_base m)"
      using mapping_contains_base [OF piece_fits [OF sp i]] b(1) by simp
    then have "mapping_contains parent (m_base m)"
      using piece_contains [OF sp i] by blast
    then have "m = parent"
      using table_inv_overlap [OF inv table_inv_entry(4) [OF inv m(1)] p b(2)]
        mapping_contains_base [OF table_inv_entry(3) [OF inv m(1)]] by blast
    with m(2) k show False by simp
  qed
  have dist: "distinct (map (\<lambda>i. mapping_key_new (?pc i)) [0..<512])"
    unfolding distinct_map by (auto simp: mapping_key_new_def intro!: inj_onI piece_base_inj [OF sp])
  have many: "btree_ok ?es" "set ?es = set ?rest \<union> (\<lambda>i. (mapping_key_new (?pc i), ?pc i)) ` {0..<512}"
    using btree_insert_many [of ?rest "\<lambda>i. mapping_key_new (?pc i)" "[0..<512]" ?pc] bt dist fresh
    by (auto simp del: upt_rec_numeral)
  have blanks: "\<not> blank (m_owner_vm parent)" "\<not> blank (m_address_space parent)"
    using splittableD(1) [OF sp] by (simp_all add: mapping_ok_def)
  have "split_loop parent target (m_base parent) [0..<512] ?rest [] = (Inr ([] @ map ?pc [0..<512]), ?es)"
    by (rule split_loop_ok [OF blanks]) (use piece_aligned [OF sp] in simp)
  then have "stage2_split t (m_owner_vm parent) (m_address_space parent) (m_base parent) target =
      (Inr (map ?pc [0..<512]), t\<lparr>tbl_mappings := ?es\<rparr>)"
    using get immediate_child_bytes(2) [OF child]
    by (simp add: stage2_split_def Let_def mapping_key_new_def [of parent] del: upt_rec_numeral)
  then show ?thesis
    using many unfolding rest by (rule that)
qed

lemma other_values:
  assumes inv: "table_inv t"
  shows "snd ` {e \<in> set (tbl_mappings t). e \<noteq> (mapping_key_new parent, parent)}
    = {m \<in> set (stage2_table_iter t). m \<noteq> parent}"
proof (intro set_eqI iffI)
  fix m
  assume "m \<in> snd ` {e \<in> set (tbl_mappings t). e \<noteq> (mapping_key_new parent, parent)}"
  then obtain e where "e \<in> {e \<in> set (tbl_mappings t). e \<noteq> (mapping_key_new parent, parent)}" "m = snd e"
    by (rule imageE) simp
  then obtain k where k: "(k, m) \<in> set (tbl_mappings t)" "(k, m) \<noteq> (mapping_key_new parent, parent)"
    by (cases e) auto
  then show "m \<in> {m \<in> set (stage2_table_iter t). m \<noteq> parent}"
    using table_inv_entry(1,4) [OF inv k(1)] by auto
next
  fix m
  assume "m \<in> {m \<in> set (stage2_table_iter t). m \<noteq> parent}"
  then have "(mapping_key_new m, m) \<in> {e \<in> set (tbl_mappings t). e \<noteq> (mapping_key_new parent, parent)}"
    using table_inv_iter(1) [OF inv] by simp
  then show "m \<in> snd ` {e \<in> set (tbl_mappings t). e \<noteq> (mapping_key_new parent, parent)}"
    by (rule rev_image_eqI) simp
qed

lemma split_cover:
  assumes sp: "splittable parent target" and p: "parent \<in> ms"
    and m: "m \<in> {m \<in> ms. m \<noteq> parent} \<union> (\<lambda>i. split_piece parent target (piece_base parent target i)) ` {0..<512}"
    and y: "mapping_contains m y"
  shows "\<exists>n \<in> ms. same_space n m \<and> mapping_contains n y
    \<and> m = (if n = parent then split_piece parent target (page_align_down target y) else n)"
proof (cases "m \<in> (\<lambda>i. split_piece parent target (piece_base parent target i)) ` {0..<512}")
  case True
  then obtain i where i: "i < 512" "m = split_piece parent target (piece_base parent target i)" by auto
  then show ?thesis
    using y p piece_contains [OF sp i(1), of y] by (auto simp: same_space_def intro!: bexI [of _ parent])
next
  case False
  then show ?thesis
    using m y by (auto simp: same_space_def)
qed

lemma remove_entries:
  assumes inv: "table_inv t" and p: "parent \<in> set (stage2_table_iter t)"
  shows "set (btree_remove (mapping_key_new parent) (tbl_mappings t))
    = {e \<in> set (tbl_mappings t). e \<noteq> (mapping_key_new parent, parent)}"
proof -
  have "m = parent" if "(mapping_key_new parent, m) \<in> set (tbl_mappings t)" for m
    using table_inv_key [OF inv table_inv_entry(4) [OF inv that] p] table_inv_entry(1) [OF inv that] by simp
  then show ?thesis by auto
qed

lemma split_table:
  assumes inv: "table_inv t" and p: "parent \<in> set (stage2_table_iter t)"
    and child: "immediate_child (m_page_size parent) = Some target"
    and bt: "btree_ok es"
    and es: "set es = {e \<in> set (tbl_mappings t). e \<noteq> (mapping_key_new parent, parent)}
       \<union> (\<lambda>i. (mapping_key_new (split_piece parent target (piece_base parent target i)),
                  split_piece parent target (piece_base parent target i))) ` {0..<512}"
  shows "table_inv (t\<lparr>tbl_mappings := es\<rparr>)"
    and "stage2_lookup (t\<lparr>tbl_mappings := es\<rparr>) v a x =
      map_option (\<lambda>m. if m = parent then split_piece parent target (page_align_down target x) else m) (stage2_lookup t v a x)"
proof -
  let ?pc = "\<lambda>i. split_piece parent target (piece_base parent target i)"
  let ?t = "t\<lparr>tbl_mappings := es\<rparr>"
  have sp: "splittable parent target"
    using table_inv_iter(2,3) [OF inv p] child by (simp add: splittable_def)
  have vals: "snd ` set es = {m \<in> set (stage2_table_iter t). m \<noteq> parent} \<union> ?pc ` {0..<512}"
    unfolding es image_Un other_values [OF inv] by (simp add: image_image)
  have cover: "\<exists>n \<in> set (stage2_table_iter t). same_space n m \<and> mapping_contains n y
      \<and> m = (if n = parent then split_piece parent target (page_align_down target y) else n)"
    if "m \<in> snd ` set es" "mapping_contains m y" for m y
    using that unfolding vals by (rule split_cover [OF sp p])
  show inv': "table_inv ?t"
  proof (rule table_invI [OF bt])
    show "k = mapping_key_new m" if "(k, m) \<in> set es" for k m
      using that table_inv_entry(1) [OF inv] unfolding es by auto
    show "mapping_ok m \<and> mapping_fits m" if "m \<in> snd ` set es" for m
      using that table_inv_iter(2,3) [OF inv] piece_ok [OF sp] piece_fits [OF sp] unfolding vals by auto
    fix m m' y
    assume m: "m \<in> snd ` set es" "m' \<in> snd ` set es" "same_space m m'" "mapping_contains m y" "mapping_contains m' y"
    obtain n where n: "n \<in> set (stage2_table_iter t)" "same_space n m" "mapping_contains n y"
        "m = (if n = parent then split_piece parent target (page_align_down target y) else n)"
      using cover [OF m(1,4)] by blast
    obtain n' where n': "n' \<in> set (stage2_table_iter t)" "same_space n' m'" "mapping_contains n' y"
        "m' = (if n' = parent then split_piece parent target (page_align_down target y) else n')"
      using cover [OF m(2,5)] by blast
    have "same_space n n'"
      using n(2) n'(2) m(3) by (simp add: same_space_def)
    then have "n = n'"
      using table_inv_overlap [OF inv n(1) n'(1)] n(3) n'(3) by blast
    with n(4) n'(4) show "m = m'" by simp
  qed
  show "stage2_lookup ?t v a x =
      map_option (\<lambda>m. if m = parent then split_piece parent target (page_align_down target x) else m) (stage2_lookup t v a x)"
  proof (rule option_eqI)
    fix m
    have "stage2_lookup ?t v a x = Some m \<longleftrightarrow> m \<in> snd ` set es \<and> mapping_matches v a x m"
      by (simp add: stage2_lookup_iff [OF inv'] iter_set)
    also have "\<dots> \<longleftrightarrow> (\<exists>n. n \<in> set (stage2_table_iter t) \<and> mapping_matches v a x n
        \<and> m = (if n = parent then split_piece parent target (page_align_down target x) else n))" (is "?L = ?R")
    proof
      assume ?L
      then show ?R
        using cover [of m x] by (auto simp: mapping_matches_def same_space_def)
    next
      assume ?R
      then obtain n where n: "n \<in> set (stage2_table_iter t)" "mapping_matches v a x n"
        "m = (if n = parent then split_piece parent target (page_align_down target x) else n)" by blast
      show ?L
      proof (cases "n = parent")
        case True
        then obtain i where i: "i < 512" "page_align_down target x = piece_base parent target i"
          using piece_exists [OF sp, of x] n(2) by (auto simp: mapping_matches_def)
        then have "mapping_contains (?pc i) x"
          using piece_contains [OF sp i(1), of x] n(2) True by (simp add: mapping_matches_def)
        then show ?thesis
          using n(2,3) True i unfolding vals by (auto simp: mapping_matches_def)
      next
        case False
        then show ?thesis
          using n unfolding vals by simp
      qed
    qed
    finally show "stage2_lookup ?t v a x = Some m \<longleftrightarrow>
        map_option (\<lambda>m. if m = parent then split_piece parent target (page_align_down target x) else m) (stage2_lookup t v a x) = Some m"
      unfolding map_option_eq_Some stage2_lookup_iff [OF inv] by blast
  qed
qed

text \<open>Removing one mapping, the state a refused split leaves behind.\<close>

lemma remove_table:
  assumes inv: "table_inv t" and p: "parent \<in> set (stage2_table_iter t)"
  shows "table_inv (t\<lparr>tbl_mappings := btree_remove (mapping_key_new parent) (tbl_mappings t)\<rparr>)" (is "table_inv ?t")
    and "stage2_lookup (t\<lparr>tbl_mappings := btree_remove (mapping_key_new parent) (tbl_mappings t)\<rparr>) v a x =
      (if stage2_lookup t v a x = Some parent then None else stage2_lookup t v a x)"
proof -
  have vals: "snd ` set (btree_remove (mapping_key_new parent) (tbl_mappings t)) = {m \<in> set (stage2_table_iter t). m \<noteq> parent}"
    unfolding remove_entries [OF inv p] by (rule other_values [OF inv])
  show inv': "table_inv ?t"
  proof (rule table_invI)
    show "btree_ok (btree_remove (mapping_key_new parent) (tbl_mappings t))"
      using inv by (simp add: table_inv_def)
    show "k = mapping_key_new m" if "(k, m) \<in> set (btree_remove (mapping_key_new parent) (tbl_mappings t))" for k m
      using that table_inv_entry(1) [OF inv] by simp
  qed (use table_inv_iter(2,3) [OF inv] table_inv_overlap [OF inv] vals in blast)+
  show "stage2_lookup ?t v a x = (if stage2_lookup t v a x = Some parent then None else stage2_lookup t v a x)"
  proof (rule option_eqI)
    fix m
    have "stage2_lookup ?t v a x = Some m \<longleftrightarrow> m \<noteq> parent \<and> stage2_lookup t v a x = Some m"
      using vals by (auto simp: stage2_lookup_iff [OF inv'] stage2_lookup_iff [OF inv] iter_set)
    then show "stage2_lookup ?t v a x = Some m \<longleftrightarrow>
        (if stage2_lookup t v a x = Some parent then None else stage2_lookup t v a x) = Some m"
      by auto
  qed
qed

lemma stage2_split_spec:
  assumes inv: "table_inv t"
  shows "case btree_get (tbl_mappings t) (MappingKey vm asp base) of
      None \<Rightarrow> stage2_split t vm asp base target = (Inl (missing_mapping vm asp base), t)
    | Some parent \<Rightarrow> parent \<in> set (stage2_table_iter t) \<and> mapping_key_new parent = MappingKey vm asp base \<and>
        (if immediate_child (m_page_size parent) = Some target
         then \<exists>t'. stage2_split t vm asp base target =
               (Inr (map (\<lambda>i. split_piece parent target (piece_base parent target i)) [0..<512]), t') \<and> table_inv t'
             \<and> (\<forall>v a x. stage2_lookup t' v a x = map_option (\<lambda>m. if m = parent
                   then split_piece parent target (page_align_down target x) else m) (stage2_lookup t v a x))
         else \<exists>e t'. stage2_split t vm asp base target = (Inl e, t') \<and> table_inv t'
             \<and> trap_error_kind e = TrapUnsupportedCapability
             \<and> (\<forall>v a x. stage2_lookup t' v a x =
                  (if stage2_lookup t v a x = Some parent then None else stage2_lookup t v a x)))"
proof (cases "btree_get (tbl_mappings t) (MappingKey vm asp base)")
  case None
  then show ?thesis by (simp add: stage2_split_def)
next
  case (Some parent)
  have e: "(MappingKey vm asp base, parent) \<in> set (tbl_mappings t)"
    using Some by (rule map_of_SomeD)
  have p: "parent \<in> set (stage2_table_iter t)" and k: "mapping_key_new parent = MappingKey vm asp base"
    using table_inv_entry(1,4) [OF inv e] by simp_all
  have fields: "m_owner_vm parent = vm" "m_address_space parent = asp" "m_base parent = base"
    using k by (simp_all add: mapping_key_new_def)
  show ?thesis
  proof (cases "immediate_child (m_page_size parent) = Some target")
    case True
    obtain es where es: "stage2_split t vm asp base target =
        (Inr (map (\<lambda>i. split_piece parent target (piece_base parent target i)) [0..<512]), t\<lparr>tbl_mappings := es\<rparr>)"
        "btree_ok es"
        "set es = {e \<in> set (tbl_mappings t). e \<noteq> (mapping_key_new parent, parent)}
         \<union> (\<lambda>i. (mapping_key_new (split_piece parent target (piece_base parent target i)),
                    split_piece parent target (piece_base parent target i))) ` {0..<512}"
      using split_entries [OF inv p True] unfolding fields by blast
    show ?thesis
      using Some p k True es(1) split_table [OF inv p True es(2,3)] by (simp del: upt_rec_numeral)
  next
    case False
    then have "stage2_split t vm asp base target = (Inl (TrapError TrapUnsupportedCapability
        (''stage-2 model splits one page-table level at a time; cannot split '' @ page_size_str (m_page_size parent)
          @ '' directly to '' @ page_size_str target)),
        t\<lparr>tbl_mappings := btree_remove (mapping_key_new parent) (tbl_mappings t)\<rparr>)"
      using Some k by (simp add: stage2_split_def split_count_def)
    then show ?thesis
      using Some p k False remove_table [OF inv p] by auto
  qed
qed

section \<open>Sequences of table operations\<close>

datatype table_op =
    TableMap string string u64 page_size memory_type stage2_permissions
  | TableSplit string string u64 page_size
  | TablePermissions string string u64 stage2_permissions

fun table_step :: "stage2_table \<Rightarrow> table_op \<Rightarrow> stage2_table" where
  "table_step t (TableMap vm asp base sz mt p) =
     (case stage2_mapping_new vm asp base sz mt p of Inl _ \<Rightarrow> t | Inr m \<Rightarrow> snd (stage2_map t m))"
| "table_step t (TableSplit vm asp base target) = snd (stage2_split t vm asp base target)"
| "table_step t (TablePermissions vm asp gpa p) = snd (set_permissions t vm asp gpa p)"

lemma table_step_inv:
  assumes inv: "table_inv t"
  shows "table_inv (table_step t op)"
proof (cases op)
  case (TableMap vm asp base sz mt p)
  show ?thesis
  proof (cases "stage2_mapping_new vm asp base sz mt p")
    case (Inr m)
    then show ?thesis
      using stage2_map_spec [OF inv stage2_mapping_new_mapping_ok [OF Inr]] inv TableMap
      by (cases "stage2_map t m"; cases "fst (stage2_map t m)") auto
  qed (simp add: TableMap inv)
next
  case (TableSplit vm asp base target)
  then show ?thesis
    using stage2_split_spec [OF inv, of vm asp base target] inv
    by (cases "btree_get (tbl_mappings t) (MappingKey vm asp base)") (auto split: if_splits)
next
  case (TablePermissions vm asp gpa p)
  then show ?thesis
    using set_permissions_spec [OF inv, of vm asp gpa p] inv
    by (cases "stage2_lookup t vm asp gpa") auto
qed

lemma table_run_inv: "table_inv t \<Longrightarrow> table_inv (foldl table_step t ops)"
  by (induction ops arbitrary: t) (simp_all add: table_step_inv)

section \<open>Properties of the stage-2 table\<close>


text \<open>
  Mapping is exact: an accepted mapping covers addresses that were unmapped, a lookup inside it
  returns it and every other lookup is unchanged; a mapping is refused, and the table left as it
  was, only when it would pass the end of the address space or share an address with a mapping of
  the same virtual machine and address space.
\<close>

theorem stage2_map_exact:
  assumes "table_inv t" "stage2_mapping_new vm asp base sz mt p = Inr c"
  shows "case stage2_map t c of
      (Inr _, t') \<Rightarrow> (\<forall>v a x. stage2_lookup t' v a x =
          (if mapping_matches v a x c then Some c else stage2_lookup t v a x))
        \<and> (\<nexists>x. mapping_contains c x \<and> stage2_lookup t vm asp x \<noteq> None)
    | (Inl e, t') \<Rightarrow> t' = t \<and> (trap_error_kind e = TrapInvalidAddress \<and> 2 ^ 64 \<le> unat base + unat (page_size_bytes sz)
        \<or> trap_error_kind e = TrapOverlap \<and> (\<exists>x. mapping_contains c x \<and> stage2_lookup t vm asp x \<noteq> None))"
proof -
  have c: "m_owner_vm c = vm" "m_address_space c = asp" "m_base c = base" "m_page_size c = sz"
    using assms(2) by (simp_all add: stage2_mapping_new_ok)
  show ?thesis
    using stage2_map_spec [OF assms(1) stage2_mapping_new_mapping_ok [OF assms(2)]]
    unfolding mapping_fits_def c by (auto split: prod.splits sum.splits)
qed

definition demo_stage2_mapping :: stage2_mapping where
  "demo_stage2_mapping = \<lparr>m_owner_vm = ''vm'', m_address_space = ''as'', m_base = 0x200000, m_page_size = Pg2M,
     m_memory_type = WriteBack, m_permissions = perm_read_exec\<rparr>"

definition demo_stage2_table :: stage2_table where
  "demo_stage2_table = \<lparr>tbl_mappings = [(MappingKey ''vm'' ''as'' 0x200000, demo_stage2_mapping)]\<rparr>"

lemma not_blank_vm: "\<not> blank ''vm''" "\<not> blank ''as''"
  by code_simp+

lemma demo_stage2_new:
  "stage2_mapping_new ''vm'' ''as'' 0x200000 Pg2M WriteBack perm_read_exec = Inr demo_stage2_mapping"
  by (simp add: stage2_mapping_new_def not_blank_vm is_aligned_def demo_stage2_mapping_def)

lemma demo_stage2_map: "stage2_map stage2_table_new demo_stage2_mapping = (Inr (), demo_stage2_table)"
  by (simp add: stage2_map_def reject_overlap_def mapping_end_def checked_add_def stage2_table_new_def
      demo_stage2_table_def demo_stage2_mapping_def mapping_key_new_def)

lemma demo_stage2_inv: "table_inv demo_stage2_table"
  using stage2_map_spec [OF table_inv_new stage2_mapping_new_mapping_ok [OF demo_stage2_new]]
  by (simp add: demo_stage2_map)

theorem stage2_map_exact_witness:
  "table_inv stage2_table_new \<and> stage2_lookup demo_stage2_table ''vm'' ''as'' 0x234567 = Some demo_stage2_mapping"
proof -
  have "mapping_matches ''vm'' ''as'' 0x234567 demo_stage2_mapping"
    by (simp add: mapping_matches_def mapping_contains_def mapping_end_def checked_add_def demo_stage2_mapping_def)
  then show ?thesis
    using stage2_map_exact [OF table_inv_new demo_stage2_new] table_inv_new by (simp add: demo_stage2_map)
qed

text \<open>
  C18. Splitting one level keeps the translation: every address of every space has after a
  successful split the same memory type and permissions as before, through a mapping of the target
  size where the parent was. A split to any other size fails and removes the parent, so that its
  addresses are no longer mapped, and a split at an address that is no mapping's base changes
  nothing.
\<close>

theorem stage2_split_outcome:
  assumes "table_inv t"
  shows "case (stage2_split t vm asp base target, btree_get (tbl_mappings t) (MappingKey vm asp base)) of
      ((Inr children, t'), Some parent) \<Rightarrow> length children = 512 \<and> immediate_child (m_page_size parent) = Some target
        \<and> (\<forall>v a x. map_option (\<lambda>m. (m_memory_type m, m_permissions m)) (stage2_lookup t' v a x)
             = map_option (\<lambda>m. (m_memory_type m, m_permissions m)) (stage2_lookup t v a x)
           \<and> map_option m_page_size (stage2_lookup t' v a x)
             = (if stage2_lookup t v a x = Some parent then Some target else map_option m_page_size (stage2_lookup t v a x)))
    | ((Inr children, t'), None) \<Rightarrow> False
    | ((Inl e, t'), Some parent) \<Rightarrow> trap_error_kind e = TrapUnsupportedCapability
        \<and> immediate_child (m_page_size parent) \<noteq> Some target
        \<and> (\<forall>v a x. stage2_lookup t' v a x =
              (if stage2_lookup t v a x = Some parent then None else stage2_lookup t v a x))
    | ((Inl e, t'), None) \<Rightarrow> trap_error_kind e = TrapNotMapped \<and> t' = t"
  using stage2_split_spec [OF assms, of vm asp base target]
  by (auto simp: missing_mapping_def option.map_comp comp_def split: option.splits if_splits
      intro!: option.map_cong)

theorem stage2_split_outcome_witness:
  "table_inv demo_stage2_table
   \<and> stage2_lookup (snd (stage2_split demo_stage2_table ''vm'' ''as'' 0x200000 Pg1G)) ''vm'' ''as'' 0x234567 = None"
  using stage2_split_outcome [OF demo_stage2_inv, where vm = "''vm''" and asp = "''as''" and base = "0x200000" and target = Pg1G] demo_stage2_inv
  by (simp add: stage2_split_def split_count_def demo_stage2_table_def demo_stage2_mapping_def stage2_lookup_def
      btree_remove_def)

end
