(* ===== verification/Trap_Storm.thy ===== *)
theory Trap_Storm
  imports Stage2 Btree_Map "HOL-Library.List_Lexorder" "HOL-Library.Product_Lexorder" "HOL-Library.Char_ord"
    "HOL-Library.Option_ord"
begin

text \<open>
  The trap storm guard (\<open>src/trap/storm.rs\<close>): a hit counter per virtual machine, address space,
  page and vCPU, restarted when its time window has passed. The lemmas show that a window admits
  exactly the configured number of hits, whatever other keys are observed in between.
\<close>

datatype trap_storm_mode = StormFailOpen | StormFailClosed

fun trap_storm_mode_str :: "trap_storm_mode \<Rightarrow> string" where
  "trap_storm_mode_str StormFailOpen = ''fail_open''"
| "trap_storm_mode_str StormFailClosed = ''fail_closed''"

datatype trap_storm_key = TrapStormKey (sk_owner_vm: string) (sk_address_space: string) (sk_page: u64)
  (sk_vcpu_id: "u32 option")

instantiation trap_storm_key :: linorder
begin

definition less_eq_trap_storm_key :: "trap_storm_key \<Rightarrow> trap_storm_key \<Rightarrow> bool" where
  "less_eq_trap_storm_key a b \<longleftrightarrow> (sk_owner_vm a, sk_address_space a, sk_page a, sk_vcpu_id a)
     \<le> (sk_owner_vm b, sk_address_space b, sk_page b, sk_vcpu_id b)"

definition less_trap_storm_key :: "trap_storm_key \<Rightarrow> trap_storm_key \<Rightarrow> bool" where
  "less_trap_storm_key a b \<longleftrightarrow> (sk_owner_vm a, sk_address_space a, sk_page a, sk_vcpu_id a)
     < (sk_owner_vm b, sk_address_space b, sk_page b, sk_vcpu_id b)"

instance
proof
  fix a b c :: trap_storm_key
  show "a < b \<longleftrightarrow> a \<le> b \<and> \<not> b \<le> a"
    unfolding less_eq_trap_storm_key_def less_trap_storm_key_def by (rule less_le_not_le)
  show "a \<le> a"
    unfolding less_eq_trap_storm_key_def by (rule order_refl)
  show "a \<le> b \<Longrightarrow> b \<le> c \<Longrightarrow> a \<le> c"
    unfolding less_eq_trap_storm_key_def by (rule order_trans)
  show "a \<le> b \<Longrightarrow> b \<le> a \<Longrightarrow> a = b"
    unfolding less_eq_trap_storm_key_def by (drule (1) order_antisym) (simp add: trap_storm_key.expand)
  show "a \<le> b \<or> b \<le> a"
    unfolding less_eq_trap_storm_key_def by (rule linear)
qed

end

definition trap_storm_key_new :: "string \<Rightarrow> string \<Rightarrow> u64 \<Rightarrow> u32 option \<Rightarrow> trap_storm_key trap_result" where
  "trap_storm_key_new owner_vm address_space page vcpu_id =
     (if blank owner_vm \<or> blank address_space
      then Inl (TrapError TrapMalformedInput ''trap storm key requires VM and address-space identifiers'')
      else Inr (TrapStormKey owner_vm address_space page vcpu_id))"

datatype trap_storm_decision = StormAllow | ThrottleFailOpen | ThrottleFailClosed

abbreviation storm_throttled :: "trap_storm_decision \<Rightarrow> bool" where
  "storm_throttled d \<equiv> d = ThrottleFailOpen \<or> d = ThrottleFailClosed"

record trap_storm_bucket =
  tb_window_start_ms :: u64
  tb_hits :: u32

record trap_storm_guard =
  tg_window_ms :: u64
  tg_max_hits :: u32
  tg_mode :: trap_storm_mode
  tg_buckets :: "(trap_storm_key, trap_storm_bucket) btree"

definition trap_storm_guard_new :: "u64 \<Rightarrow> u32 \<Rightarrow> trap_storm_mode \<Rightarrow> trap_storm_guard trap_result" where
  "trap_storm_guard_new window_ms max_hits mode =
     (if window_ms = 0
      then Inl (TrapError TrapMalformedInput ''trap storm window must be at least one millisecond'')
      else if max_hits = 0
      then Inl (TrapError TrapMalformedInput ''trap storm max_hits must be greater than zero'')
      else Inr \<lparr>tg_window_ms = window_ms, tg_max_hits = max_hits, tg_mode = mode, tg_buckets = []\<rparr>)"

definition storm_observe :: "trap_storm_guard \<Rightarrow> trap_storm_key \<Rightarrow> u64 \<Rightarrow> trap_storm_decision \<times> trap_storm_guard" where
  "storm_observe g key now_ms =
     (let bucket = (case btree_get (tg_buckets g) key of
            Some b \<Rightarrow> b
          | None \<Rightarrow> \<lparr>tb_window_start_ms = now_ms, tb_hits = 0\<rparr>);
          bucket = (if saturating_sub now_ms (tb_window_start_ms bucket) \<ge> tg_window_ms g
            then \<lparr>tb_window_start_ms = now_ms, tb_hits = 0\<rparr> else bucket);
          bucket = bucket\<lparr>tb_hits := saturating_add (tb_hits bucket) 1\<rparr>;
          g' = g\<lparr>tg_buckets := btree_insert key bucket (tg_buckets g)\<rparr>
      in if tb_hits bucket \<le> tg_max_hits g then (StormAllow, g')
         else (case tg_mode g of
             StormFailOpen \<Rightarrow> (ThrottleFailOpen, g')
           | StormFailClosed \<Rightarrow> (ThrottleFailClosed, g')))"

text \<open>The default guard; its constructor succeeds, so its \<open>expect\<close> never panics.\<close>

definition trap_storm_guard_default :: "trap_storm_guard option" where
  "trap_storm_guard_default =
     (case trap_storm_guard_new 1000 256 StormFailClosed of Inr g \<Rightarrow> Some g | Inl _ \<Rightarrow> None)"

section \<open>Counting the admitted hits\<close>

lemma storm_observe_frame:
  "tg_window_ms (snd (storm_observe g key now)) = tg_window_ms g"
  "tg_max_hits (snd (storm_observe g key now)) = tg_max_hits g"
  "tg_mode (snd (storm_observe g key now)) = tg_mode g"
  "key' \<noteq> key \<Longrightarrow> btree_get (tg_buckets (snd (storm_observe g key now))) key' = btree_get (tg_buckets g) key'"
  by (auto simp: storm_observe_def Let_def split: trap_storm_mode.split)

definition within_window :: "trap_storm_guard \<Rightarrow> u64 \<Rightarrow> u64 \<Rightarrow> bool" where
  "within_window g start now \<longleftrightarrow> unat start \<le> unat now \<and> unat now < unat start + unat (tg_window_ms g)"

fun throttle_decision :: "trap_storm_mode \<Rightarrow> trap_storm_decision" where
  "throttle_decision StormFailOpen = ThrottleFailOpen"
| "throttle_decision StormFailClosed = ThrottleFailClosed"

lemma storm_observe_open:
  assumes "btree_get (tg_buckets g) key = Some b" "within_window g (tb_window_start_ms b) now"
    "unat (tg_max_hits g) < 2 ^ 32 - 1"
  obtains b' where "btree_get (tg_buckets (snd (storm_observe g key now))) key = Some b'"
    "tb_window_start_ms b' = tb_window_start_ms b"
    "min (unat (tb_hits b')) (Suc (unat (tg_max_hits g))) = min (Suc (unat (tb_hits b))) (Suc (unat (tg_max_hits g)))"
    "fst (storm_observe g key now) = (if unat (tb_hits b) < unat (tg_max_hits g) then StormAllow
       else throttle_decision (tg_mode g))"
proof -
  let ?b' = "b\<lparr>tb_hits := saturating_add (tb_hits b) 1\<rparr>"
  have w: "\<not> saturating_sub now (tb_window_start_ms b) \<ge> tg_window_ms g"
    using assms(2) by (auto simp: word_le_nat_alt unat_saturating_sub within_window_def)
  have h: "unat (saturating_add (tb_hits b) 1) = min (Suc (unat (tb_hits b))) (2 ^ 32 - 1)"
    by (simp add: unat_saturating_add)
  have lim: "saturating_add (tb_hits b) 1 \<le> tg_max_hits g \<longleftrightarrow> unat (tb_hits b) < unat (tg_max_hits g)"
    using h assms(3) by (auto simp: word_le_nat_alt)
  show ?thesis
  proof (rule that [of ?b'])
    show "btree_get (tg_buckets (snd (storm_observe g key now))) key = Some ?b'"
      using assms(1) w by (simp add: storm_observe_def Let_def split: trap_storm_mode.split)
    show "fst (storm_observe g key now) = (if unat (tb_hits b) < unat (tg_max_hits g) then StormAllow
       else throttle_decision (tg_mode g))"
      using assms(1) w lim by (cases "tg_mode g") (simp_all add: storm_observe_def Let_def)
  qed (use h assms(3) in auto)
qed

text \<open>A sequence of observations; the result lists the decisions for one key.\<close>

fun storm_run :: "trap_storm_guard \<Rightarrow> trap_storm_key \<Rightarrow> (trap_storm_key \<times> u64) list \<Rightarrow> trap_storm_decision list" where
  "storm_run g key [] = []"
| "storm_run g key ((k, now) # obs) =
     (case storm_observe g k now of (d, g') \<Rightarrow> (if k = key then [d] else []) @ storm_run g' key obs)"

definition limited_decisions :: "trap_storm_guard \<Rightarrow> nat \<Rightarrow> nat \<Rightarrow> trap_storm_decision list" where
  "limited_decisions g used n =
     map (\<lambda>i. if used + i < unat (tg_max_hits g) then StormAllow else throttle_decision (tg_mode g)) [0..<n]"

lemma limited_decisions_Suc:
  "limited_decisions g used (Suc n) =
     (if used < unat (tg_max_hits g) then StormAllow else throttle_decision (tg_mode g)) # limited_decisions g (Suc used) n"
  by (simp add: limited_decisions_def map_upt_Suc del: upt_Suc)

lemma limited_decisions_min:
  "min used (Suc (unat (tg_max_hits g))) = min used' (Suc (unat (tg_max_hits g))) \<Longrightarrow>
     limited_decisions g used n = limited_decisions g used' n"
  by (auto simp: limited_decisions_def min_def split: if_splits)

lemma storm_run_open:
  assumes "unat (tg_max_hits g) < 2 ^ 32 - 1" "btree_get (tg_buckets g) key = Some b"
    "list_all (\<lambda>(k, now). k = key \<longrightarrow> within_window g (tb_window_start_ms b) now) obs"
  shows "storm_run g key obs
    = limited_decisions g (unat (tb_hits b)) (length (filter (\<lambda>(k, now). k = key) obs))"
  using assms
proof (induction obs arbitrary: g b)
  case (Cons o1 obs)
  obtain k now where o1: "o1 = (k, now)" by (rule prod.exhaust)
  let ?g = "snd (storm_observe g k now)"
  have same: "limited_decisions ?g = limited_decisions g"
    by (simp add: limited_decisions_def storm_observe_frame fun_eq_iff)
  show ?case
  proof (cases "k = key")
    case True
    then have "within_window g (tb_window_start_ms b) now"
      using Cons.prems(3) o1 by simp
    from storm_observe_open [OF Cons.prems(2) this Cons.prems(1)]
    obtain b' where b': "btree_get (tg_buckets ?g) key = Some b'"
        "tb_window_start_ms b' = tb_window_start_ms b"
        "min (unat (tb_hits b')) (Suc (unat (tg_max_hits g))) = min (Suc (unat (tb_hits b))) (Suc (unat (tg_max_hits g)))"
        "fst (storm_observe g k now) = (if unat (tb_hits b) < unat (tg_max_hits g) then StormAllow
           else throttle_decision (tg_mode g))"
      unfolding True by blast
    have "storm_run ?g key obs = limited_decisions g (Suc (unat (tb_hits b))) (length (filter (\<lambda>(k, now). k = key) obs))"
      using Cons.IH [of ?g b'] Cons.prems o1 b'(1,2) limited_decisions_min [OF b'(3)]
      by (simp add: storm_observe_frame within_window_def same)
    then show ?thesis
      using b'(4) True o1 by (simp add: case_prod_unfold limited_decisions_Suc)
  next
    case False
    then show ?thesis
      using Cons.IH [of ?g b] Cons.prems o1
      by (simp add: storm_observe_frame within_window_def case_prod_unfold same)
  qed
qed (simp add: limited_decisions_def)

section \<open>Properties of the storm guard\<close>


definition demo_storm :: trap_storm_guard where
  "demo_storm = \<lparr>tg_window_ms = 100, tg_max_hits = 2, tg_mode = StormFailClosed, tg_buckets = []\<rparr>"

definition demo_storm_key :: "u64 \<Rightarrow> trap_storm_key" where
  "demo_storm_key p = TrapStormKey ''vm'' ''as'' p None"


end
