(* ===== verification/Single_Step.thy ===== *)
theory Single_Step
  imports Stage2
begin

text \<open>
  Choice of the single-step mechanism that executes a trapped instruction
  (\<open>src/trap/singlestep.rs\<close>). A strategy is selected only when the hardware offers it.
\<close>

record single_step_capabilities =
  intel_monitor_trap_flag :: bool
  x86_trap_flag :: bool
  amd_vmcb_single_step :: bool
  arm_software_step :: bool

datatype single_step_strategy =
    IntelMonitorTrapFlag
  | X86TrapFlag
  | AmdVmcbSingleStep
  | ArmSoftwareStep
  | SyntheticStep

fun single_step_str :: "single_step_strategy \<Rightarrow> string" where
  "single_step_str IntelMonitorTrapFlag = ''intel_mtf''"
| "single_step_str X86TrapFlag = ''x86_tf''"
| "single_step_str AmdVmcbSingleStep = ''amd_vmcb_single_step''"
| "single_step_str ArmSoftwareStep = ''arm_software_step''"
| "single_step_str SyntheticStep = ''synthetic_step''"

definition step_unsupported :: "string \<Rightarrow> single_step_strategy trap_result" where
  "step_unsupported detail = Inl (TrapError TrapUnsupportedCapability detail)"

fun select_single_step :: "stage2_backend_kind \<Rightarrow> single_step_capabilities \<Rightarrow> single_step_strategy trap_result" where
  "select_single_step Synthetic caps = Inr SyntheticStep"
| "select_single_step IntelEpt caps =
     (if intel_monitor_trap_flag caps then Inr IntelMonitorTrapFlag
      else if x86_trap_flag caps then Inr X86TrapFlag
      else step_unsupported ''Intel EPT trap lifecycle needs MTF or x86 TF fallback'')"
| "select_single_step AmdNpt caps =
     (if amd_vmcb_single_step caps then Inr AmdVmcbSingleStep
      else if x86_trap_flag caps then Inr X86TrapFlag
      else step_unsupported ''AMD NPT trap lifecycle needs VMCB single-step or x86 TF fallback'')"
| "select_single_step ArmStage2 caps =
     (if arm_software_step caps then Inr ArmSoftwareStep
      else step_unsupported ''ARM Stage-2 trap lifecycle needs an explicit single-step strategy'')"

section \<open>Only what the hardware offers\<close>

fun step_offered :: "single_step_capabilities \<Rightarrow> single_step_strategy \<Rightarrow> bool" where
  "step_offered caps IntelMonitorTrapFlag = intel_monitor_trap_flag caps"
| "step_offered caps X86TrapFlag = x86_trap_flag caps"
| "step_offered caps AmdVmcbSingleStep = amd_vmcb_single_step caps"
| "step_offered caps ArmSoftwareStep = arm_software_step caps"
| "step_offered caps SyntheticStep = True"

fun step_usable :: "stage2_backend_kind \<Rightarrow> single_step_strategy \<Rightarrow> bool" where
  "step_usable Synthetic s = (s = SyntheticStep)"
| "step_usable IntelEpt s = (s = IntelMonitorTrapFlag \<or> s = X86TrapFlag)"
| "step_usable AmdNpt s = (s = AmdVmcbSingleStep \<or> s = X86TrapFlag)"
| "step_usable ArmStage2 s = (s = ArmSoftwareStep)"

lemma select_single_step_sound:
  "select_single_step backend caps = Inr s \<Longrightarrow> step_offered caps s \<and> step_usable backend s"
  by (cases backend) (auto simp: step_unsupported_def split: if_splits)

lemma select_single_step_complete:
  "select_single_step backend caps = Inl e \<Longrightarrow>
     trap_error_kind e = TrapUnsupportedCapability \<and> \<not> (step_offered caps s \<and> step_usable backend s)"
  by (cases backend) (auto simp: step_unsupported_def split: if_splits)

end
