(* ===== verification/Invalidation.thy ===== *)
theory Invalidation
  imports Stage2
begin

text \<open>
  Planning of translation cache invalidations (\<open>src/trap/invalidation.rs\<close>): the scope of a
  change, the primitive each backend needs for it and the checks on the scope.
\<close>

datatype trap_invalidation_scope =
    SinglePage string string u64 page_size
  | AddressSpaceScope string string
  | VmScope string
  | GlobalScope

fun scope_kind :: "trap_invalidation_scope \<Rightarrow> string" where
  "scope_kind (SinglePage owner_vm address_space gpa sz) = ''single_page''"
| "scope_kind (AddressSpaceScope owner_vm address_space) = ''address_space''"
| "scope_kind (VmScope owner_vm) = ''vm''"
| "scope_kind GlobalScope = ''global''"

datatype invalidation_primitive =
    SyntheticRecord
  | IntelInveptSingleContext
  | IntelInveptAllContexts
  | AmdInvlpga
  | AmdFlushAsid
  | ArmTlbiVaae2
  | ArmTlbiVmalls12e1

fun primitive_str :: "invalidation_primitive \<Rightarrow> string" where
  "primitive_str SyntheticRecord = ''synthetic_record''"
| "primitive_str IntelInveptSingleContext = ''invept_single_context''"
| "primitive_str IntelInveptAllContexts = ''invept_all_contexts''"
| "primitive_str AmdInvlpga = ''invlpga''"
| "primitive_str AmdFlushAsid = ''amd_flush_asid''"
| "primitive_str ArmTlbiVaae2 = ''tlbi_vaae2''"
| "primitive_str ArmTlbiVmalls12e1 = ''tlbi_vmalls12e1''"

datatype invalidation_status = InvRecorded | InvRequired

fun invalidation_status_str :: "invalidation_status \<Rightarrow> string" where
  "invalidation_status_str InvRecorded = ''recorded''"
| "invalidation_status_str InvRequired = ''required''"

record invalidation_plan =
  ip_backend :: stage2_backend_kind
  ip_scope_kind :: string
  ip_primitive :: invalidation_primitive
  ip_status :: invalidation_status

fun validate_scope :: "trap_invalidation_scope \<Rightarrow> unit trap_result" where
  "validate_scope (SinglePage owner_vm address_space gpa sz) =
     (if blank owner_vm \<or> blank address_space
      then Inl (TrapError TrapMalformedInput ''single-page invalidation requires VM and address-space identifiers'')
      else if \<not> is_aligned sz gpa
      then Inl (TrapError TrapMisaligned (''single-page invalidation address '' @ hex_u64 gpa
        @ '' is not aligned to '' @ page_size_str sz))
      else Inr ())"
| "validate_scope (AddressSpaceScope owner_vm address_space) =
     (if blank owner_vm \<or> blank address_space
      then Inl (TrapError TrapMalformedInput ''address-space invalidation requires VM and address-space identifiers'')
      else Inr ())"
| "validate_scope (VmScope owner_vm) =
     (if blank owner_vm
      then Inl (TrapError TrapMalformedInput ''VM invalidation requires a non-empty VM identifier'')
      else Inr ())"
| "validate_scope GlobalScope = Inr ()"

fun choose_primitive :: "stage2_backend_kind \<Rightarrow> trap_invalidation_scope \<Rightarrow> invalidation_primitive" where
  "choose_primitive Synthetic scope = SyntheticRecord"
| "choose_primitive IntelEpt GlobalScope = IntelInveptAllContexts"
| "choose_primitive IntelEpt (VmScope owner_vm) = IntelInveptAllContexts"
| "choose_primitive IntelEpt (SinglePage owner_vm address_space gpa sz) = IntelInveptSingleContext"
| "choose_primitive IntelEpt (AddressSpaceScope owner_vm address_space) = IntelInveptSingleContext"
| "choose_primitive AmdNpt (SinglePage owner_vm address_space gpa sz) = AmdInvlpga"
| "choose_primitive AmdNpt (AddressSpaceScope owner_vm address_space) = AmdFlushAsid"
| "choose_primitive AmdNpt (VmScope owner_vm) = AmdFlushAsid"
| "choose_primitive AmdNpt GlobalScope = AmdFlushAsid"
| "choose_primitive ArmStage2 (SinglePage owner_vm address_space gpa sz) = ArmTlbiVaae2"
| "choose_primitive ArmStage2 (AddressSpaceScope owner_vm address_space) = ArmTlbiVmalls12e1"
| "choose_primitive ArmStage2 (VmScope owner_vm) = ArmTlbiVmalls12e1"
| "choose_primitive ArmStage2 GlobalScope = ArmTlbiVmalls12e1"

definition plan_invalidation :: "stage2_backend_kind \<Rightarrow> trap_invalidation_scope \<Rightarrow> invalidation_plan trap_result" where
  "plan_invalidation backend scope =
     (case validate_scope scope of
        Inl e \<Rightarrow> Inl e
      | Inr _ \<Rightarrow> Inr \<lparr>ip_backend = backend, ip_scope_kind = scope_kind scope,
          ip_primitive = choose_primitive backend scope,
          ip_status = (if backend = Synthetic then InvRecorded else InvRequired)\<rparr>)"

section \<open>A plan reaches what changed\<close>

text \<open>A primitive that drops the translations of one page only.\<close>

definition page_granular :: "invalidation_primitive \<Rightarrow> bool" where
  "page_granular p \<longleftrightarrow> p = AmdInvlpga \<or> p = ArmTlbiVaae2"

lemma choose_primitive_reach:
  "page_granular (choose_primitive backend scope) \<Longrightarrow> \<exists>vm asp gpa sz. scope = SinglePage vm asp gpa sz"
  by (cases "(backend, scope)" rule: choose_primitive.cases) (auto simp: page_granular_def)

lemma plan_invalidation_page:
  assumes "\<not> blank vm" "\<not> blank asp" "is_aligned sz gpa"
  shows "plan_invalidation backend (SinglePage vm asp gpa sz) =
    Inr \<lparr>ip_backend = backend, ip_scope_kind = ''single_page'',
      ip_primitive = choose_primitive backend (SinglePage vm asp gpa sz),
      ip_status = (if backend = Synthetic then InvRecorded else InvRequired)\<rparr>"
  using assms by (simp add: plan_invalidation_def)

lemma plan_invalidation_error:
  "plan_invalidation backend scope = Inl e \<Longrightarrow>
     trap_error_kind e = TrapMalformedInput \<or> trap_error_kind e = TrapMisaligned"
  by (cases scope) (auto simp: plan_invalidation_def split: if_splits)

end
