(* ===== verification/Pattern.thy ===== *)
theory Pattern
  imports Rust_Text
begin

text \<open>
  The pattern language of the policy files (\<open>src/pattern.rs\<close>): alternatives of literals separated
  by \<open>.*\<close>, optionally anchored. The greedy matcher is shown to decide the language an
  alternative stands for. The source walks over characters, the model over bytes: every
  character the code looks at is ASCII and no byte of a longer encoding is, so both walks see the
  same characters. The parenthesis counters are integers; an \<open>i32\<close> differs from one only in
  a pattern with more than two thousand million parentheses. A panic is the outer \<^const>\<open>None\<close>.
\<close>

section \<open>The program\<close>

record pattern_alt =
  alt_anchor_start :: bool
  alt_anchor_end :: bool
  alt_parts :: "string list"

record pattern =
  pat_raw :: string
  pat_alts :: "pattern_alt list"

definition in_quotes :: "string \<Rightarrow> string" where
  "in_quotes s = [CHR 0x27] @ s @ [CHR 0x27]"

text \<open>The loop of \<open>validate_balanced\<close> and the checks after it.\<close>

fun balanced_loop :: "int \<Rightarrow> int \<Rightarrow> bool \<Rightarrow> string \<Rightarrow> string + unit" where
  "balanced_loop paren bracket escape [] =
     (if escape then Inl ''invalid pattern: trailing escape''
      else if paren \<noteq> 0 then Inl (''invalid pattern: unmatched '' @ in_quotes ''('')
      else if bracket \<noteq> 0 then Inl (''invalid pattern: unmatched '' @ in_quotes ''['')
      else Inr ())"
| "balanced_loop paren bracket escape (c # cs) =
     (if escape then balanced_loop paren bracket False cs
      else if c = CHR 0x5C then balanced_loop paren bracket True cs
      else if c = CHR ''('' then balanced_loop (paren + 1) bracket False cs
      else if c = CHR '')'' then
        (if paren - 1 < 0 then Inl (''invalid pattern: unmatched '' @ in_quotes '')'')
         else balanced_loop (paren - 1) bracket False cs)
      else if c = CHR ''['' then balanced_loop paren (bracket + 1) False cs
      else if c = CHR '']'' then
        (if bracket - 1 < 0 then Inl (''invalid pattern: unmatched '' @ in_quotes '']'')
         else balanced_loop paren (bracket - 1) False cs)
      else balanced_loop paren bracket False cs)"

definition validate_balanced :: "string \<Rightarrow> string + unit" where
  "validate_balanced s = balanced_loop 0 0 False s"

fun unsupported_loop :: "bool \<Rightarrow> string \<Rightarrow> string + unit" where
  "unsupported_loop escape [] = Inr ()"
| "unsupported_loop escape (c # cs) =
     (if escape then unsupported_loop False cs
      else if c = CHR 0x5C then unsupported_loop True cs
      else if c \<in> set ''+?{}[]()''
      then Inl (''invalid pattern: unsupported regex operator '' @ in_quotes [c])
      else unsupported_loop False cs)"

definition reject_unsupported :: "string \<Rightarrow> string + unit" where
  "reject_unsupported s = unsupported_loop False s"

fun unescape_loop :: "bool \<Rightarrow> string \<Rightarrow> string \<Rightarrow> string + string" where
  "unescape_loop escape out [] = (if escape then Inl ''invalid pattern: trailing escape'' else Inr out)"
| "unescape_loop escape out (c # cs) =
     (if escape then unescape_loop False (out @ [c]) cs
      else if c = CHR 0x5C then unescape_loop True out cs
      else unescape_loop False (out @ [c]) cs)"

definition unescape_regex_literal :: "string \<Rightarrow> string + string" where
  "unescape_regex_literal s = unescape_loop False [] s"

text \<open>The loop over the pieces between \<open>.*\<close>.\<close>

fun compile_parts :: "bool \<Rightarrow> string list \<Rightarrow> string list \<Rightarrow> string + string list" where
  "compile_parts case_insensitive [] parts = Inr parts"
| "compile_parts case_insensitive (piece # pieces) parts =
     (case unescape_regex_literal piece of
        Inl e \<Rightarrow> Inl e
      | Inr p \<Rightarrow>
          let p = (if case_insensitive then to_ascii_lowercase p else p) in
          compile_parts case_insensitive pieces (if p \<noteq> [] then parts @ [p] else parts))"

definition compile_alt :: "string \<Rightarrow> bool \<Rightarrow> string \<Rightarrow> string + pattern_alt" where
  "compile_alt input case_insensitive piece =
     (let a = str_trim piece in
      if a = [] then Inl (''invalid pattern '' @ in_quotes input @ '': empty alternation'')
      else
        let (anchor_start, body) = (case strip_prefix ''^'' a of Some v \<Rightarrow> (True, v) | None \<Rightarrow> (False, a));
            (anchor_end, body) = (case strip_suffix ''$'' body of Some v \<Rightarrow> (True, v) | None \<Rightarrow> (False, body))
        in case compile_parts case_insensitive (split_pair (CHR ''.'') (CHR ''*'') body) [] of
             Inl e \<Rightarrow> Inl e
           | Inr parts \<Rightarrow>
               if parts = [] then Inl (''invalid pattern '' @ in_quotes input @ '': empty expression'')
               else Inr \<lparr>alt_anchor_start = anchor_start, alt_anchor_end = anchor_end, alt_parts = parts\<rparr>)"

fun compile_alts :: "string \<Rightarrow> bool \<Rightarrow> string list \<Rightarrow> pattern_alt list \<Rightarrow> string + pattern_alt list" where
  "compile_alts input case_insensitive [] alts = Inr alts"
| "compile_alts input case_insensitive (piece # pieces) alts =
     (case compile_alt input case_insensitive piece of
        Inl e \<Rightarrow> Inl e
      | Inr a \<Rightarrow> compile_alts input case_insensitive pieces (alts @ [a]))"

definition pattern_compile :: "string \<Rightarrow> string + pattern" where
  "pattern_compile input =
     (let raw = str_trim input in
      if raw = [] then Inl ''empty pattern''
      else
        let (case_insensitive, raw) =
          (case strip_prefix ''(?i)'' raw of Some rest \<Rightarrow> (True, rest) | None \<Rightarrow> (False, raw))
        in case validate_balanced raw of
             Inl e \<Rightarrow> Inl e
           | Inr _ \<Rightarrow>
             (case reject_unsupported raw of
                Inl e \<Rightarrow> Inl e
              | Inr _ \<Rightarrow>
                (case compile_alts input case_insensitive (split_char (CHR ''|'') raw) [] of
                   Inl e \<Rightarrow> Inl e
                 | Inr alts \<Rightarrow> Inr \<lparr>pat_raw = input, pat_alts = alts\<rparr>)))"

text \<open>The loop over the parts; the result is the position after the last one.\<close>

fun alt_loop :: "bool \<Rightarrow> string \<Rightarrow> nat \<Rightarrow> string list \<Rightarrow> nat \<Rightarrow> nat option" where
  "alt_loop anchor_start hay idx [] pos = Some pos"
| "alt_loop anchor_start hay idx (part # parts) pos =
     (if idx = 0 \<and> anchor_start
      then if \<not> starts_with part (drop pos hay) then None
           else alt_loop anchor_start hay (idx + 1) parts (pos + length part)
      else case str_find part (drop pos hay) of
        None \<Rightarrow> None
      | Some found \<Rightarrow> alt_loop anchor_start hay (idx + 1) parts (pos + found + length part))"

definition alt_matches :: "pattern_alt \<Rightarrow> string \<Rightarrow> bool option" where
  "alt_matches a hay =
     (if length (alt_parts a) = 1
      then let needle = alt_parts a ! 0 in
        Some (case (alt_anchor_start a, alt_anchor_end a) of
            (True, True) \<Rightarrow> hay = needle
          | (True, False) \<Rightarrow> starts_with needle hay
          | (False, True) \<Rightarrow> ends_with needle hay
          | (False, False) \<Rightarrow> str_contains needle hay)
      else case alt_loop (alt_anchor_start a) hay 0 (alt_parts a) 0 of
        None \<Rightarrow> Some False
      | Some _ \<Rightarrow>
          if alt_anchor_end a
          then if alt_parts a = [] then None else Some (ends_with (last (alt_parts a)) hay)
          else Some True)"

fun any_alt :: "pattern_alt list \<Rightarrow> string \<Rightarrow> bool option" where
  "any_alt [] hay = Some False"
| "any_alt (a # alts) hay =
     (case alt_matches a hay of
        None \<Rightarrow> None
      | Some True \<Rightarrow> Some True
      | Some False \<Rightarrow> any_alt alts hay)"

definition pattern_haystack :: "pattern \<Rightarrow> string \<Rightarrow> string" where
  "pattern_haystack p v = (if starts_with ''(?i)'' (pat_raw p) then to_ascii_lowercase v else v)"

definition pattern_is_match :: "pattern \<Rightarrow> string \<Rightarrow> bool option" where
  "pattern_is_match p v = any_alt (pat_alts p) (pattern_haystack p v)"

section \<open>The language of an alternative\<close>

text \<open>
  \<open>gapped ps s\<close>: \<open>s\<close> is the first part, anything, the second part, and so on up to the last part.
\<close>

fun gapped :: "string list \<Rightarrow> string \<Rightarrow> bool" where
  "gapped [] s \<longleftrightarrow> s = []"
| "gapped [p] s \<longleftrightarrow> s = p"
| "gapped (p # q # ps) s \<longleftrightarrow> (\<exists>g t. s = p @ g @ t \<and> gapped (q # ps) t)"

definition alt_language :: "pattern_alt \<Rightarrow> string \<Rightarrow> bool" where
  "alt_language a hay \<longleftrightarrow> (\<exists>pre mid post. hay = pre @ mid @ post \<and> gapped (alt_parts a) mid
     \<and> (alt_anchor_start a \<longrightarrow> pre = []) \<and> (alt_anchor_end a \<longrightarrow> post = []))"

section \<open>The greedy search is complete\<close>

fun greedy :: "string list \<Rightarrow> string \<Rightarrow> string option" where
  "greedy [] s = Some s"
| "greedy (p # ps) s =
     (case str_find p s of None \<Rightarrow> None | Some i \<Rightarrow> greedy ps (drop (i + length p) s))"

lemma alt_loop_greedy:
  "alt_loop a hay (Suc idx) ps pos = None \<longleftrightarrow> greedy ps (drop pos hay) = None"
proof (induction ps arbitrary: idx pos)
  case (Cons p ps)
  then show ?case
    by (auto simp: add.commute add.left_commute split: option.splits)
qed simp

lemma alt_loop_greedy_free: "alt_loop False hay idx ps pos = None \<longleftrightarrow> greedy ps (drop pos hay) = None"
proof (induction ps arbitrary: idx pos)
  case (Cons p ps)
  then show ?case
    by (auto simp: add.commute add.left_commute split: option.splits)
qed simp

lemma greedy_sound:
  "greedy ps s = Some rest \<Longrightarrow> ps \<noteq> [] \<Longrightarrow> \<exists>pre mid. s = pre @ mid @ rest \<and> gapped ps mid"
proof (induction ps arbitrary: s)
  case (Cons p ps)
  then obtain i where i: "str_find p s = Some i" "greedy ps (drop (i + length p) s) = Some rest"
    by (auto split: option.splits)
  define t where "t = drop (i + length p) s"
  have t: "s = take i s @ p @ t" and d: "greedy ps t = Some rest"
    using str_find_SomeD [OF i(1)] i(2) by (simp_all add: t_def)
  show ?case
  proof (cases ps)
    case Nil
    then show ?thesis
      using d t by (intro exI [of _ "take i s"] exI [of _ p]) simp
  next
    case (Cons q qs)
    then obtain pre mid where "t = pre @ mid @ rest" "gapped ps mid"
      using Cons.IH [OF d] by auto
    then show ?thesis
      using t Cons by (intro exI [of _ "take i s"] exI [of _ "p @ pre @ mid"]) auto
  qed
qed simp

lemma greedy_complete:
  "s = pre @ mid @ post \<Longrightarrow> gapped ps mid \<Longrightarrow> ps \<noteq> [] \<Longrightarrow> \<exists>x. greedy ps s = Some (x @ post)"
proof (induction ps arbitrary: s pre mid)
  case (Cons p ps)
  obtain m where m: "mid = p @ m" "ps = [] \<longrightarrow> m = []" "ps \<noteq> [] \<longrightarrow> (\<exists>g t. m = g @ t \<and> gapped ps t)"
    using Cons.prems(2) by (cases ps) auto
  have s: "s = pre @ p @ (m @ post)"
    using Cons.prems(1) m(1) by simp
  obtain i where i: "str_find p s = Some i" "i \<le> length pre"
    using str_find_exists [of p pre "m @ post"] str_find_le [of p pre "m @ post"] s by auto
  have "drop (i + length p) s = drop (i + length p) (pre @ p) @ m @ post"
    using s i(2) by simp
  then obtain y where y: "drop (i + length p) s = y @ m @ post" by blast
  show ?case
  proof (cases "ps = []")
    case True
    then show ?thesis
      using i(1) y m(2) by auto
  next
    case False
    then obtain g t where gt: "m = g @ t" "gapped ps t"
      using m(3) by blast
    show ?thesis
      using Cons.IH [OF _ gt(2) False, of "drop (i + length p) s" "y @ g"] i(1) y gt(1) by auto
  qed
qed simp

text \<open>The last gap can be widened, so a match that ends anywhere gives one that ends at the end.\<close>

lemma gapped_last:
  "gapped ps mid \<Longrightarrow> length ps \<ge> 2 \<Longrightarrow> \<exists>m. mid = m @ last ps \<and> (\<forall>g. gapped ps (m @ g @ last ps))"
proof (induction ps mid rule: gapped.induct)
  case (3 p q ps mid)
  then obtain g t where gt: "mid = p @ g @ t" "gapped (q # ps) t" by auto
  show ?case
  proof (cases ps)
    case Nil
    then show ?thesis
      using gt by (intro exI [of _ "p @ g"]) auto
  next
    case (Cons r rs)
    then obtain m where m: "t = m @ last (q # ps)" "\<forall>g. gapped (q # ps) (m @ g @ last (q # ps))"
      using 3(1) [OF gt(2)] by auto
    have "gapped (p # q # ps) ((p @ g @ m) @ g' @ last (q # ps))" for g'
      unfolding gapped.simps using m(2) by (intro exI [of _ g] exI [of _ "m @ g' @ last (q # ps)"]) simp
    then show ?thesis
      using gt(1) m(1) by (intro exI [of _ "p @ g @ m"]) simp
  qed
qed simp_all

lemma ends_with_gapped:
  assumes "hay = pre @ mid @ rest" "gapped ps mid" "length ps \<ge> 2" "ends_with (last ps) hay"
  shows "\<exists>mid'. hay = pre @ mid' \<and> gapped ps mid'"
proof -
  obtain m where m: "mid = m @ last ps" "\<forall>g. gapped ps (m @ g @ last ps)"
    using gapped_last [OF assms(2,3)] by blast
  obtain t where t: "hay = t @ last ps"
    using assms(4) by (auto simp: ends_with_iff)
  have "length (pre @ m) \<le> length t"
    using arg_cong [OF t, of length] assms(1) m(1) by simp
  moreover have "(pre @ m) @ (last ps @ rest) = t @ last ps"
    using assms(1) m(1) t by simp
  ultimately obtain g where "t = (pre @ m) @ g"
    by (auto simp: append_eq_append_conv2)
  then show ?thesis
    using t m(2) by auto
qed

section \<open>The matcher decides the language\<close>

lemma alt_loop_language:
  assumes parts: "length (alt_parts a) \<ge> 2"
  shows "alt_loop (alt_anchor_start a) hay 0 (alt_parts a) 0 \<noteq> None \<longleftrightarrow>
    (\<exists>pre mid post. hay = pre @ mid @ post \<and> gapped (alt_parts a) mid \<and> (alt_anchor_start a \<longrightarrow> pre = []))"
proof -
  obtain p q ps where ps: "alt_parts a = p # q # ps"
    using parts by (auto simp: Suc_le_length_iff numeral_2_eq_2)
  have free: "greedy (p # q # ps) hay \<noteq> None \<longleftrightarrow> (\<exists>pre mid post. hay = pre @ mid @ post \<and> gapped (p # q # ps) mid)"
    (is "?G \<longleftrightarrow> ?E")
  proof
    assume ?G
    then obtain rest where "greedy (p # q # ps) hay = Some rest" by blast
    from greedy_sound [OF this] show ?E by blast
  next
    assume ?E
    then obtain pre mid post where "hay = pre @ mid @ post" "gapped (p # q # ps) mid" by blast
    from greedy_complete [OF this] show ?G by (auto simp del: greedy.simps)
  qed
  have anchored: "starts_with p hay \<and> greedy (q # ps) (drop (length p) hay) \<noteq> None \<longleftrightarrow>
      (\<exists>mid post. hay = mid @ post \<and> gapped (p # q # ps) mid)" (is "?L = ?R")
  proof
    assume ?L
    then obtain t where t: "hay = p @ t"
      by (auto simp: starts_with_iff)
    then obtain rest where rest: "greedy (q # ps) t = Some rest"
      using \<open>?L\<close> by (auto simp del: greedy.simps)
    obtain g m where "t = g @ m @ rest" "gapped (q # ps) m"
      using greedy_sound [OF rest] by blast
    then show ?R
      using t by (intro exI [of _ "p @ g @ m"] exI [of _ rest]) auto
  next
    assume ?R
    then obtain g t post where h: "hay = p @ g @ t @ post" "gapped (q # ps) t" by auto
    then show ?L
      using greedy_complete [of "g @ t @ post" g t post "q # ps"] by (auto simp: starts_with_iff simp del: greedy.simps)
  qed
  show ?thesis
  proof (cases "alt_anchor_start a")
    case True
    then show ?thesis
      using anchored ps alt_loop_greedy [of True hay 0 "q # ps" "length p"]
      by (auto simp del: greedy.simps gapped.simps)
  next
    case False
    then show ?thesis
      using free ps alt_loop_greedy_free [of hay 0 "p # q # ps" 0] by (simp del: greedy.simps gapped.simps)
  qed
qed

lemma alt_matches_single:
  assumes "alt_parts a = [p]"
  shows "alt_matches a hay = Some (alt_language a hay)"
proof -
  have "alt_language a hay \<longleftrightarrow> (\<exists>pre post. hay = pre @ p @ post \<and> (alt_anchor_start a \<longrightarrow> pre = [])
      \<and> (alt_anchor_end a \<longrightarrow> post = []))"
    using assms by (simp add: alt_language_def)
  then show ?thesis
    using assms by (auto simp: alt_matches_def starts_with_iff ends_with_iff str_contains_iff split: bool.splits)
qed

lemma alt_language_anchored_end:
  assumes two: "length (alt_parts a) \<ge> 2" and anchor: "alt_anchor_end a"
  shows "alt_language a hay \<longleftrightarrow> ends_with (last (alt_parts a)) hay
    \<and> (\<exists>pre mid post. hay = pre @ mid @ post \<and> gapped (alt_parts a) mid \<and> (alt_anchor_start a \<longrightarrow> pre = []))"
    (is "?L \<longleftrightarrow> ?E \<and> ?F")
proof
  assume ?L
  then obtain pre mid where h: "hay = pre @ mid @ []" "gapped (alt_parts a) mid" "alt_anchor_start a \<longrightarrow> pre = []"
    using anchor by (auto simp: alt_language_def)
  obtain m where "mid = m @ last (alt_parts a)"
    using gapped_last [OF h(2) two] by blast
  then have ?E
    using h(1) by (auto simp: ends_with_iff)
  with h show "?E \<and> ?F" by blast
next
  assume r: "?E \<and> ?F"
  then obtain pre mid post where h: "hay = pre @ mid @ post" "gapped (alt_parts a) mid" "alt_anchor_start a \<longrightarrow> pre = []"
    by blast
  obtain mid' where "hay = pre @ mid' @ []" "gapped (alt_parts a) mid'"
    using ends_with_gapped [OF h(1,2) two] r by auto
  with h(3) show ?L
    unfolding alt_language_def by blast
qed

lemma alt_matches_language:
  assumes "alt_parts a \<noteq> []"
  shows "alt_matches a hay = Some (alt_language a hay)"
proof (cases "length (alt_parts a) = 1")
  case True
  then obtain p where "alt_parts a = [p]"
    by (auto simp: length_Suc_conv)
  then show ?thesis
    by (rule alt_matches_single)
next
  case False
  then have two: "length (alt_parts a) \<ge> 2"
    using assms by (cases "alt_parts a") (auto simp: Suc_le_eq)
  show ?thesis
    using False assms alt_loop_language [OF two, of hay] alt_language_anchored_end [OF two, of hay]
    by (cases "alt_anchor_end a"; cases "alt_loop (alt_anchor_start a) hay 0 (alt_parts a) 0")
      (simp_all add: alt_matches_def alt_language_def)
qed

lemma any_alt_language:
  "\<forall>a \<in> set alts. alt_parts a \<noteq> [] \<Longrightarrow> any_alt alts hay = Some (\<exists>a \<in> set alts. alt_language a hay)"
  by (induction alts) (auto simp: alt_matches_language split: bool.split)

lemma compile_alt_parts: "compile_alt input ci piece = Inr a \<Longrightarrow> alt_parts a \<noteq> []"
  by (auto simp: compile_alt_def Let_def split: if_splits option.splits sum.splits prod.splits)

lemma compile_alts_parts:
  "compile_alts input ci pieces alts = Inr alts' \<Longrightarrow> \<forall>a \<in> set alts. alt_parts a \<noteq> [] \<Longrightarrow> \<forall>a \<in> set alts'. alt_parts a \<noteq> []"
proof (induction pieces arbitrary: alts)
  case (Cons piece pieces)
  obtain a where a: "compile_alt input ci piece = Inr a"
    using Cons.prems(1) by (cases "compile_alt input ci piece") auto
  then have "compile_alts input ci pieces (alts @ [a]) = Inr alts'"
    using Cons.prems(1) by simp
  then show ?case
    using Cons.IH [of "alts @ [a]"] Cons.prems(2) compile_alt_parts [OF a] by simp
qed simp

lemma pattern_compile_parts:
  assumes "pattern_compile input = Inr p"
  shows "\<forall>a \<in> set (pat_alts p). alt_parts a \<noteq> []"
proof -
  obtain ci pieces alts where "compile_alts input ci pieces [] = Inr alts" "pat_alts p = alts"
    using assms by (auto simp: pattern_compile_def Let_def split: if_splits sum.splits prod.splits)
  then show ?thesis
    using compile_alts_parts by fastforce
qed

lemma pattern_is_match_language:
  "pattern_compile input = Inr p \<Longrightarrow>
     pattern_is_match p v = Some (\<exists>a \<in> set (pat_alts p). alt_language a (pattern_haystack p v))"
  unfolding pattern_is_match_def by (rule any_alt_language [OF pattern_compile_parts])

section \<open>Properties of patterns\<close>



section \<open>Where the language differs from its documentation\<close>

text \<open>
  The wildcard next to an anchor is dropped with its empty literal, a dot or a star on its own is a
  literal although other operators are documented to be errors, and the case flag is looked for in
  the untrimmed text when matching.
\<close>

lemma anchored_wildcard_is_dropped:
  "map_sum id (\<lambda>p. pattern_is_match p ''xfoo'') (pattern_compile ''^.*foo'') = Inr (Some False)"
  by code_simp

lemma lone_operators_are_literals:
  "map_sum id (\<lambda>p. (pattern_is_match p ''abc'', pattern_is_match p ''a.c'')) (pattern_compile ''^a.c$'')
     = Inr (Some False, Some True)"
  by code_simp

lemma padded_case_flag_never_folds_the_value:
  "map_sum id (\<lambda>p. (pattern_is_match p ''FOO'', pattern_is_match p ''foo'')) (pattern_compile '' (?i)FOO'')
     = Inr (Some False, Some True)"
  by code_simp

end
