(* ===== verification/Jit_Policy.thy ===== *)
theory Jit_Policy
  imports Pattern Stage2
begin

text \<open>
  The allow rules for just-in-time compilers (\<open>src/trap/jit.rs\<close>): a temporary window is granted to
  an attributed process when a rule matches the machine, the process and the module and both
  requested amounts are within the rule's limits. A compiled pattern never panics when it is matched
  (\<open>pattern_is_match_language\<close>), so the answer of a rule is read off its value.
\<close>

section \<open>The program\<close>

record jit_trap_rule =
  jr_vm :: "pattern option"
  jr_process :: pattern
  jr_module :: "pattern option"
  jr_max_pages :: u64
  jr_max_window_ms :: u64

record jit_trap_context =
  jc_vm :: string
  jc_process :: "string option"
  jc_module :: "string option"
  jc_symbol :: "string option"
  jc_page_count :: u64
  jc_requested_window_ms :: u64

record jit_trap_decision =
  jd_allowed :: bool
  jd_reason :: string

record jit_trap_policy =
  jp_rules :: "jit_trap_rule list"

fun compile_optional :: "string option \<Rightarrow> string \<Rightarrow> pattern option trap_result" where
  "compile_optional None field = Inr None"
| "compile_optional (Some raw) field =
     (if blank raw then Inr None
      else case pattern_compile raw of
        Inl err \<Rightarrow> Inl (TrapError TrapMalformedInput
          (''invalid JIT '' @ field @ '' '' @ in_quotes raw @ '': '' @ err))
      | Inr p \<Rightarrow> Inr (Some p))"

definition jit_trap_rule_new ::
    "string option \<Rightarrow> string \<Rightarrow> string option \<Rightarrow> u64 \<Rightarrow> u64 \<Rightarrow> jit_trap_rule trap_result" where
  "jit_trap_rule_new vm_regex process_regex module_regex max_pages max_window_ms =
     (if blank process_regex
      then Inl (TrapError TrapMalformedInput ''JIT trap rule requires a process regex'')
      else if max_pages = 0 \<or> max_window_ms = 0
      then Inl (TrapError TrapMalformedInput ''JIT trap rule requires positive page and window limits'')
      else case compile_optional vm_regex ''vm_regex'' of
        Inl e \<Rightarrow> Inl e
      | Inr vm \<Rightarrow>
        (case pattern_compile process_regex of
           Inl err \<Rightarrow> Inl (TrapError TrapMalformedInput
             (''invalid JIT process regex '' @ in_quotes process_regex @ '': '' @ err))
         | Inr process \<Rightarrow>
           (case compile_optional module_regex ''module_regex'' of
              Inl e \<Rightarrow> Inl e
            | Inr mdl \<Rightarrow> Inr \<lparr>jr_vm = vm, jr_process = process, jr_module = mdl,
                jr_max_pages = max_pages, jr_max_window_ms = max_window_ms\<rparr>)))"

definition is_match :: "pattern \<Rightarrow> string \<Rightarrow> bool" where
  "is_match p v \<longleftrightarrow> pattern_is_match p v = Some True"

definition jit_rule_matches :: "jit_trap_rule \<Rightarrow> jit_trap_context \<Rightarrow> bool" where
  "jit_rule_matches r ctx \<longleftrightarrow>
     (case jr_vm r of Some p \<Rightarrow> is_match p (jc_vm ctx) | None \<Rightarrow> True)
     \<and> (case jc_process ctx of Some process \<Rightarrow> is_match (jr_process r) process | None \<Rightarrow> False)
     \<and> (case jr_module r of
          Some p \<Rightarrow> (case jc_module ctx of Some mdl \<Rightarrow> is_match p mdl | None \<Rightarrow> False)
        | None \<Rightarrow> True)
     \<and> jc_page_count ctx \<le> jr_max_pages r
     \<and> jc_requested_window_ms ctx \<le> jr_max_window_ms r"

definition jit_trap_policy_new :: "jit_trap_rule list \<Rightarrow> jit_trap_policy" where
  "jit_trap_policy_new rules = \<lparr>jp_rules = rules\<rparr>"

definition jit_evaluate :: "jit_trap_policy \<Rightarrow> jit_trap_context \<Rightarrow> jit_trap_decision" where
  "jit_evaluate policy ctx =
     (if blank (case jc_process ctx of Some process \<Rightarrow> process | None \<Rightarrow> [])
      then \<lparr>jd_allowed = False, jd_reason = ''missing guest process attribution''\<rparr>
      else if jc_page_count ctx = 0 \<or> jc_requested_window_ms ctx = 0
      then \<lparr>jd_allowed = False, jd_reason = ''invalid JIT temporary window request''\<rparr>
      else if list_ex (\<lambda>rule. jit_rule_matches rule ctx) (jp_rules policy)
      then \<lparr>jd_allowed = True, jd_reason = ''matched JIT trap allow rule''\<rparr>
      else \<lparr>jd_allowed = False, jd_reason = ''no JIT trap allow rule matched attribution and limits''\<rparr>)"

section \<open>What a rule grants\<close>

definition pattern_language :: "pattern \<Rightarrow> string \<Rightarrow> bool" where
  "pattern_language p v \<longleftrightarrow> (\<exists>a \<in> set (pat_alts p). alt_language a (pattern_haystack p v))"

text \<open>A rule as \<open>JitTrapRule::new\<close> returns it.\<close>

definition pattern_compiled :: "pattern \<Rightarrow> bool" where
  "pattern_compiled p \<longleftrightarrow> list_all (\<lambda>a. alt_parts a \<noteq> []) (pat_alts p)"

definition jit_rule_compiled :: "jit_trap_rule \<Rightarrow> bool" where
  "jit_rule_compiled r \<longleftrightarrow> pattern_compiled (jr_process r) \<and> pred_option pattern_compiled (jr_vm r)
     \<and> pred_option pattern_compiled (jr_module r) \<and> jr_max_pages r \<noteq> 0 \<and> jr_max_window_ms r \<noteq> 0"

lemma compile_pattern_compiled: "pattern_compile input = Inr p \<Longrightarrow> pattern_compiled p"
  using pattern_compile_parts by (simp add: pattern_compiled_def list_all_iff)

lemma compile_optional_compiled: "compile_optional v field = Inr q \<Longrightarrow> pred_option pattern_compiled q"
  by (cases v) (auto split: if_splits sum.splits dest: compile_pattern_compiled)

lemma jit_trap_rule_new_compiled:
  assumes "jit_trap_rule_new vm process mdl pages window = Inr r"
  shows "jit_rule_compiled r"
proof -
  obtain v p m where "compile_optional vm ''vm_regex'' = Inr v" "pattern_compile process = Inr p"
      "compile_optional mdl ''module_regex'' = Inr m" "pages \<noteq> 0" "window \<noteq> 0"
      "r = \<lparr>jr_vm = v, jr_process = p, jr_module = m, jr_max_pages = pages, jr_max_window_ms = window\<rparr>"
    using assms by (auto simp: jit_trap_rule_new_def split: if_splits sum.splits)
  then show ?thesis
    using compile_optional_compiled compile_pattern_compiled by (simp add: jit_rule_compiled_def)
qed

lemma is_match_language: "pattern_compiled p \<Longrightarrow> is_match p v \<longleftrightarrow> pattern_language p v"
  unfolding is_match_def pattern_is_match_def pattern_language_def pattern_compiled_def list_all_iff
  by (simp add: any_alt_language)

definition jit_rule_grants :: "jit_trap_rule \<Rightarrow> jit_trap_context \<Rightarrow> bool" where
  "jit_rule_grants r ctx \<longleftrightarrow>
     pred_option (\<lambda>p. pattern_language p (jc_vm ctx)) (jr_vm r)
     \<and> (\<exists>process. jc_process ctx = Some process \<and> pattern_language (jr_process r) process)
     \<and> pred_option (\<lambda>p. \<exists>mdl. jc_module ctx = Some mdl \<and> pattern_language p mdl) (jr_module r)
     \<and> unat (jc_page_count ctx) \<le> unat (jr_max_pages r)
     \<and> unat (jc_requested_window_ms ctx) \<le> unat (jr_max_window_ms r)"

lemma jit_rule_matches_grants: "jit_rule_compiled r \<Longrightarrow> jit_rule_matches r ctx \<longleftrightarrow> jit_rule_grants r ctx"
  unfolding jit_rule_matches_def jit_rule_grants_def jit_rule_compiled_def
  by (auto simp: is_match_language word_le_nat_alt split: option.splits)

section \<open>Properties of the policy\<close>

text \<open>
  A temporary window is granted exactly when the request names a process and a positive number
  of pages and milliseconds, and some rule accepts it: the machine name is in the language of the
  rule's machine pattern, the process name in that of its process pattern, the module name is
  present and in that of its module pattern where the rule has one, and pages and time are within
  the rule's limits.
\<close>

theorem jit_policy_grants_exactly:
  assumes "list_all jit_rule_compiled rules"
  shows "jd_allowed (jit_evaluate (jit_trap_policy_new rules) ctx) \<longleftrightarrow>
      (\<exists>process. jc_process ctx = Some process \<and> \<not> blank process)
      \<and> jc_page_count ctx \<noteq> 0 \<and> jc_requested_window_ms ctx \<noteq> 0
      \<and> (\<exists>rule \<in> set rules. jit_rule_grants rule ctx)"
proof -
  have "list_ex (\<lambda>rule. jit_rule_matches rule ctx) rules \<longleftrightarrow> (\<exists>rule \<in> set rules. jit_rule_grants rule ctx)"
    using assms by (auto simp: list_ex_iff list_all_iff jit_rule_matches_grants)
  then show ?thesis
    by (cases "jc_process ctx") (auto simp: jit_evaluate_def jit_trap_policy_new_def)
qed

definition demo_jit_rule :: jit_trap_rule where
  "demo_jit_rule = \<lparr>jr_vm = None,
     jr_process = \<lparr>pat_raw = ''^node'', pat_alts =
       [\<lparr>alt_anchor_start = True, alt_anchor_end = False, alt_parts = [''node'']\<rparr>]\<rparr>,
     jr_module = None, jr_max_pages = 4, jr_max_window_ms = 50\<rparr>"

definition demo_jit_context :: "u64 \<Rightarrow> jit_trap_context" where
  "demo_jit_context pages = \<lparr>jc_vm = ''vm'', jc_process = Some ''nodejs'', jc_module = None, jc_symbol = None,
     jc_page_count = pages, jc_requested_window_ms = 10\<rparr>"

lemma demo_jit_rule_new: "jit_trap_rule_new None ''^node'' None 4 50 = Inr demo_jit_rule"
  by code_simp

theorem jit_policy_grants_exactly_witness:
  "jd_allowed (jit_evaluate (jit_trap_policy_new [demo_jit_rule]) (demo_jit_context 3))
   \<and> \<not> jd_allowed (jit_evaluate (jit_trap_policy_new [demo_jit_rule]) (demo_jit_context 5))
   \<and> jit_rule_grants demo_jit_rule (demo_jit_context 3)"
proof -
  have c: "list_all jit_rule_compiled [demo_jit_rule]"
    using jit_trap_rule_new_compiled [OF demo_jit_rule_new] by simp
  have "jd_allowed (jit_evaluate (jit_trap_policy_new [demo_jit_rule]) (demo_jit_context 3))"
    "\<not> jd_allowed (jit_evaluate (jit_trap_policy_new [demo_jit_rule]) (demo_jit_context 5))"
    by code_simp+
  then show ?thesis
    using jit_policy_grants_exactly [OF c, of "demo_jit_context 3"] by simp
qed

end
