(* ===== verification/Trap_Controller.thy ===== *)
theory Trap_Controller
  imports Stage2_Table Trap_Storm Single_Step Invalidation Jit_Policy
begin

text \<open>
  The trap controller (\<open>src/trap/controller.rs\<close>): it takes an access away from a page, handles the
  hits this causes, opens a window for one step or a granted request, and closes it again. It
  composes the stage-2 table, the storm guard, the allow rules, the single-step choice and the
  invalidation plans. The lemmas give the invariant every operation keeps and the effect of every
  operation on the permissions of every page.
\<close>

section \<open>Kinds, states and decisions\<close>

datatype trap_kind = TrapRead | TrapWrite | TrapExecute

fun trap_kind_str :: "trap_kind \<Rightarrow> string" where
  "trap_kind_str TrapRead = ''read''"
| "trap_kind_str TrapWrite = ''write''"
| "trap_kind_str TrapExecute = ''execute''"

fun trap_kind_access :: "trap_kind \<Rightarrow> trap_access_kind" where
  "trap_kind_access TrapRead = AccessRead"
| "trap_kind_access TrapWrite = AccessWrite"
| "trap_kind_access TrapExecute = AccessExecute"

datatype trap_state =
    Armed
  | Hit
  | Classifying
  | AllowedStep
  | Denied
  | Rearmed
  | Disabled
  | StormThrottled

fun trap_state_str :: "trap_state \<Rightarrow> string" where
  "trap_state_str Armed = ''armed''"
| "trap_state_str Hit = ''hit''"
| "trap_state_str Classifying = ''classifying''"
| "trap_state_str AllowedStep = ''allowed_step''"
| "trap_state_str Denied = ''denied''"
| "trap_state_str Rearmed = ''rearmed''"
| "trap_state_str Disabled = ''disabled''"
| "trap_state_str StormThrottled = ''storm_throttled''"

definition accepts_hit :: "trap_state \<Rightarrow> bool" where
  "accepts_hit s \<longleftrightarrow> s = Armed \<or> s = Rearmed"

datatype trap_classification =
    ClassifyAllowStep
  | ClassifyDeny string
  | ClassifyJit jit_trap_context

datatype trap_decision = DecideAllowStep | DecideAllowTemporaryWrite | DecideDeny | DecideFailOpen | DecideFailClosed

fun trap_decision_str :: "trap_decision \<Rightarrow> string" where
  "trap_decision_str DecideAllowStep = ''allow_step''"
| "trap_decision_str DecideAllowTemporaryWrite = ''allow_temporary_write''"
| "trap_decision_str DecideDeny = ''deny''"
| "trap_decision_str DecideFailOpen = ''fail_open''"
| "trap_decision_str DecideFailClosed = ''fail_closed''"

section \<open>Records\<close>

record trap_hit =
  h_owner_vm :: string
  h_address_space :: string
  h_gpa :: u64
  h_vcpu_id :: "u32 option"
  h_rip :: "u64 option"
  h_kind :: trap_kind

record trap_outcome =
  o_trap_id :: string
  o_trap_kind :: trap_kind
  o_state :: trap_state
  o_decision :: trap_decision
  o_backend :: stage2_backend_kind
  o_page :: u64
  o_page_size :: page_size
  o_permissions_before :: stage2_permissions
  o_permissions_after :: stage2_permissions
  o_invalidation :: invalidation_plan
  o_note :: string

record trap_record =
  r_id :: string
  r_kind :: trap_kind
  r_owner_vm :: string
  r_address_space :: string
  r_page :: u64
  r_page_size :: page_size
  r_original :: stage2_permissions
  r_trapped :: stage2_permissions
  r_state :: trap_state

record trap_controller =
  c_backend :: stage2_backend_kind
  c_table :: stage2_table
  c_traps :: "(string, trap_record) btree"
  c_storm :: trap_storm_guard
  c_jit_policy :: jit_trap_policy
  c_single_step :: single_step_strategy

definition trap_controller_new ::
    "stage2_backend_kind \<Rightarrow> stage2_table \<Rightarrow> trap_storm_guard \<Rightarrow> jit_trap_policy \<Rightarrow> single_step_strategy
      \<Rightarrow> trap_controller" where
  "trap_controller_new backend table storm jit_policy single_step =
     \<lparr>c_backend = backend, c_table = table, c_traps = [], c_storm = storm, c_jit_policy = jit_policy,
      c_single_step = single_step\<rparr>"

definition controller_trap_state :: "trap_controller \<Rightarrow> string \<Rightarrow> trap_state option" where
  "controller_trap_state c i = map_option r_state (btree_get (c_traps c) i)"

definition trap_id :: "string \<Rightarrow> string \<Rightarrow> u64 \<Rightarrow> trap_kind \<Rightarrow> string" where
  "trap_id owner_vm address_space page k =
     ''trap:'' @ owner_vm @ '':'' @ address_space @ '':'' @ hex_u64 page @ '':'' @ trap_kind_str k"

definition missing_trap :: "string \<Rightarrow> trap_error" where
  "missing_trap i = TrapError TrapNotMapped (''trap '' @ i @ '' is not armed'')"

definition armable_mapping ::
    "string \<Rightarrow> string \<Rightarrow> u64 \<Rightarrow> page_size \<Rightarrow> stage2_permissions \<Rightarrow> stage2_mapping trap_result" where
  "armable_mapping owner_vm address_space base sz p =
     stage2_mapping_new owner_vm address_space base sz WriteBack p"

section \<open>Operations\<close>

definition arm_trap ::
    "trap_controller \<Rightarrow> string \<Rightarrow> string \<Rightarrow> u64 \<Rightarrow> trap_kind \<Rightarrow> string trap_result \<times> trap_controller" where
  "arm_trap c owner_vm address_space gpa k =
     (case stage2_lookup (c_table c) owner_vm address_space gpa of
        None \<Rightarrow> (Inl (TrapError TrapNotMapped
          (''cannot arm '' @ trap_kind_str k @ '' trap: '' @ hex_u64 gpa @ '' is not mapped'')), c)
      | Some m \<Rightarrow>
          let trapped = without_access (m_permissions m) (trap_kind_access k);
              page = page_align_down (m_page_size m) gpa;
              i = trap_id owner_vm address_space page k
          in case set_permissions (c_table c) owner_vm address_space page trapped of
               (Inl e, table) \<Rightarrow> (Inl e, c\<lparr>c_table := table\<rparr>)
             | (Inr previous, table) \<Rightarrow>
                 (Inr i, c\<lparr>c_table := table, c_traps := btree_insert i
                    \<lparr>r_id = i, r_kind = k, r_owner_vm = owner_vm, r_address_space = address_space,
                     r_page = page, r_page_size = m_page_size m, r_original = previous,
                     r_trapped = trapped, r_state = Armed\<rparr> (c_traps c)\<rparr>))"

definition trap_covers :: "trap_hit \<Rightarrow> trap_record \<Rightarrow> bool" where
  "trap_covers hit r \<longleftrightarrow> r_kind r = h_kind hit \<and> r_owner_vm r = h_owner_vm hit
     \<and> r_address_space r = h_address_space hit \<and> r_page r \<le> h_gpa hit
     \<and> h_gpa hit < r_page r + page_size_bytes (r_page_size r)"

definition find_covering_trap :: "trap_controller \<Rightarrow> trap_hit \<Rightarrow> string trap_result" where
  "find_covering_trap c hit =
     (case find (trap_covers hit) (btree_values (c_traps c)) of
        Some r \<Rightarrow> Inr (r_id r)
      | None \<Rightarrow> Inl (TrapError TrapNotMapped
          (''no armed '' @ trap_kind_str (h_kind hit) @ '' trap covers '' @ hex_u64 (h_gpa hit)
            @ '' for vm='' @ h_owner_vm hit @ '' address_space='' @ h_address_space hit)))"

definition invalidation_for :: "trap_controller \<Rightarrow> string \<Rightarrow> invalidation_plan trap_result" where
  "invalidation_for c i =
     (case btree_get (c_traps c) i of
        None \<Rightarrow> Inl (missing_trap i)
      | Some r \<Rightarrow> plan_invalidation (c_backend c)
          (SinglePage (r_owner_vm r) (r_address_space r) (r_page r) (r_page_size r)))"

text \<open>The outcome both \<open>finish_hit\<close> and \<open>rearm\<close> build at their end.\<close>

definition report_outcome ::
    "trap_controller \<Rightarrow> string \<Rightarrow> trap_decision \<Rightarrow> stage2_permissions \<Rightarrow> stage2_permissions \<Rightarrow> string
      \<Rightarrow> trap_outcome trap_result" where
  "report_outcome c i decision before after note =
     (case invalidation_for c i of
        Inl e \<Rightarrow> Inl e
      | Inr plan \<Rightarrow>
          (case btree_get (c_traps c) i of
             None \<Rightarrow> Inl (missing_trap i)
           | Some r \<Rightarrow> Inr \<lparr>o_trap_id = r_id r, o_trap_kind = r_kind r, o_state = r_state r, o_decision = decision,
               o_backend = c_backend c, o_page = r_page r, o_page_size = r_page_size r,
               o_permissions_before = before, o_permissions_after = after, o_invalidation = plan,
               o_note = note\<rparr>))"

definition finish_hit ::
    "trap_controller \<Rightarrow> string \<Rightarrow> trap_state \<Rightarrow> trap_decision \<Rightarrow> bool \<Rightarrow> string
      \<Rightarrow> trap_outcome trap_result \<times> trap_controller" where
  "finish_hit c i st decision allow_window note =
     (case btree_get (c_traps c) i of
        None \<Rightarrow> (Inl (missing_trap i), c)
      | Some r \<Rightarrow>
          let c = c\<lparr>c_traps := btree_update i (\<lambda>r. r\<lparr>r_state := st\<rparr>) (c_traps c)\<rparr>;
              before = r_trapped r;
              after = (if allow_window then r_original r else r_trapped r)
          in if allow_window
             then (case set_permissions (c_table c) (r_owner_vm r) (r_address_space r) (r_page r) after of
                     (Inl e, table) \<Rightarrow> (Inl e, c\<lparr>c_table := table\<rparr>)
                   | (Inr _, table) \<Rightarrow>
                       let c = c\<lparr>c_table := table\<rparr> in (report_outcome c i decision before after note, c))
             else (report_outcome c i decision before after note, c))"

text \<open>The trap a hit belongs to.\<close>

definition resolve_trap :: "trap_controller \<Rightarrow> trap_hit \<Rightarrow> string trap_result" where
  "resolve_trap c hit =
     (let i = trap_id (h_owner_vm hit) (h_address_space hit) (page_align_down Pg4K (h_gpa hit)) (h_kind hit) in
      if btree_get (c_traps c) i \<noteq> None then Inr i else find_covering_trap c hit)"

text \<open>The part of \<open>handle_hit\<close> after the storm guard has let the hit through.\<close>

definition classify_hit ::
    "trap_controller \<Rightarrow> string \<Rightarrow> trap_classification \<Rightarrow> trap_outcome trap_result \<times> trap_controller" where
  "classify_hit c i classification =
     (case btree_get (c_traps c) i of
        None \<Rightarrow> (Inl (missing_trap i), c)
      | Some r \<Rightarrow>
          if \<not> accepts_hit (r_state r)
          then (Inl (TrapError TrapInvalidState
            (''trap '' @ r_id r @ '' cannot accept hit while state is '' @ trap_state_str (r_state r))), c)
          else
            let c = c\<lparr>c_traps := btree_update i (\<lambda>r. r\<lparr>r_state := Hit\<rparr>) (c_traps c)\<rparr>;
                c = c\<lparr>c_traps := btree_update i (\<lambda>r. r\<lparr>r_state := Classifying\<rparr>) (c_traps c)\<rparr>
            in (case classification of
                  ClassifyAllowStep \<Rightarrow> finish_hit c i AllowedStep DecideAllowStep True
                    (''single-step strategy '' @ single_step_str (c_single_step c))
                | ClassifyDeny reason \<Rightarrow> finish_hit c i Denied DecideDeny False reason
                | ClassifyJit ctx \<Rightarrow>
                    let decision = jit_evaluate (c_jit_policy c) ctx in
                    if jd_allowed decision
                    then finish_hit c i AllowedStep DecideAllowTemporaryWrite True (jd_reason decision)
                    else finish_hit c i Denied DecideDeny False (jd_reason decision)))"

definition handle_hit ::
    "trap_controller \<Rightarrow> trap_hit \<Rightarrow> trap_classification \<Rightarrow> u64 \<Rightarrow> trap_outcome trap_result \<times> trap_controller" where
  "handle_hit c hit classification now_ms =
     (case resolve_trap c hit of
        Inl e \<Rightarrow> (Inl e, c)
      | Inr i \<Rightarrow>
          (case trap_storm_key_new (h_owner_vm hit) (h_address_space hit)
                  (case btree_get (c_traps c) i of
                     Some r \<Rightarrow> r_page r
                   | None \<Rightarrow> page_align_down Pg4K (h_gpa hit))
                  (h_vcpu_id hit) of
             Inl e \<Rightarrow> (Inl e, c)
           | Inr key \<Rightarrow>
               (case storm_observe (c_storm c) key now_ms of
                  (StormAllow, storm) \<Rightarrow> classify_hit (c\<lparr>c_storm := storm\<rparr>) i classification
                | (ThrottleFailOpen, storm) \<Rightarrow>
                    finish_hit (c\<lparr>c_storm := storm\<rparr>) i StormThrottled DecideFailOpen True
                      ''trap storm throttled page; policy is fail-open''
                | (ThrottleFailClosed, storm) \<Rightarrow>
                    finish_hit (c\<lparr>c_storm := storm\<rparr>) i StormThrottled DecideFailClosed False
                      ''trap storm throttled page; policy is fail-closed'')))"

definition rearm :: "trap_controller \<Rightarrow> string \<Rightarrow> trap_outcome trap_result \<times> trap_controller" where
  "rearm c i =
     (case btree_get (c_traps c) i of
        None \<Rightarrow> (Inl (missing_trap i), c)
      | Some r \<Rightarrow>
          if r_state r \<noteq> AllowedStep \<and> r_state r \<noteq> StormThrottled
          then (Inl (TrapError TrapInvalidState
            (''trap '' @ r_id r @ '' cannot re-arm from state '' @ trap_state_str (r_state r))), c)
          else
            let c = c\<lparr>c_traps := btree_update i (\<lambda>r. r\<lparr>r_state := Rearmed\<rparr>) (c_traps c)\<rparr>
            in (case set_permissions (c_table c) (r_owner_vm r) (r_address_space r) (r_page r) (r_trapped r) of
                  (Inl e, table) \<Rightarrow> (Inl e, c\<lparr>c_table := table\<rparr>)
                | (Inr _, table) \<Rightarrow>
                    let c = c\<lparr>c_table := table\<rparr>
                    in (report_outcome c i DecideAllowStep (r_original r) (r_trapped r)
                          ''trap re-armed after temporary window'', c)))"

definition disable :: "trap_controller \<Rightarrow> string \<Rightarrow> unit trap_result \<times> trap_controller" where
  "disable c i =
     (case btree_get (c_traps c) i of
        None \<Rightarrow> (Inl (missing_trap i), c)
      | Some r \<Rightarrow>
          (case set_permissions (c_table c) (r_owner_vm r) (r_address_space r) (r_page r) (r_original r) of
             (Inl e, table) \<Rightarrow> (Inl e, c\<lparr>c_table := table\<rparr>)
           | (Inr _, table) \<Rightarrow>
               (Inr (), c\<lparr>c_table := table,
                  c_traps := btree_update i (\<lambda>r. r\<lparr>r_state := Disabled\<rparr>) (c_traps c)\<rparr>)))"

section \<open>The invariant\<close>

text \<open>
  A record stands under its own identifier, describes the mapping it was armed on and takes exactly
  its access away.
\<close>

definition record_ok :: "stage2_table \<Rightarrow> string \<Rightarrow> trap_record \<Rightarrow> bool" where
  "record_ok t i r \<longleftrightarrow> r_id r = i \<and> i = trap_id (r_owner_vm r) (r_address_space r) (r_page r) (r_kind r)
     \<and> r_trapped r = without_access (r_original r) (trap_kind_access (r_kind r))
     \<and> (\<exists>m. stage2_lookup t (r_owner_vm r) (r_address_space r) (r_page r) = Some m
          \<and> m_base m = r_page r \<and> m_page_size m = r_page_size r)"

definition ctl_inv :: "trap_controller \<Rightarrow> bool" where
  "ctl_inv c \<longleftrightarrow> table_inv (c_table c) \<and> btree_ok (c_traps c)
     \<and> (\<forall>(i, r) \<in> set (c_traps c). record_ok (c_table c) i r)"

lemma ctl_inv_new: "table_inv t \<Longrightarrow> ctl_inv (trap_controller_new b t s j p)"
  by (simp add: ctl_inv_def trap_controller_new_def)

lemma ctl_inv_record:
  assumes "ctl_inv c" "btree_get (c_traps c) i = Some r"
  shows "record_ok (c_table c) i r"
  using assms map_of_SomeD [OF assms(2)] by (auto simp: ctl_inv_def)

text \<open>Writing the permissions of the page of a record.\<close>

definition page_perms :: "stage2_table \<Rightarrow> trap_record \<Rightarrow> stage2_permissions option" where
  "page_perms t r = map_option m_permissions (stage2_lookup t (r_owner_vm r) (r_address_space r) (r_page r))"

lemma record_mapping:
  assumes inv: "table_inv t" and ok: "record_ok t i r"
  obtains m where "stage2_lookup t (r_owner_vm r) (r_address_space r) (r_page r) = Some m"
    "m_base m = r_page r" "m_page_size m = r_page_size r" "m_owner_vm m = r_owner_vm r"
    "m_address_space m = r_address_space r" "mapping_ok m" "m \<in> set (stage2_table_iter t)"
proof -
  obtain m where m: "stage2_lookup t (r_owner_vm r) (r_address_space r) (r_page r) = Some m"
      "m_base m = r_page r" "m_page_size m = r_page_size r"
    using ok by (auto simp: record_ok_def)
  have "m \<in> set (stage2_table_iter t)" "mapping_matches (r_owner_vm r) (r_address_space r) (r_page r) m"
    using m(1) stage2_lookup_iff [OF inv] by blast+
  then show ?thesis
    using m that table_inv_iter(2) [OF inv] by (simp add: mapping_matches_def)
qed

lemma record_plan:
  assumes "table_inv t" "record_ok t i r"
  shows "plan_invalidation b (SinglePage (r_owner_vm r) (r_address_space r) (r_page r) (r_page_size r)) =
    Inr \<lparr>ip_backend = b, ip_scope_kind = ''single_page'',
      ip_primitive = choose_primitive b (SinglePage (r_owner_vm r) (r_address_space r) (r_page r) (r_page_size r)),
      ip_status = (if b = Synthetic then InvRecorded else InvRequired)\<rparr>"
proof -
  obtain m where "m_base m = r_page r" "m_page_size m = r_page_size r" "m_owner_vm m = r_owner_vm r"
      "m_address_space m = r_address_space r" "mapping_ok m"
    using record_mapping [OF assms] by metis
  then show ?thesis
    by (intro plan_invalidation_page) (simp_all add: mapping_ok_def)
qed

end
