(* ===== verification/Trap_Effects.thy ===== *)
theory Trap_Effects
  imports Trap_Controller
begin

text \<open>
  The effect of every operation of the trap controller, from its invariant: which record moves to
  which state, which page gets which permissions, and what stays as it was. Errors change neither
  the table nor the records.
\<close>

section \<open>Writing one page\<close>

text \<open>One page is rewritten and every other lookup is unchanged.\<close>

definition page_written :: "stage2_mapping \<Rightarrow> stage2_permissions \<Rightarrow> stage2_table \<Rightarrow> stage2_table \<Rightarrow> bool" where
  "page_written m p t t' \<longleftrightarrow> (\<forall>vm asp gpa. stage2_lookup t' vm asp gpa = map_option (reperm p m) (stage2_lookup t vm asp gpa))"

lemma write_page:
  assumes inv: "table_inv t" and ok: "record_ok t i r"
  obtains m t' where "stage2_lookup t (r_owner_vm r) (r_address_space r) (r_page r) = Some m"
    "set_permissions t (r_owner_vm r) (r_address_space r) (r_page r) p = (Inr (m_permissions m), t')"
    "table_inv t'" "page_written m p t t'"
proof -
  obtain m where m: "stage2_lookup t (r_owner_vm r) (r_address_space r) (r_page r) = Some m"
    using ok by (auto simp: record_ok_def)
  then obtain t' where "set_permissions t (r_owner_vm r) (r_address_space r) (r_page r) p = (Inr (m_permissions m), t')"
      "table_inv t'" "page_written m p t t'"
    using set_permissions_spec [OF inv, of "r_owner_vm r" "r_address_space r" "r_page r" p]
    by (auto simp: page_written_def)
  with m show ?thesis by (rule that)
qed

lemma record_ok_written: "page_written m p t t' \<Longrightarrow> record_ok t i r \<Longrightarrow> record_ok t' i r"
  by (auto simp: record_ok_def page_written_def)

lemma record_ok_state [simp]: "record_ok t i (r\<lparr>r_state := st\<rparr>) = record_ok t i r"
  by (simp add: record_ok_def)

lemma btree_update_entry:
  assumes "(k, v) \<in> set (btree_update i f m)"
  obtains v0 where "(k, v0) \<in> set m" "v = (if k = i then f v0 else v0)"
  using assms by (auto simp: btree_update_def)

lemma ctl_inv_state:
  assumes "ctl_inv c"
  shows "ctl_inv (c\<lparr>c_traps := btree_update i (\<lambda>r. r\<lparr>r_state := st\<rparr>) (c_traps c)\<rparr>)"
proof -
  have "record_ok (c_table c) k r" if "(k, r) \<in> set (btree_update i (\<lambda>r. r\<lparr>r_state := st\<rparr>) (c_traps c))" for k r
    using that assms by (auto simp: ctl_inv_def elim!: btree_update_entry)
  then show ?thesis
    using assms by (auto simp: ctl_inv_def)
qed

lemma ctl_inv_table:
  assumes "ctl_inv c" "page_written m p (c_table c) t'" "table_inv t'"
  shows "ctl_inv (c\<lparr>c_table := t'\<rparr>)"
  using assms record_ok_written by (fastforce simp: ctl_inv_def)

lemma ctl_inv_storm [simp]: "ctl_inv (c\<lparr>c_storm := s\<rparr>) = ctl_inv c"
  by (simp add: ctl_inv_def)

definition outcome_of ::
    "trap_controller \<Rightarrow> trap_record \<Rightarrow> trap_decision \<Rightarrow> stage2_permissions \<Rightarrow> stage2_permissions \<Rightarrow> string \<Rightarrow> trap_outcome" where
  "outcome_of c r d before after note =
     \<lparr>o_trap_id = r_id r, o_trap_kind = r_kind r, o_state = r_state r, o_decision = d, o_backend = c_backend c,
      o_page = r_page r, o_page_size = r_page_size r, o_permissions_before = before, o_permissions_after = after,
      o_invalidation = \<lparr>ip_backend = c_backend c, ip_scope_kind = ''single_page'',
        ip_primitive = choose_primitive (c_backend c)
          (SinglePage (r_owner_vm r) (r_address_space r) (r_page r) (r_page_size r)),
        ip_status = (if c_backend c = Synthetic then InvRecorded else InvRequired)\<rparr>,
      o_note = note\<rparr>"

lemma report_outcome_ok:
  assumes "ctl_inv c" "btree_get (c_traps c) i = Some r"
  shows "report_outcome c i d before after note = Inr (outcome_of c r d before after note)"
proof -
  have "table_inv (c_table c)"
    using assms(1) by (simp add: ctl_inv_def)
  from record_plan [OF this ctl_inv_record [OF assms], of "c_backend c"] assms(2)
  show ?thesis
    by (simp add: report_outcome_def invalidation_for_def outcome_of_def)
qed

text \<open>
  The two effects of an operation: a record is put into a state (\<open>moved\<close>), and its page, and no
  other page, gets new permissions (\<open>page_set\<close>).
\<close>

definition moved :: "trap_controller \<Rightarrow> trap_controller \<Rightarrow> string \<Rightarrow> trap_state \<Rightarrow> bool" where
  "moved c c' i st \<longleftrightarrow> c_traps c' = btree_update i (\<lambda>r. r\<lparr>r_state := st\<rparr>) (c_traps c)
     \<and> c_backend c' = c_backend c \<and> c_jit_policy c' = c_jit_policy c \<and> c_single_step c' = c_single_step c"

definition page_set :: "trap_controller \<Rightarrow> trap_controller \<Rightarrow> trap_record \<Rightarrow> stage2_permissions \<Rightarrow> bool" where
  "page_set c c' r p \<longleftrightarrow> (\<exists>m. stage2_lookup (c_table c) (r_owner_vm r) (r_address_space r) (r_page r) = Some m
     \<and> page_written m p (c_table c) (c_table c'))"

lemma moved_get:
  "moved c c' i st \<Longrightarrow> btree_get (c_traps c') k =
     (if k = i then map_option (\<lambda>r. r\<lparr>r_state := st\<rparr>) (btree_get (c_traps c) k) else btree_get (c_traps c) k)"
  by (simp add: moved_def btree_get_update)

lemma finish_hit_spec:
  assumes inv: "ctl_inv c" and r: "btree_get (c_traps c) i = Some r"
  obtains c' where "finish_hit c i st d w note =
      (Inr (outcome_of c (r\<lparr>r_state := st\<rparr>) d (r_trapped r) (if w then r_original r else r_trapped r) note), c')"
    "ctl_inv c'" "moved c c' i st" "c_storm c' = c_storm c"
    "if w then page_set c c' r (r_original r) else c_table c' = c_table c"
proof (cases w)
  case True
  let ?c = "c\<lparr>c_traps := btree_update i (\<lambda>r. r\<lparr>r_state := st\<rparr>) (c_traps c)\<rparr>"
  have tinv: "table_inv (c_table c)"
    using inv by (simp add: ctl_inv_def)
  obtain m t' where t': "stage2_lookup (c_table c) (r_owner_vm r) (r_address_space r) (r_page r) = Some m"
      "set_permissions (c_table c) (r_owner_vm r) (r_address_space r) (r_page r) (r_original r) = (Inr (m_permissions m), t')"
      "table_inv t'" "page_written m (r_original r) (c_table c) t'"
    by (rule write_page [OF tinv ctl_inv_record [OF inv r]])
  have inv': "ctl_inv (?c\<lparr>c_table := t'\<rparr>)"
    using ctl_inv_table [OF ctl_inv_state [OF inv]] t'(3,4) by simp
  have "btree_get (c_traps (?c\<lparr>c_table := t'\<rparr>)) i = Some (r\<lparr>r_state := st\<rparr>)"
    using r by (simp add: btree_get_update)
  from report_outcome_ok [OF inv' this]
  have "finish_hit c i st d w note = (Inr (outcome_of c (r\<lparr>r_state := st\<rparr>) d (r_trapped r) (r_original r) note), ?c\<lparr>c_table := t'\<rparr>)"
    using r t'(2) True by (simp add: finish_hit_def Let_def outcome_of_def)
  then show ?thesis
    using inv' t'(1,4) True by (intro that [of "?c\<lparr>c_table := t'\<rparr>"]) (auto simp: moved_def page_set_def)
next
  case False
  let ?c = "c\<lparr>c_traps := btree_update i (\<lambda>r. r\<lparr>r_state := st\<rparr>) (c_traps c)\<rparr>"
  have "btree_get (c_traps ?c) i = Some (r\<lparr>r_state := st\<rparr>)"
    using r by (simp add: btree_get_update)
  from report_outcome_ok [OF ctl_inv_state [OF inv] this]
  have "finish_hit c i st d w note = (Inr (outcome_of c (r\<lparr>r_state := st\<rparr>) d (r_trapped r) (r_trapped r) note), ?c)"
    using r False by (simp add: finish_hit_def Let_def outcome_of_def)
  then show ?thesis
    using ctl_inv_state [OF inv] False by (intro that [of ?c]) (auto simp: moved_def)
qed

section \<open>The effect of every operation\<close>

lemma resolve_trap_ok:
  assumes inv: "ctl_inv c" and res: "resolve_trap c hit = Inr i"
  obtains r where "btree_get (c_traps c) i = Some r"
proof (cases "btree_get (c_traps c) i")
  case None
  then have "find_covering_trap c hit = Inr i"
    using res by (auto simp: resolve_trap_def Let_def split: if_splits)
  then obtain r where r: "find (trap_covers hit) (btree_values (c_traps c)) = Some r" "r_id r = i"
    by (auto simp: find_covering_trap_def split: option.splits)
  then have "r \<in> set (btree_values (c_traps c))"
    unfolding find_Some_iff by (metis nth_mem)
  then obtain k where "(k, r) \<in> set (c_traps c)" by auto
  moreover from this have "k = i"
    using inv r(2) by (auto simp: ctl_inv_def record_ok_def)
  ultimately show ?thesis
    using None inv btree_get_iff [of "c_traps c" i r] by (simp add: ctl_inv_def)
qed (rule that)

lemma resolve_trap_error: "resolve_trap c hit = Inl e \<Longrightarrow> trap_error_kind e = TrapNotMapped"
  by (auto simp: resolve_trap_def find_covering_trap_def Let_def split: if_splits option.splits)

lemma btree_update_twice: "btree_update i f (btree_update i g m) = btree_update i (f \<circ> g) m"
  by (auto simp: btree_update_def)

lemma moved_trans: "moved c c' i st \<Longrightarrow> moved c' c'' i st' \<Longrightarrow> moved c c'' i st'"
  by (simp add: moved_def btree_update_twice comp_def)

definition opens_window :: "trap_decision \<Rightarrow> bool" where
  "opens_window d \<longleftrightarrow> d = DecideAllowStep \<or> d = DecideAllowTemporaryWrite \<or> d = DecideFailOpen"

text \<open>The state a decision leaves a trap in.\<close>

fun decided_state :: "trap_decision \<Rightarrow> trap_state" where
  "decided_state DecideAllowStep = AllowedStep"
| "decided_state DecideAllowTemporaryWrite = AllowedStep"
| "decided_state DecideDeny = Denied"
| "decided_state DecideFailOpen = StormThrottled"
| "decided_state DecideFailClosed = StormThrottled"

text \<open>What a handled hit did: the decision, the record it was about and the permissions it left.\<close>

definition hit_handled ::
    "trap_controller \<Rightarrow> trap_controller \<Rightarrow> string \<Rightarrow> trap_record \<Rightarrow> trap_decision \<Rightarrow> trap_outcome \<Rightarrow> bool" where
  "hit_handled c c' i r d out \<longleftrightarrow> btree_get (c_traps c) i = Some r \<and> ctl_inv c' \<and> moved c c' i (decided_state d)
     \<and> (if opens_window d then page_set c c' r (r_original r) else c_table c' = c_table c)
     \<and> (\<exists>note. out = outcome_of c (r\<lparr>r_state := decided_state d\<rparr>) d (r_trapped r)
           (if opens_window d then r_original r else r_trapped r) note)"

lemma finish_hit_handled:
  assumes inv: "ctl_inv c" and r: "btree_get (c_traps c) i = Some r" and w: "w = opens_window d" "st = decided_state d"
  obtains out c' where "finish_hit c i st d w note = (Inr out, c')" "hit_handled c c' i r d out" "c_storm c' = c_storm c"
proof -
  from finish_hit_spec [OF inv r] obtain c' where c': "finish_hit c i st d w note =
      (Inr (outcome_of c (r\<lparr>r_state := st\<rparr>) d (r_trapped r) (if w then r_original r else r_trapped r) note), c')"
    "ctl_inv c'" "moved c c' i st" "c_storm c' = c_storm c"
    "if w then page_set c c' r (r_original r) else c_table c' = c_table c" .
  show ?thesis
    using c' r w by (intro that [OF c'(1)]) (auto simp: hit_handled_def)
qed

lemma hit_handled_after_state:
  assumes h: "hit_handled c1 c' i (r\<lparr>r_state := s\<rparr>) d out" and m: "moved c c1 i s" "c_table c1 = c_table c"
    and r: "btree_get (c_traps c) i = Some r"
  shows "hit_handled c c' i r d out"
proof -
  have "outcome_of c1 (r\<lparr>r_state := s, r_state := s'\<rparr>) d b a n = outcome_of c (r\<lparr>r_state := s'\<rparr>) d b a n" for s' b a n
    using m(1) by (simp add: outcome_of_def moved_def)
  then show ?thesis
    using h m r moved_trans [OF m(1)] by (auto simp: hit_handled_def page_set_def)
qed

text \<open>Which hits and classifications a decision can come from.\<close>

fun decision_grounds :: "trap_controller \<Rightarrow> trap_record \<Rightarrow> trap_classification \<Rightarrow> trap_decision \<Rightarrow> bool" where
  "decision_grounds c r cl DecideAllowStep \<longleftrightarrow> accepts_hit (r_state r) \<and> cl = ClassifyAllowStep"
| "decision_grounds c r cl DecideAllowTemporaryWrite \<longleftrightarrow> accepts_hit (r_state r)
     \<and> (\<exists>ctx. cl = ClassifyJit ctx \<and> jd_allowed (jit_evaluate (c_jit_policy c) ctx))"
| "decision_grounds c r cl DecideDeny \<longleftrightarrow> accepts_hit (r_state r)
     \<and> (\<exists>ctx. cl = ClassifyJit ctx \<and> \<not> jd_allowed (jit_evaluate (c_jit_policy c) ctx) \<or> (\<exists>reason. cl = ClassifyDeny reason))"
| "decision_grounds c r cl DecideFailOpen \<longleftrightarrow> tg_mode (c_storm c) = StormFailOpen"
| "decision_grounds c r cl DecideFailClosed \<longleftrightarrow> tg_mode (c_storm c) = StormFailClosed"

lemma classify_hit_spec:
  assumes inv: "ctl_inv c" and r: "btree_get (c_traps c) i = Some r"
  shows "case classify_hit c i cl of
      (Inl e, c') \<Rightarrow> c' = c \<and> trap_error_kind e = TrapInvalidState \<and> \<not> accepts_hit (r_state r)
    | (Inr out, c') \<Rightarrow> \<exists>d. hit_handled c c' i r d out \<and> decision_grounds c r cl d
        \<and> d \<noteq> DecideFailOpen \<and> d \<noteq> DecideFailClosed"
proof (cases "accepts_hit (r_state r)")
  case False
  then show ?thesis using r by (simp add: classify_hit_def)
next
  case True
  let ?c0 = "c\<lparr>c_traps := btree_update i (\<lambda>r. r\<lparr>r_state := Hit\<rparr>) (c_traps c)\<rparr>"
  let ?c1 = "?c0\<lparr>c_traps := btree_update i (\<lambda>r. r\<lparr>r_state := Classifying\<rparr>) (c_traps ?c0)\<rparr>"
  have inv1: "ctl_inv ?c1"
    by (intro ctl_inv_state) (rule inv)
  have r1: "btree_get (c_traps ?c1) i = Some (r\<lparr>r_state := Classifying\<rparr>)"
    using r by (simp add: btree_get_update)
  have m1: "moved c ?c1 i Classifying" "c_table ?c1 = c_table c" "c_jit_policy ?c1 = c_jit_policy c"
    by (simp_all add: moved_def btree_update_twice comp_def)
  have fin: "\<exists>out c'. finish_hit ?c1 i (decided_state d) d (opens_window d) nt = (Inr out, c') \<and> hit_handled c c' i r d out"
    for d nt
    by (rule finish_hit_handled [OF inv1 r1 refl refl, of d nt]) (use hit_handled_after_state [OF _ m1(1,2) r] in blast)
  have "\<exists>d nt. classify_hit c i cl = finish_hit ?c1 i (decided_state d) d (opens_window d) nt \<and> decision_grounds c r cl d
      \<and> d \<noteq> DecideFailOpen \<and> d \<noteq> DecideFailClosed"
  proof (cases cl)
    case ClassifyAllowStep
    then show ?thesis
      using True r by (intro exI [of _ DecideAllowStep]) (simp add: classify_hit_def Let_def opens_window_def, blast)
  next
    case (ClassifyDeny reason)
    then show ?thesis
      using True r by (intro exI [of _ DecideDeny]) (simp add: classify_hit_def Let_def opens_window_def, blast)
  next
    case (ClassifyJit ctx)
    then show ?thesis
      using True r
      by (intro exI [of _ "if jd_allowed (jit_evaluate (c_jit_policy c) ctx) then DecideAllowTemporaryWrite else DecideDeny"])
        (simp add: classify_hit_def Let_def opens_window_def, blast)
  qed
  then obtain d nt where cl: "classify_hit c i cl = finish_hit ?c1 i (decided_state d) d (opens_window d) nt"
      "decision_grounds c r cl d" "d \<noteq> DecideFailOpen" "d \<noteq> DecideFailClosed" by blast
  obtain out c' where "finish_hit ?c1 i (decided_state d) d (opens_window d) nt = (Inr out, c')" "hit_handled c c' i r d out"
    using fin [of d nt] by blast
  then show ?thesis
    unfolding cl(1) using cl(2-4) by auto
qed

lemma hit_handled_storm [simp]: "hit_handled (c\<lparr>c_storm := s\<rparr>) c' i r d out = hit_handled c c' i r d out"
  by (simp add: hit_handled_def moved_def page_set_def outcome_of_def)

lemma storm_observe_mode:
  "fst (storm_observe g key now) = ThrottleFailOpen \<Longrightarrow> tg_mode g = StormFailOpen"
  "fst (storm_observe g key now) = ThrottleFailClosed \<Longrightarrow> tg_mode g = StormFailClosed"
  by (cases "tg_mode g"; auto simp: storm_observe_def Let_def split: if_splits)+

lemma handle_hit_spec:
  assumes inv: "ctl_inv c"
  shows "case handle_hit c hit cl now of
      (Inl e, c') \<Rightarrow> ctl_inv c' \<and> c_table c' = c_table c \<and> c_traps c' = c_traps c
        \<and> trap_error_kind e \<in> {TrapNotMapped, TrapMalformedInput, TrapInvalidState}
    | (Inr out, c') \<Rightarrow> \<exists>i r d. hit_handled c c' i r d out \<and> decision_grounds c r cl d"
proof (cases "resolve_trap c hit")
  case (Inl e)
  then show ?thesis
    using inv resolve_trap_error [OF Inl] by (simp add: handle_hit_def)
next
  case (Inr i)
  obtain r where r: "btree_get (c_traps c) i = Some r"
    by (rule resolve_trap_ok [OF inv Inr])
  show ?thesis
  proof (cases "trap_storm_key_new (h_owner_vm hit) (h_address_space hit) (r_page r) (h_vcpu_id hit)")
    case (Inl e)
    then have "trap_error_kind e = TrapMalformedInput"
      by (auto simp: trap_storm_key_new_def split: if_splits)
    then show ?thesis
      using Inl Inr r inv by (simp add: handle_hit_def)
  next
    case key: (Inr key)
    obtain sd storm where sd: "storm_observe (c_storm c) key now = (sd, storm)" by (rule prod.exhaust)
    have r': "btree_get (c_traps (c\<lparr>c_storm := storm\<rparr>)) i = Some r" and inv': "ctl_inv (c\<lparr>c_storm := storm\<rparr>)"
      using r inv by simp_all
    show ?thesis
    proof (cases sd)
      case StormAllow
      have "tg_mode storm = tg_mode (c_storm c)"
        using storm_observe_frame(3) [of "c_storm c" key now] sd by simp
      then have grounds: "decision_grounds (c\<lparr>c_storm := storm\<rparr>) r cl d = decision_grounds c r cl d" for d
        by (cases d) simp_all
      have "handle_hit c hit cl now = classify_hit (c\<lparr>c_storm := storm\<rparr>) i cl"
        using Inr key r sd StormAllow by (simp add: handle_hit_def)
      then show ?thesis
        using classify_hit_spec [OF inv' r', of cl] inv' grounds by (auto split: sum.splits prod.splits) blast
    next
      case ThrottleFailOpen
      then have "handle_hit c hit cl now = finish_hit (c\<lparr>c_storm := storm\<rparr>) i StormThrottled DecideFailOpen True
          ''trap storm throttled page; policy is fail-open''"
        using Inr key r sd by (simp add: handle_hit_def)
      moreover have "tg_mode (c_storm c) = StormFailOpen"
        using storm_observe_mode(1) [of "c_storm c" key now] sd ThrottleFailOpen by simp
      moreover obtain out c' where "finish_hit (c\<lparr>c_storm := storm\<rparr>) i StormThrottled DecideFailOpen True
          ''trap storm throttled page; policy is fail-open'' = (Inr out, c')"
          "hit_handled (c\<lparr>c_storm := storm\<rparr>) c' i r DecideFailOpen out"
        by (rule finish_hit_handled [OF inv' r', of True DecideFailOpen StormThrottled]) (simp_all add: opens_window_def)
      ultimately show ?thesis
        by (simp, metis decision_grounds.simps)
    next
      case ThrottleFailClosed
      then have "handle_hit c hit cl now = finish_hit (c\<lparr>c_storm := storm\<rparr>) i StormThrottled DecideFailClosed False
          ''trap storm throttled page; policy is fail-closed''"
        using Inr key r sd by (simp add: handle_hit_def)
      moreover have "tg_mode (c_storm c) = StormFailClosed"
        using storm_observe_mode(2) [of "c_storm c" key now] sd ThrottleFailClosed by simp
      moreover obtain out c' where "finish_hit (c\<lparr>c_storm := storm\<rparr>) i StormThrottled DecideFailClosed False
          ''trap storm throttled page; policy is fail-closed'' = (Inr out, c')"
          "hit_handled (c\<lparr>c_storm := storm\<rparr>) c' i r DecideFailClosed out"
        by (rule finish_hit_handled [OF inv' r', of False DecideFailClosed StormThrottled]) (simp_all add: opens_window_def)
      ultimately show ?thesis
        by (simp, metis decision_grounds.simps)
    qed
  qed
qed

lemma rearm_spec:
  assumes inv: "ctl_inv c"
  shows "case rearm c i of
      (Inl e, c') \<Rightarrow> c' = c \<and> (case btree_get (c_traps c) i of
          None \<Rightarrow> trap_error_kind e = TrapNotMapped
        | Some r \<Rightarrow> trap_error_kind e = TrapInvalidState \<and> r_state r \<noteq> AllowedStep \<and> r_state r \<noteq> StormThrottled)
    | (Inr out, c') \<Rightarrow> \<exists>r. btree_get (c_traps c) i = Some r \<and> (r_state r = AllowedStep \<or> r_state r = StormThrottled)
        \<and> ctl_inv c' \<and> moved c c' i Rearmed \<and> page_set c c' r (r_trapped r) \<and> c_storm c' = c_storm c
        \<and> out = outcome_of c (r\<lparr>r_state := Rearmed\<rparr>) DecideAllowStep (r_original r) (r_trapped r)
            ''trap re-armed after temporary window''"
proof (cases "btree_get (c_traps c) i")
  case None
  then show ?thesis by (simp add: rearm_def missing_trap_def)
next
  case (Some r)
  show ?thesis
  proof (cases "r_state r = AllowedStep \<or> r_state r = StormThrottled")
    case False
    then show ?thesis using Some by (simp add: rearm_def)
  next
    case True
    let ?c = "c\<lparr>c_traps := btree_update i (\<lambda>r. r\<lparr>r_state := Rearmed\<rparr>) (c_traps c)\<rparr>"
    have tinv: "table_inv (c_table c)"
      using inv by (simp add: ctl_inv_def)
    obtain m t' where t': "stage2_lookup (c_table c) (r_owner_vm r) (r_address_space r) (r_page r) = Some m"
        "set_permissions (c_table c) (r_owner_vm r) (r_address_space r) (r_page r) (r_trapped r) = (Inr (m_permissions m), t')"
        "table_inv t'" "page_written m (r_trapped r) (c_table c) t'"
      by (rule write_page [OF tinv ctl_inv_record [OF inv Some]])
    have inv': "ctl_inv (?c\<lparr>c_table := t'\<rparr>)"
      using ctl_inv_table [OF ctl_inv_state [OF inv]] t'(3,4) by simp
    have "btree_get (c_traps (?c\<lparr>c_table := t'\<rparr>)) i = Some (r\<lparr>r_state := Rearmed\<rparr>)"
      using Some by (simp add: btree_get_update)
    from report_outcome_ok [OF inv' this]
    have "rearm c i = (Inr (outcome_of c (r\<lparr>r_state := Rearmed\<rparr>) DecideAllowStep (r_original r) (r_trapped r)
        ''trap re-armed after temporary window''), ?c\<lparr>c_table := t'\<rparr>)"
      using Some t'(2) True by (auto simp: rearm_def Let_def outcome_of_def)
    then show ?thesis
      using Some True inv' t'(1,4) by (auto simp: moved_def page_set_def)
  qed
qed

lemma disable_spec:
  assumes inv: "ctl_inv c"
  shows "case disable c i of
      (Inl e, c') \<Rightarrow> c' = c \<and> trap_error_kind e = TrapNotMapped
    | (Inr _, c') \<Rightarrow> \<exists>r. btree_get (c_traps c) i = Some r \<and> ctl_inv c' \<and> moved c c' i Disabled
        \<and> page_set c c' r (r_original r) \<and> c_storm c' = c_storm c"
proof (cases "btree_get (c_traps c) i")
  case None
  then show ?thesis by (simp add: disable_def missing_trap_def)
next
  case (Some r)
  have tinv: "table_inv (c_table c)"
    using inv by (simp add: ctl_inv_def)
  obtain m t' where t': "stage2_lookup (c_table c) (r_owner_vm r) (r_address_space r) (r_page r) = Some m"
      "set_permissions (c_table c) (r_owner_vm r) (r_address_space r) (r_page r) (r_original r) = (Inr (m_permissions m), t')"
      "table_inv t'" "page_written m (r_original r) (c_table c) t'"
    by (rule write_page [OF tinv ctl_inv_record [OF inv Some]])
  have "ctl_inv (c\<lparr>c_table := t', c_traps := btree_update i (\<lambda>r. r\<lparr>r_state := Disabled\<rparr>) (c_traps c)\<rparr>)"
    using ctl_inv_state [OF ctl_inv_table [OF inv t'(4,3)]] by simp
  then show ?thesis
    using Some t' by (auto simp: disable_def moved_def page_set_def)
qed

definition armed_record :: "string \<Rightarrow> string \<Rightarrow> stage2_mapping \<Rightarrow> trap_kind \<Rightarrow> trap_record" where
  "armed_record vm asp m k =
     \<lparr>r_id = trap_id vm asp (m_base m) k, r_kind = k, r_owner_vm = vm, r_address_space = asp, r_page = m_base m,
      r_page_size = m_page_size m, r_original = m_permissions m,
      r_trapped = without_access (m_permissions m) (trap_kind_access k), r_state = Armed\<rparr>"

lemma lookup_base:
  assumes inv: "table_inv t" and look: "stage2_lookup t vm asp gpa = Some m"
  shows "page_align_down (m_page_size m) gpa = m_base m" "stage2_lookup t vm asp (m_base m) = Some m"
proof -
  have m: "m \<in> set (stage2_table_iter t)" "mapping_matches vm asp gpa m"
    using look stage2_lookup_iff [OF inv] by blast+
  then have "is_aligned (m_page_size m) (m_base m)" "mapping_fits m"
    using table_inv_iter(2,3) [OF inv] by (auto simp: mapping_ok_def)
  then show "page_align_down (m_page_size m) gpa = m_base m"
    using m(2) by (intro align_down_unique) (auto simp: mapping_matches_def mapping_contains_iff)
  have "mapping_matches vm asp (m_base m) m"
    using m(2) mapping_contains_base [OF \<open>mapping_fits m\<close>] by (simp add: mapping_matches_def)
  then show "stage2_lookup t vm asp (m_base m) = Some m"
    using m(1) stage2_lookup_iff [OF inv] by blast
qed

lemma arm_trap_spec:
  assumes inv: "ctl_inv c"
  shows "case stage2_lookup (c_table c) vm asp gpa of
      None \<Rightarrow> (\<exists>e. arm_trap c vm asp gpa k = (Inl e, c) \<and> trap_error_kind e = TrapNotMapped)
    | Some m \<Rightarrow> (\<exists>c'. arm_trap c vm asp gpa k = (Inr (trap_id vm asp (m_base m) k), c') \<and> ctl_inv c'
        \<and> c_traps c' = btree_insert (trap_id vm asp (m_base m) k) (armed_record vm asp m k) (c_traps c)
        \<and> page_written m (without_access (m_permissions m) (trap_kind_access k)) (c_table c) (c_table c'))"
proof (cases "stage2_lookup (c_table c) vm asp gpa")
  case None
  then show ?thesis by (simp add: arm_trap_def)
next
  case (Some m)
  let ?p = "without_access (m_permissions m) (trap_kind_access k)" and ?i = "trap_id vm asp (m_base m) k"
  have tinv: "table_inv (c_table c)" and bt: "btree_ok (c_traps c)"
    using inv by (simp_all add: ctl_inv_def)
  note base = lookup_base [OF tinv Some]
  obtain t' where t': "set_permissions (c_table c) vm asp (m_base m) ?p = (Inr (m_permissions m), t')"
      "table_inv t'" "page_written m ?p (c_table c) t'"
    using set_permissions_spec [OF tinv, of vm asp "m_base m" ?p] base(2) by (auto simp: page_written_def)
  let ?c = "c\<lparr>c_table := t', c_traps := btree_insert ?i (armed_record vm asp m k) (c_traps c)\<rparr>"
  have new: "record_ok t' ?i (armed_record vm asp m k)"
    using t'(3) base(2) by (simp add: record_ok_def armed_record_def page_written_def)
  have "record_ok t' j r" if "(j, r) \<in> set (c_traps c)" for j r
    using that inv record_ok_written [OF t'(3)] by (auto simp: ctl_inv_def)
  then have "ctl_inv ?c"
    using new t'(2) bt by (auto simp: ctl_inv_def set_btree_insert [OF bt])
  then show ?thesis
    using Some t' base(1) by (auto simp: arm_trap_def Let_def armed_record_def)
qed

end
