(* ===== verification/Trap_Safety.thy ===== *)
theory Trap_Safety
  imports Trap_Effects
begin

text \<open>
  Sequences of controller operations. The step relation \<open>exclusive_run\<close> allows any operation in any
  order, except that a page that already carries a trap is not armed a second time; along it the
  state of a trap determines the permissions of its page. The last section shows what happens when
  a page carries two traps.
\<close>

section \<open>Sequences of operations\<close>

datatype ctl_op =
    OpArm string string u64 trap_kind
  | OpHit trap_hit trap_classification u64
  | OpRearm string
  | OpDisable string

definition ctl_error :: "'a trap_result \<times> trap_controller \<Rightarrow> trap_error option \<times> trap_controller" where
  "ctl_error rc = (case rc of (Inl e, c) \<Rightarrow> (Some e, c) | (Inr _, c) \<Rightarrow> (None, c))"

fun ctl_step :: "trap_controller \<Rightarrow> ctl_op \<Rightarrow> trap_error option \<times> trap_controller" where
  "ctl_step c (OpArm vm asp gpa k) = ctl_error (arm_trap c vm asp gpa k)"
| "ctl_step c (OpHit hit cl now) = ctl_error (handle_hit c hit cl now)"
| "ctl_step c (OpRearm i) = ctl_error (rearm c i)"
| "ctl_step c (OpDisable i) = ctl_error (disable c i)"

definition ctl_run :: "trap_controller \<Rightarrow> ctl_op list \<Rightarrow> trap_controller" where
  "ctl_run c ops = foldl (\<lambda>c op. snd (ctl_step c op)) c ops"

lemma ctl_error_cases:
  "ctl_error rc = (Some e, c) \<longleftrightarrow> rc = (Inl e, c)"
  "ctl_error rc = (None, c) \<longleftrightarrow> (\<exists>x. rc = (Inr x, c))"
  by (cases rc; cases "fst rc"; auto simp: ctl_error_def)+

lemma ctl_step_spec:
  assumes inv: "ctl_inv c" and st: "ctl_step c op = (err, c')"
  shows "ctl_inv c' \<and> (case err of None \<Rightarrow> True | Some e \<Rightarrow> c_table c' = c_table c \<and> c_traps c' = c_traps c
    \<and> trap_error_kind e \<in> {TrapNotMapped, TrapMalformedInput, TrapInvalidState})"
proof (cases op)
  case (OpArm vm asp gpa k)
  then show ?thesis
    using arm_trap_spec [OF inv, of vm asp gpa k] st inv
    by (cases "stage2_lookup (c_table c) vm asp gpa") (auto simp: ctl_error_def)
next
  case (OpHit hit cl now)
  then show ?thesis
    using handle_hit_spec [OF inv, where hit = hit and cl = cl and now = now] st
    by (cases err) (auto simp: ctl_error_cases hit_handled_def)
next
  case (OpRearm i)
  then show ?thesis
    using rearm_spec [OF inv, of i] st inv by (cases err) (auto simp: ctl_error_cases split: option.splits)
next
  case (OpDisable i)
  then show ?thesis
    using disable_spec [OF inv, of i] st inv by (cases err) (auto simp: ctl_error_cases)
qed

lemma ctl_run_inv: "ctl_inv c \<Longrightarrow> ctl_inv (ctl_run c ops)"
proof (induction ops arbitrary: c)
  case (Cons op ops)
  obtain err c' where "ctl_step c op = (err, c')" by (rule prod.exhaust)
  then show ?case
    using Cons ctl_step_spec [OF Cons.prems] by (simp add: ctl_run_def)
qed (simp add: ctl_run_def)

section \<open>One trap per page\<close>

definition same_page :: "trap_record \<Rightarrow> trap_record \<Rightarrow> bool" where
  "same_page r r' \<longleftrightarrow> r_owner_vm r = r_owner_vm r' \<and> r_address_space r = r_address_space r' \<and> r_page r = r_page r'"

text \<open>Arming is allowed where no record stands on the page yet; everything else always.\<close>

fun fresh_op :: "trap_controller \<Rightarrow> ctl_op \<Rightarrow> bool" where
  "fresh_op c (OpArm vm asp gpa k) =
     (case stage2_lookup (c_table c) vm asp gpa of
        None \<Rightarrow> True
      | Some m \<Rightarrow> list_all (\<lambda>r. \<not> same_page r (armed_record vm asp m k)) (btree_values (c_traps c)))"
| "fresh_op c (OpHit hit cl now) = True"
| "fresh_op c (OpRearm i) = True"
| "fresh_op c (OpDisable i) = True"

inductive exclusive_run :: "trap_controller \<Rightarrow> trap_controller \<Rightarrow> bool" where
  start: "exclusive_run c c"
| step: "exclusive_run c0 c \<Longrightarrow> fresh_op c op \<Longrightarrow> ctl_step c op = (err, c') \<Longrightarrow> exclusive_run c0 c'"

text \<open>The permissions of a page in each state of its trap.\<close>

fun state_perms :: "trap_record \<Rightarrow> trap_state \<Rightarrow> stage2_permissions \<Rightarrow> bool" where
  "state_perms r Armed p = (p = r_trapped r)"
| "state_perms r Rearmed p = (p = r_trapped r)"
| "state_perms r Denied p = (p = r_trapped r)"
| "state_perms r AllowedStep p = (p = r_original r)"
| "state_perms r Disabled p = (p = r_original r)"
| "state_perms r StormThrottled p = (p = r_trapped r \<or> p = r_original r)"
| "state_perms r Hit p = False"
| "state_perms r Classifying p = False"

definition excl_inv :: "trap_controller \<Rightarrow> bool" where
  "excl_inv c \<longleftrightarrow> ctl_inv c
     \<and> (\<forall>i r j r'. btree_get (c_traps c) i = Some r \<longrightarrow> btree_get (c_traps c) j = Some r' \<longrightarrow> same_page r r' \<longrightarrow> i = j)
     \<and> (\<forall>i r. btree_get (c_traps c) i = Some r \<longrightarrow> (\<exists>p. page_perms (c_table c) r = Some p \<and> state_perms r (r_state r) p))"

lemma state_perms_either: "state_perms r st p \<Longrightarrow> p = r_trapped r \<or> p = r_original r"
  by (cases st) auto

lemma state_perms_state [simp]: "state_perms (r\<lparr>r_state := s\<rparr>) st p = state_perms r st p"
  by (cases st) auto

lemma page_perms_state [simp]: "page_perms t (r\<lparr>r_state := st\<rparr>) = page_perms t r"
  by (simp add: page_perms_def)

lemma page_written_self:
  "stage2_lookup t (r_owner_vm r) (r_address_space r) (r_page r) = Some m \<Longrightarrow> page_written m p t t' \<Longrightarrow>
     page_perms t' r = Some p"
  by (simp add: page_perms_def page_written_def reperm_def)

lemma page_written_other:
  assumes inv: "table_inv t" and m: "stage2_lookup t vm asp x = Some m"
    and ok: "record_ok t j r'" and w: "page_written m p t t'"
    and ne: "\<not> (r_owner_vm r' = vm \<and> r_address_space r' = asp \<and> r_page r' = m_base m)"
  shows "page_perms t' r' = page_perms t r'"
proof -
  obtain m' where m': "stage2_lookup t (r_owner_vm r') (r_address_space r') (r_page r') = Some m'"
      "m_base m' = r_page r'" "m_owner_vm m' = r_owner_vm r'" "m_address_space m' = r_address_space r'"
    using record_mapping [OF inv ok] by metis
  have "m_owner_vm m = vm \<and> m_address_space m = asp"
    using m stage2_lookup_iff [OF inv, of vm asp x m] by (simp add: mapping_matches_def)
  then have "m' \<noteq> m"
    using m' ne by auto
  then show ?thesis
    using w m'(1) by (simp add: page_perms_def page_written_def reperm_def)
qed

lemma excl_move:
  assumes inv: "excl_inv c" and r: "btree_get (c_traps c) i = Some r" and mv: "moved c c' i st" and inv': "ctl_inv c'"
    and pg: "page_set c c' r p \<or> c_table c' = c_table c \<and> page_perms (c_table c) r = Some p"
    and st: "state_perms r st p"
  shows "excl_inv c'"
proof -
  have cinv: "ctl_inv c" and tinv: "table_inv (c_table c)"
    using inv by (simp_all add: excl_inv_def ctl_inv_def)
  note get = moved_get [OF mv]
  have self: "page_perms (c_table c') r = Some p"
    using pg page_written_self by (auto simp: page_set_def)
  have other: "page_perms (c_table c') r' = page_perms (c_table c) r'"
    if r': "btree_get (c_traps c) j = Some r'" and "j \<noteq> i" for j r'
  proof (cases "c_table c' = c_table c")
    case False
    then obtain m where m: "stage2_lookup (c_table c) (r_owner_vm r) (r_address_space r) (r_page r) = Some m"
        "page_written m p (c_table c) (c_table c')"
      using pg by (auto simp: page_set_def)
    have "m_base m = r_page r"
      using m(1) ctl_inv_record [OF cinv r] by (auto simp: record_ok_def)
    then have "\<not> (r_owner_vm r' = r_owner_vm r \<and> r_address_space r' = r_address_space r \<and> r_page r' = m_base m)"
      using inv r r' \<open>j \<noteq> i\<close> by (auto simp: excl_inv_def same_page_def)
    then show ?thesis
      by (rule page_written_other [OF tinv m(1) ctl_inv_record [OF cinv r'] m(2)])
  qed simp
  have "\<exists>q. page_perms (c_table c') r' = Some q \<and> state_perms r' (r_state r') q"
    if "btree_get (c_traps c') j = Some r'" for j r'
  proof (cases "j = i")
    case True
    then show ?thesis using that get self st r by auto
  next
    case False
    then show ?thesis using that get other inv by (auto simp: excl_inv_def)
  qed
  moreover have "k = j" if "btree_get (c_traps c') k = Some r1" "btree_get (c_traps c') j = Some r2" "same_page r1 r2"
    for k j r1 r2
    using that inv unfolding get excl_inv_def by (auto simp: same_page_def split: if_splits)
  ultimately show ?thesis
    using inv' unfolding excl_inv_def by blast
qed

text \<open>Every operation keeps the relation between states and permissions.\<close>

lemma excl_perms:
  "excl_inv c \<Longrightarrow> btree_get (c_traps c) i = Some r \<Longrightarrow> \<exists>p. page_perms (c_table c) r = Some p \<and> state_perms r (r_state r) p"
  by (simp add: excl_inv_def)

lemma excl_inv_ctl: "excl_inv c \<Longrightarrow> ctl_inv c"
  by (simp add: excl_inv_def)

lemma excl_hit:
  assumes inv: "excl_inv c" and h: "hit_handled c c' i r d out" and g: "decision_grounds c r cl d"
  shows "excl_inv c'"
proof -
  have r: "btree_get (c_traps c) i = Some r" and inv': "ctl_inv c'" and mv: "moved c c' i (decided_state d)"
    using h by (simp_all add: hit_handled_def)
  obtain p where p: "page_perms (c_table c) r = Some p" "state_perms r (r_state r) p"
    using excl_perms [OF inv r] by blast
  show ?thesis
  proof (cases "opens_window d")
    case True
    then have "page_set c c' r (r_original r)" "state_perms r (decided_state d) (r_original r)"
      using h by (auto simp: hit_handled_def opens_window_def)
    then show ?thesis
      using excl_move [OF inv r mv inv'] by blast
  next
    case False
    then have "c_table c' = c_table c"
      using h by (simp add: hit_handled_def)
    moreover have "state_perms r (decided_state d) p"
      using False g p(2) state_perms_either [OF p(2)]
      by (cases d) (auto simp: opens_window_def accepts_hit_def)
    ultimately show ?thesis
      using excl_move [OF inv r mv inv'] p(1) by blast
  qed
qed

lemma excl_storm: "c_table c' = c_table c \<Longrightarrow> c_traps c' = c_traps c \<Longrightarrow> excl_inv c \<Longrightarrow> excl_inv c'"
  by (simp add: excl_inv_def ctl_inv_def)

lemma excl_arm:
  assumes inv: "excl_inv c" and fresh: "fresh_op c (OpArm vm asp gpa k)"
    and m: "stage2_lookup (c_table c) vm asp gpa = Some m" and inv': "ctl_inv c'"
    and tr: "c_traps c' = btree_insert (trap_id vm asp (m_base m) k) (armed_record vm asp m k) (c_traps c)"
    and w: "page_written m (without_access (m_permissions m) (trap_kind_access k)) (c_table c) (c_table c')"
  shows "excl_inv c'"
proof -
  let ?i = "trap_id vm asp (m_base m) k" and ?r = "armed_record vm asp m k"
  have cinv: "ctl_inv c" and tinv: "table_inv (c_table c)" and bt: "btree_ok (c_traps c)"
    using inv by (simp_all add: excl_inv_def ctl_inv_def)
  have apart: "\<not> same_page r ?r" if "btree_get (c_traps c) j = Some r" for j r
    using that fresh m map_of_SomeD [OF that] by (force simp: list_all_iff)
  have self: "page_perms (c_table c') ?r = Some (r_trapped ?r)"
    using page_written_self [of "c_table c" ?r m _ "c_table c'"] w lookup_base(2) [OF tinv m]
    by (simp add: armed_record_def)
  have other: "page_perms (c_table c') r = page_perms (c_table c) r" if "btree_get (c_traps c) j = Some r" for j r
    by (rule page_written_other [OF tinv m ctl_inv_record [OF cinv that] w])
      (use apart [OF that] in \<open>simp add: same_page_def armed_record_def\<close>)
  have "\<exists>q. page_perms (c_table c') r = Some q \<and> state_perms r (r_state r) q" if "btree_get (c_traps c') j = Some r" for j r
  proof (cases "j = ?i")
    case True
    then have "r = ?r" using that tr by simp
    moreover have "r_state ?r = Armed" by (simp add: armed_record_def)
    ultimately show ?thesis using self by simp
  next
    case False
    then show ?thesis using that tr other excl_perms [OF inv, of j r] by simp
  qed
  moreover have "j = j'" if "btree_get (c_traps c') j = Some r1" "btree_get (c_traps c') j' = Some r2" "same_page r1 r2"
    for j j' r1 r2
  proof -
    have "same_page r2 r1" using that(3) by (simp add: same_page_def)
    then show ?thesis
      using that tr apart inv by (cases "j = ?i"; cases "j' = ?i") (auto simp: excl_inv_def)
  qed
  ultimately show ?thesis
    using inv' unfolding excl_inv_def by blast
qed

lemma excl_step:
  assumes inv: "excl_inv c" and fresh: "fresh_op c op" and st: "ctl_step c op = (err, c')"
  shows "excl_inv c'"
proof (cases err)
  case (Some e)
  then show ?thesis
    using ctl_step_spec [OF excl_inv_ctl [OF inv] st] excl_storm [OF _ _ inv] by simp
next
  case None
  note cinv = excl_inv_ctl [OF inv]
  show ?thesis
  proof (cases op)
    case (OpArm vm asp gpa k)
    then obtain i where ok: "arm_trap c vm asp gpa k = (Inr i, c')"
      using st None by (auto simp: ctl_error_cases)
    obtain m where m: "stage2_lookup (c_table c) vm asp gpa = Some m"
      using ok arm_trap_spec [OF cinv, of vm asp gpa k] by (cases "stage2_lookup (c_table c) vm asp gpa") auto
    then show ?thesis
      using arm_trap_spec [OF cinv, of vm asp gpa k] ok fresh OpArm by (auto intro: excl_arm [OF inv _ m])
  next
    case (OpHit hit cl now)
    then obtain out where ok: "handle_hit c hit cl now = (Inr out, c')"
      using st None by (auto simp: ctl_error_cases)
    then obtain i r d where "hit_handled c c' i r d out" "decision_grounds c r cl d"
      using handle_hit_spec [OF cinv, where hit = hit and cl = cl and now = now] by auto
    then show ?thesis
      by (rule excl_hit [OF inv])
  next
    case (OpRearm i)
    then obtain out where ok: "rearm c i = (Inr out, c')"
      using st None by (auto simp: ctl_error_cases)
    then obtain r where "btree_get (c_traps c) i = Some r" "ctl_inv c'" "moved c c' i Rearmed" "page_set c c' r (r_trapped r)"
      using rearm_spec [OF cinv, of i] by auto
    then show ?thesis
      using excl_move [OF inv, of i r c' Rearmed "r_trapped r"] by simp
  next
    case (OpDisable i)
    then obtain u where ok: "disable c i = (Inr u, c')"
      using st None by (auto simp: ctl_error_cases)
    then obtain r where "btree_get (c_traps c) i = Some r" "ctl_inv c'" "moved c c' i Disabled" "page_set c c' r (r_original r)"
      using disable_spec [OF cinv, of i] by auto
    then show ?thesis
      using excl_move [OF inv, of i r c' Disabled "r_original r"] by simp
  qed
qed

lemma excl_inv_new: "table_inv t \<Longrightarrow> excl_inv (trap_controller_new b t s j p)"
  using ctl_inv_new [of t b s j p] by (simp add: excl_inv_def trap_controller_new_def)

lemma exclusive_run_inv: "exclusive_run c0 c \<Longrightarrow> excl_inv c0 \<Longrightarrow> excl_inv c"
  by (induction rule: exclusive_run.induct) (blast intro: excl_step)+

section \<open>Identifiers\<close>

lemma split_at_separator:
  "c \<notin> set a \<Longrightarrow> c \<notin> set a' \<Longrightarrow> a @ c # b = a' @ c # b' \<longleftrightarrow> a = a' \<and> b = b'"
proof (induction a arbitrary: a')
  case Nil
  then show ?case by (cases a') auto
next
  case (Cons x a)
  then show ?case by (cases a') auto
qed

lemma hex_no_colon: "CHR '':'' \<notin> set (hex_u64 w)"
  using set_hex_nat [of "unat w"] by (auto simp: hex_u64_def)

lemma trap_kind_str_inj: "trap_kind_str k = trap_kind_str k' \<longleftrightarrow> k = k'"
  by (cases k; cases k') auto

section \<open>Closing a window\<close>

lemma write_back:
  assumes inv: "table_inv t" and m: "m \<in> set (stage2_table_iter t)"
    and w1: "page_written m p t t1" and w2: "page_written (m\<lparr>m_permissions := p\<rparr>) (m_permissions m) t1 t2"
  shows "stage2_lookup t2 vm asp gpa = stage2_lookup t vm asp gpa"
proof (cases "stage2_lookup t vm asp gpa")
  case None
  then show ?thesis using w1 w2 by (simp add: page_written_def)
next
  case (Some m')
  have "m' \<in> set (stage2_table_iter t)"
    using Some stage2_lookup_iff [OF inv] by blast
  moreover have "mapping_key_new (m\<lparr>m_permissions := p\<rparr>) = mapping_key_new m"
    by (simp add: mapping_key_new_def)
  ultimately have "m' = m\<lparr>m_permissions := p\<rparr> \<Longrightarrow> m' = m"
    using table_inv_key [OF inv _ m] by simp
  then have "reperm (m_permissions m) (m\<lparr>m_permissions := p\<rparr>) (reperm p m m') = m'"
    by (auto simp: reperm_def)
  then show ?thesis
    using w1 w2 Some by (simp add: page_written_def)
qed

lemma window_rearm:
  assumes inv: "excl_inv c" and hit: "handle_hit c hit cl now = (Inr out, c1)" and win: "opens_window (o_decision out)"
    and st: "controller_trap_state c (o_trap_id out) = Some st" "accepts_hit st"
  shows "\<exists>out2 c2. rearm c1 (o_trap_id out) = (Inr out2, c2)
    \<and> (\<forall>vm asp gpa. stage2_lookup (c_table c2) vm asp gpa = stage2_lookup (c_table c) vm asp gpa)
    \<and> controller_trap_state c2 (o_trap_id out) = Some Rearmed"
proof -
  note cinv = excl_inv_ctl [OF inv]
  have tinv: "table_inv (c_table c)"
    using cinv by (simp add: ctl_inv_def)
  obtain i r d where h: "hit_handled c c1 i r d out" "decision_grounds c r cl d"
    using handle_hit_spec [OF cinv, where hit = hit and cl = cl and now = now] hit by auto
  have r: "btree_get (c_traps c) i = Some r" and inv1: "ctl_inv c1" and mv: "moved c c1 i (decided_state d)"
    using h(1) by (simp_all add: hit_handled_def)
  have id: "o_trap_id out = i" "o_decision out = d"
    using h(1) ctl_inv_record [OF cinv r] by (auto simp: hit_handled_def outcome_of_def record_ok_def)
  obtain m where m: "stage2_lookup (c_table c) (r_owner_vm r) (r_address_space r) (r_page r) = Some m"
      "page_written m (r_original r) (c_table c) (c_table c1)"
    using h(1) win id by (auto simp: hit_handled_def page_set_def)
  have "r_state r = st"
    using st(1) r id by (simp add: controller_trap_state_def)
  then have trapped: "m_permissions m = r_trapped r"
    using excl_perms [OF inv r] st(2) m(1) by (auto simp: page_perms_def accepts_hit_def)
  let ?r = "r\<lparr>r_state := decided_state d\<rparr>"
  have r1: "btree_get (c_traps c1) i = Some ?r"
    using r moved_get [OF mv] by simp
  have m1: "stage2_lookup (c_table c1) (r_owner_vm r) (r_address_space r) (r_page r) = Some (m\<lparr>m_permissions := r_original r\<rparr>)"
    using m by (simp add: page_written_def reperm_def)
  have can: "decided_state d = AllowedStep \<or> decided_state d = StormThrottled"
    using win id by (cases d) (auto simp: opens_window_def)
  obtain e2 c2 where re: "rearm c1 i = (e2, c2)" by (rule prod.exhaust)
  have "\<exists>out2. e2 = Inr out2"
    using re r1 can rearm_spec [OF inv1, of i] by (cases e2) auto
  then obtain out2 where out2: "rearm c1 i = (Inr out2, c2)"
    using re by blast
  then have mv2: "moved c1 c2 i Rearmed" and pg: "page_set c1 c2 ?r (r_trapped r)"
    using rearm_spec [OF inv1, of i] r1 by auto
  have w2: "page_written (m\<lparr>m_permissions := r_original r\<rparr>) (m_permissions m) (c_table c1) (c_table c2)"
    using pg m1 trapped by (simp add: page_set_def)
  have "m \<in> set (stage2_table_iter (c_table c))"
    using m(1) stage2_lookup_iff [OF tinv] by blast
  then have "\<forall>vm asp gpa. stage2_lookup (c_table c2) vm asp gpa = stage2_lookup (c_table c) vm asp gpa"
    using write_back [OF tinv _ m(2) w2] by blast
  moreover have "controller_trap_state c2 i = Some Rearmed"
    using moved_get [OF mv2] r1 by (simp add: controller_trap_state_def)
  ultimately show ?thesis
    using out2 id by blast
qed

section \<open>A demonstration controller\<close>

definition demo_ctl :: trap_controller where
  "demo_ctl = trap_controller_new Synthetic demo_stage2_table demo_storm (jit_trap_policy_new [demo_jit_rule]) SyntheticStep"

definition demo_trap :: string where
  "demo_trap = trap_id ''vm'' ''as'' 0x200000 TrapExecute"

definition demo_hit :: trap_hit where
  "demo_hit = \<lparr>h_owner_vm = ''vm'', h_address_space = ''as'', h_gpa = 0x234567, h_vcpu_id = Some 0, h_rip = None,
     h_kind = TrapExecute\<rparr>"

definition demo_armed :: trap_controller where
  "demo_armed = snd (ctl_step demo_ctl (OpArm ''vm'' ''as'' 0x234567 TrapExecute))"

definition demo_record :: trap_record where
  "demo_record = \<lparr>r_id = demo_trap, r_kind = TrapExecute, r_owner_vm = ''vm'', r_address_space = ''as'',
     r_page = 0x200000, r_page_size = Pg2M, r_original = perm_read_exec, r_trapped = perm_read, r_state = Armed\<rparr>"

lemma demo_lookup: "stage2_lookup demo_stage2_table ''vm'' ''as'' 0x234567 = Some demo_stage2_mapping"
  by (simp add: stage2_lookup_def demo_stage2_table_def demo_stage2_mapping_def mapping_matches_def mapping_contains_def
      mapping_end_def checked_add_def)

lemma demo_excl: "excl_inv demo_ctl"
  unfolding demo_ctl_def by (rule excl_inv_new [OF demo_stage2_inv])

lemma demo_step: "\<exists>c. ctl_step demo_ctl (OpArm ''vm'' ''as'' 0x234567 TrapExecute) = (None, c)
    \<and> c_traps c = [(demo_trap, demo_record)]"
proof -
  have m: "stage2_lookup (c_table demo_ctl) ''vm'' ''as'' 0x234567 = Some demo_stage2_mapping"
    by (simp add: demo_ctl_def trap_controller_new_def demo_lookup)
  have "armed_record ''vm'' ''as'' demo_stage2_mapping TrapExecute = demo_record"
    by (simp add: armed_record_def demo_record_def demo_stage2_mapping_def demo_trap_def 
        permissions_new_def)
  then show ?thesis
    using arm_trap_spec [OF excl_inv_ctl [OF demo_excl], of "''vm''" "''as''" "0x234567" TrapExecute] m
    by (auto simp: ctl_error_def demo_ctl_def trap_controller_new_def demo_trap_def demo_stage2_mapping_def)
qed

lemma demo_armed: "ctl_step demo_ctl (OpArm ''vm'' ''as'' 0x234567 TrapExecute) = (None, demo_armed)"
  "c_traps demo_armed = [(demo_trap, demo_record)]"
  using demo_step by (auto simp: demo_armed_def)

lemma demo_run: "exclusive_run demo_ctl demo_armed"
proof (rule exclusive_run.step [OF exclusive_run.start _ demo_armed(1)])
  show "fresh_op demo_ctl (OpArm ''vm'' ''as'' 0x234567 TrapExecute)"
    by (simp add: demo_ctl_def trap_controller_new_def split: option.split)
qed

lemma arm_trap_frame: "c_storm (snd (arm_trap c vm asp gpa k)) = c_storm c"
  by (simp add: arm_trap_def Let_def split: option.split prod.split sum.split)

lemma demo_armed_storm: "c_storm demo_armed = demo_storm"
  using arm_trap_frame [of demo_ctl "''vm''" "''as''" "0x234567" TrapExecute]
  by (auto simp: demo_armed_def ctl_error_def demo_ctl_def trap_controller_new_def split: prod.splits sum.splits)

lemma demo_resolve: "resolve_trap demo_armed demo_hit = Inr demo_trap"
proof -
  have "trap_id ''vm'' ''as'' (page_align_down Pg4K 0x234567) TrapExecute \<noteq> demo_trap"
    by (simp add: demo_trap_def trap_id_def hex_u64_inj page_align_down_def)
  then show ?thesis
    by (simp add: resolve_trap_def find_covering_trap_def demo_armed(2) demo_hit_def demo_record_def trap_covers_def)
qed

lemma demo_hit_handled:
  "\<exists>out c'. handle_hit demo_armed demo_hit ClassifyAllowStep 5 = (Inr out, c') \<and> o_decision out = DecideAllowStep
     \<and> o_trap_id out = demo_trap"
proof -
  have inv: "ctl_inv (demo_armed\<lparr>c_storm := st\<rparr>)" for st
    using exclusive_run_inv [OF demo_run demo_excl] by (simp add: excl_inv_ctl)
  have r: "btree_get (c_traps (demo_armed\<lparr>c_storm := st\<rparr>)) demo_trap = Some demo_record" for st
    by (simp add: demo_armed(2))
  have k: "trap_storm_key_new ''vm'' ''as'' 0x200000 (Some 0) = Inr (TrapStormKey ''vm'' ''as'' 0x200000 (Some 0))"
    by (simp add: trap_storm_key_new_def not_blank_vm)
  obtain st where st: "storm_observe demo_storm (TrapStormKey ''vm'' ''as'' 0x200000 (Some 0)) 5 = (StormAllow, st)"
    by (simp add: storm_observe_def demo_storm_def Let_def saturating_sub_def saturating_add_def)
  have h: "h_owner_vm demo_hit = ''vm''" "h_address_space demo_hit = ''as''" "h_vcpu_id demo_hit = Some 0"
      "r_page demo_record = 0x200000"
    by (simp_all add: demo_hit_def demo_record_def)
  have "handle_hit demo_armed demo_hit ClassifyAllowStep 5 = classify_hit (demo_armed\<lparr>c_storm := st\<rparr>) demo_trap ClassifyAllowStep"
    using st k by (simp add: handle_hit_def demo_resolve demo_armed(2) demo_armed_storm h)
  moreover obtain out c' d where "classify_hit (demo_armed\<lparr>c_storm := st\<rparr>) demo_trap ClassifyAllowStep = (Inr out, c')"
      "hit_handled (demo_armed\<lparr>c_storm := st\<rparr>) c' demo_trap demo_record d out"
      "decision_grounds (demo_armed\<lparr>c_storm := st\<rparr>) demo_record ClassifyAllowStep d" "d \<noteq> DecideFailOpen" "d \<noteq> DecideFailClosed"
    using classify_hit_spec [OF inv r, of st ClassifyAllowStep]
    by (auto simp: demo_record_def accepts_hit_def split: prod.splits sum.splits)
  moreover from this have "d = DecideAllowStep"
    by (cases d) simp_all
  ultimately show ?thesis
    by (auto simp: hit_handled_def outcome_of_def demo_record_def)
qed

section \<open>Properties of the trap controller\<close>

text \<open>
  C1. An armed trap really traps: however arming, hits, re-arming and disabling are interleaved, and
  whatever the classifications, storms and errors on the way, as long as no page carries two
  traps, the page of every trap that is armed, re-armed or denied lacks exactly the trapped access:
  the guest cannot perform it, and every other access is as it was when the trap was armed.
\<close>

theorem armed_trap_blocks_access:
  assumes "table_inv t" "exclusive_run (trap_controller_new b t s j p) c"
    "btree_get (c_traps c) i = Some r" "r_state r \<in> {Armed, Rearmed, Denied}"
  shows "\<exists>m. stage2_lookup (c_table c) (r_owner_vm r) (r_address_space r) (r_page r) = Some m
    \<and> m_page_size m = r_page_size r
    \<and> perm_allows (m_permissions m) a = (a \<noteq> trap_kind_access (r_kind r) \<and> perm_allows (r_original r) a)"
proof -
  have inv: "excl_inv c"
    by (rule exclusive_run_inv [OF assms(2) excl_inv_new [OF assms(1)]])
  have ok: "record_ok (c_table c) i r"
    by (rule ctl_inv_record [OF excl_inv_ctl [OF inv] assms(3)])
  have "page_perms (c_table c) r = Some (r_trapped r)"
    using excl_perms [OF inv assms(3)] assms(4) by auto
  with ok show ?thesis
    by (auto simp: record_ok_def page_perms_def without_access_allows)
qed

theorem armed_trap_blocks_access_witness:
  "\<exists>m. stage2_lookup (c_table demo_armed) ''vm'' ''as'' 0x200000 = Some m \<and> \<not> perm_allows (m_permissions m) AccessExecute"
  using armed_trap_blocks_access [OF demo_stage2_inv demo_run [unfolded demo_ctl_def], of demo_trap demo_record AccessExecute]
  by (auto simp: demo_armed(2) demo_record_def)

text \<open>
  C24. Errors change nothing: in every reachable controller an operation that fails leaves the stage-2
  table and every trap record as they were, and fails only because there is no such trap or mapping,
  because a name is blank, or because the trap is in the wrong state; the internal steps that follow
  the checks never fail.
\<close>

theorem controller_errors_change_nothing:
  assumes "table_inv t" "ctl_step (ctl_run (trap_controller_new b t s j p) ops) op = (Some e, c')"
  shows "c_table c' = c_table (ctl_run (trap_controller_new b t s j p) ops)
    \<and> c_traps c' = c_traps (ctl_run (trap_controller_new b t s j p) ops)
    \<and> trap_error_kind e \<in> {TrapNotMapped, TrapMalformedInput, TrapInvalidState}"
  using ctl_step_spec [OF ctl_run_inv [OF ctl_inv_new [OF assms(1)]] assms(2)] by simp

theorem controller_errors_change_nothing_witness:
  "\<exists>e c'. ctl_step (ctl_run demo_ctl []) (OpRearm demo_trap) = (Some e, c') \<and> c_table c' = demo_stage2_table"
proof -
  have "\<exists>e c'. ctl_step (ctl_run demo_ctl []) (OpRearm demo_trap) = (Some e, c')"
    by (simp add: ctl_run_def rearm_def ctl_error_def demo_ctl_def trap_controller_new_def)
  then obtain e c' where st: "ctl_step (ctl_run demo_ctl []) (OpRearm demo_trap) = (Some e, c')" by blast
  from controller_errors_change_nothing [OF demo_stage2_inv st [unfolded demo_ctl_def]]
  have "c_table c' = demo_stage2_table"
    by (simp add: ctl_run_def trap_controller_new_def)
  with st show ?thesis by blast
qed





text \<open>
  Trap identifiers name one trap: for machine and address space names without a colon, two
  traps have the same identifier only when machine, address space, page and kind are the same.
\<close>

theorem trap_id_injective:
  assumes "CHR '':'' \<notin> set vm" "CHR '':'' \<notin> set asp" "CHR '':'' \<notin> set vm'" "CHR '':'' \<notin> set asp'"
  shows "trap_id vm asp page k = trap_id vm' asp' page' k' \<longleftrightarrow> vm = vm' \<and> asp = asp' \<and> page = page' \<and> k = k'"
  using assms by (simp add: trap_id_def split_at_separator hex_no_colon hex_u64_inj trap_kind_str_inj)

theorem trap_id_injective_witness:
  "trap_id ''a'' ''b'' 0 TrapRead \<noteq> trap_id ''a'' ''b'' 0x1000 TrapRead"
  using trap_id_injective [of "''a''" "''b''" "''a''" "''b''" 0 TrapRead "0x1000" TrapRead] by simp


section \<open>Observed divergences\<close>

text \<open>Colons in machine or address space names make identifiers of different traps coincide.\<close>

lemma trap_id_colon_clash: "trap_id ''a:b'' ''c'' page k = trap_id ''a'' ''b:c'' page k"
  by (simp add: trap_id_def)

text \<open>
  Arming a trap that is already armed records the trapped permissions as the original ones: the
  page never regains the access, whatever window is opened or trap disabled later.
\<close>

lemma arm_twice_forgets_original:
  assumes "ctl_inv c" "arm_trap c vm asp gpa k = (Inr i, c1)" "arm_trap c1 vm asp gpa k = (Inr j, c2)"
  shows "\<exists>r. btree_get (c_traps c2) j = Some r \<and> \<not> perm_allows (r_original r) (trap_kind_access k)"
proof -
  obtain m where m: "stage2_lookup (c_table c) vm asp gpa = Some m" and inv1: "ctl_inv c1"
      and w: "page_written m (without_access (m_permissions m) (trap_kind_access k)) (c_table c) (c_table c1)"
    using arm_trap_spec [OF assms(1), of vm asp gpa k] assms(2) by (cases "stage2_lookup (c_table c) vm asp gpa") auto
  let ?m = "m\<lparr>m_permissions := without_access (m_permissions m) (trap_kind_access k)\<rparr>"
  have "stage2_lookup (c_table c1) vm asp gpa = Some ?m"
    using m w by (simp add: page_written_def reperm_def)
  then have "btree_get (c_traps c2) j = Some (armed_record vm asp ?m k)"
    using arm_trap_spec [OF inv1, of vm asp gpa k] assms(3) inv1 by (auto simp: ctl_inv_def)
  then show ?thesis
    by (cases k; cases "m_permissions m") (auto simp: armed_record_def)
qed

text \<open>The storm guard is consulted before the state: a throttled hit re-activates a disabled trap.\<close>

lemma storm_revives_disabled:
  assumes "ctl_inv c" "resolve_trap c hit = Inr i" "btree_get (c_traps c) i = Some r" "r_state r = Disabled"
    "trap_storm_key_new (h_owner_vm hit) (h_address_space hit) (r_page r) (h_vcpu_id hit) = Inr key"
    "storm_observe (c_storm c) key now = (ThrottleFailClosed, st)"
  shows "controller_trap_state (snd (handle_hit c hit cl now)) i = Some StormThrottled"
proof -
  let ?c = "c\<lparr>c_storm := st\<rparr>" and ?n = "''trap storm throttled page; policy is fail-closed''"
  have c: "ctl_inv ?c" "btree_get (c_traps ?c) i = Some r"
    using assms(1,3) by (simp_all add: ctl_inv_def)
  obtain c' where "finish_hit ?c i StormThrottled DecideFailClosed False ?n =
      (Inr (outcome_of ?c (r\<lparr>r_state := StormThrottled\<rparr>) DecideFailClosed (r_trapped r) (r_trapped r) ?n), c')"
      "moved ?c c' i StormThrottled"
    using finish_hit_spec [OF c, of StormThrottled DecideFailClosed False ?n] by auto
  then show ?thesis
    using assms moved_get [of ?c c' i StormThrottled i] by (simp add: handle_hit_def controller_trap_state_def)
qed

end
