(* ===== verification/Map_Plan.thy ===== *)
theory Map_Plan
  imports Core_Ids
begin

text \<open>
  Map plans: the interface of the second-level translation plans of the three architectures
  (\<open>EptMapPlan\<close>, \<open>NptMapPlan\<close> and the \<open>Stage2MapPlan\<close> of the ARM64 crate). A plan is an array of
  optional mappings with a fill count; mappings are added, looked up and re-protected. The first
  section has the list operations the three plans share, the second the contract of a plan and
  what its clients can rely on.
\<close>

section \<open>Optional slots\<close>

text \<open>The iterator \<^verbatim>\<open>mappings[..len].iter().filter_map(|mapping| *mapping)\<close>.\<close>

definition live :: "'m option list \<Rightarrow> nat \<Rightarrow> 'm list" where
  "live slots len = List.map_filter id (take len slots)"

text \<open>
  The loop \<^verbatim>\<open>for mapping in &mut mappings[..len]\<close> that replaces the first mapping satisfying a
  predicate and stops: the mapping found and the slots after the loop, or nothing.
\<close>

fun update_first :: "('m \<Rightarrow> bool) \<Rightarrow> ('m \<Rightarrow> 'm) \<Rightarrow> 'm option list \<Rightarrow> ('m \<times> 'm option list) option" where
  "update_first P f [] = None"
| "update_first P f (None # slots) = map_option (apsnd (Cons None)) (update_first P f slots)"
| "update_first P f (Some m # slots) =
     (if P m then Some (m, Some (f m) # slots)
      else map_option (apsnd (Cons (Some m))) (update_first P f slots))"

definition update_live ::
    "('m \<Rightarrow> bool) \<Rightarrow> ('m \<Rightarrow> 'm) \<Rightarrow> 'm option list \<Rightarrow> nat \<Rightarrow> ('m \<times> 'm option list) option" where
  "update_live P f slots len =
     map_option (apsnd (\<lambda>xs. xs @ drop len slots)) (update_first P f (take len slots))"

text \<open>A filled prefix: the first \<open>len\<close> slots hold a mapping.\<close>

definition filled :: "'m option list \<Rightarrow> nat \<Rightarrow> bool" where
  "filled slots len \<longleftrightarrow> len \<le> length slots \<and> take len slots = map Some (live slots len)"

lemma filled_empty [simp]: "filled (replicate n None) 0" "live slots 0 = []"
  by (simp_all add: filled_def live_def List.map_filter_def)

lemma length_live: "filled slots len \<Longrightarrow> length (live slots len) = len"
  unfolding filled_def by (metis length_map length_take min_absorb2)

lemma filled_push:
  assumes "filled slots len" "len < length slots"
  shows "filled (slots[len := Some m]) (Suc len)" "live (slots[len := Some m]) (Suc len) = live slots len @ [m]"
proof -
  have t: "take (Suc len) (slots[len := Some m]) = map Some (live slots len @ [m])"
    using assms by (simp add: take_Suc_conv_app_nth filled_def)
  show live: "live (slots[len := Some m]) (Suc len) = live slots len @ [m]"
    unfolding live_def [of "slots[len := Some m]"] t by (rule map_filter_Some)
  show "filled (slots[len := Some m]) (Suc len)"
    using t live assms(2) by (simp add: filled_def)
qed

lemma update_first_Some:
  "update_first P f (map Some ms) = Some (m, slots) \<Longrightarrow>
     \<exists>us vs. ms = us @ m # vs \<and> P m \<and> (\<forall>x \<in> set us. \<not> P x) \<and> slots = map Some (us @ f m # vs)"
proof (induction ms arbitrary: slots)
  case (Cons x ms)
  show ?case
  proof (cases "P x")
    case True
    with Cons.prems show ?thesis
      by (intro exI [of _ "[]"] exI [of _ ms]) auto
  next
    case False
    with Cons.prems obtain slots' where "update_first P f (map Some ms) = Some (m, slots')" "slots = Some x # slots'"
      by auto
    with Cons.IH obtain us vs where "ms = us @ m # vs" "P m" "\<forall>x \<in> set us. \<not> P x" "slots' = map Some (us @ f m # vs)"
      by blast
    with \<open>slots = Some x # slots'\<close> False show ?thesis
      by (intro exI [of _ "x # us"] exI [of _ vs]) auto
  qed
qed simp

lemma update_first_None: "update_first P f (map Some ms) = None \<longleftrightarrow> (\<forall>x \<in> set ms. \<not> P x)"
  by (induction ms) auto

lemma update_live_Some:
  assumes "filled slots len" "update_live P f slots len = Some (m, slots')"
  shows "filled slots' len" "\<exists>us vs. live slots len = us @ m # vs \<and> P m \<and> (\<forall>x \<in> set us. \<not> P x)
    \<and> live slots' len = us @ f m # vs"
proof -
  from assms obtain xs where xs: "update_first P f (map Some (live slots len)) = Some (m, xs)" "slots' = xs @ drop len slots"
    by (auto simp: update_live_def filled_def)
  from update_first_Some [OF xs(1)] obtain us vs where uv: "live slots len = us @ m # vs" "P m" "\<forall>x \<in> set us. \<not> P x"
      "xs = map Some (us @ f m # vs)"
    by blast
  have "length xs = len"
    using uv length_live [OF assms(1)] by simp
  then have "take len slots' = xs"
    unfolding xs(2) by simp
  then have t: "take len slots' = map Some (us @ f m # vs)"
    using uv(4) by simp
  have live: "live slots' len = us @ f m # vs"
    unfolding live_def t by (rule map_filter_Some)
  have "len \<le> length slots'"
    unfolding xs(2) using \<open>length xs = len\<close> by simp
  with t live show "filled slots' len"
    unfolding filled_def by metis
  from live uv show "\<exists>us vs. live slots len = us @ m # vs \<and> P m \<and> (\<forall>x \<in> set us. \<not> P x) \<and> live slots' len = us @ f m # vs"
    by blast
qed

lemma update_live_None:
  "filled slots len \<Longrightarrow> update_live P f slots len = None \<longleftrightarrow> (\<forall>x \<in> set (live slots len). \<not> P x)"
  by (auto simp: update_live_def filled_def update_first_None)

lemma update_live_cases:
  assumes "filled slots len"
  obtains (None) "update_live P f slots len = None" "\<forall>x \<in> set (live slots len). \<not> P x"
  | (Some) m slots' us vs where "update_live P f slots len = Some (m, slots')" "filled slots' len"
      "live slots len = us @ m # vs" "P m" "\<forall>x \<in> set us. \<not> P x" "live slots' len = us @ f m # vs"
proof (cases "update_live P f slots len")
  case None
  with assms that(1) show thesis by (simp add: update_live_None)
next
  case (Some u)
  then obtain m slots' where u: "update_live P f slots len = Some (m, slots')"
    by (cases u) simp
  with update_live_Some [OF assms u] that(2) show thesis by blast
qed

section \<open>Exclusive covers\<close>

definition exclusive :: "('m \<Rightarrow> 'k \<Rightarrow> bool) \<Rightarrow> 'm list \<Rightarrow> bool" where
  "exclusive covers = sorted_wrt (\<lambda>x y. \<forall>a. \<not> (covers x a \<and> covers y a))"

lemma exclusive_Nil [simp]: "exclusive covers []"
  by (simp add: exclusive_def)

lemma exclusive_Cons [simp]:
  "exclusive covers (x # xs) \<longleftrightarrow> (\<forall>y \<in> set xs. \<forall>a. \<not> (covers x a \<and> covers y a)) \<and> exclusive covers xs"
  by (simp add: exclusive_def)

lemma exclusive_append:
  "exclusive covers (xs @ ys) \<longleftrightarrow> exclusive covers xs \<and> exclusive covers ys
     \<and> (\<forall>x \<in> set xs. \<forall>y \<in> set ys. \<forall>a. \<not> (covers x a \<and> covers y a))"
  by (auto simp: exclusive_def sorted_wrt_append)

lemma find_exclusive:
  "exclusive covers ms \<Longrightarrow> find (\<lambda>m. covers m a) ms = Some m \<longleftrightarrow> m \<in> set ms \<and> covers m a"
  by (induction ms) auto

lemma find_None: "find P ms = None \<longleftrightarrow> (\<forall>m \<in> set ms. \<not> P m)"
  by (auto simp: find_None_iff)

section \<open>The contract of a map plan\<close>

inductive plan_reach ::
    "('s \<Rightarrow> 'm \<Rightarrow> ('e + unit) \<times> 's) \<Rightarrow> ('s \<Rightarrow> 'k \<Rightarrow> 'p \<Rightarrow> ('e + 'p) \<times> 's) \<Rightarrow> 's \<Rightarrow> 's \<Rightarrow> bool"
  for add reprotect s0 where
  start: "plan_reach add reprotect s0 s0"
| map: "plan_reach add reprotect s0 s \<Longrightarrow> plan_reach add reprotect s0 (snd (add s m))"
| protect: "plan_reach add reprotect s0 s \<Longrightarrow> plan_reach add reprotect s0 (snd (reprotect s a p))"

text \<open>
  \<open>add\<close> accepts the mappings the plan admits and appends them, \<open>lookup\<close> finds the first mapping
  that covers an address and \<open>reprotect\<close> changes the permissions of that mapping; failures change
  nothing. Two mappings that cover a common address clash, and a plan admits no clash.
\<close>

locale map_plan =
  fixes wf :: "'s \<Rightarrow> bool" and entries :: "'s \<Rightarrow> 'm list" and admits :: "'s \<Rightarrow> 'm \<Rightarrow> bool"
    and add :: "'s \<Rightarrow> 'm \<Rightarrow> ('e + unit) \<times> 's"
    and lookup :: "'s \<Rightarrow> 'k \<Rightarrow> 'm option"
    and reprotect :: "'s \<Rightarrow> 'k \<Rightarrow> 'p \<Rightarrow> ('e + 'p) \<times> 's"
    and covers :: "'m \<Rightarrow> 'k \<Rightarrow> bool"
    and perms :: "'m \<Rightarrow> 'p" and with_perms :: "'p \<Rightarrow> 'm \<Rightarrow> 'm"
  assumes covers_with [simp]: "covers (with_perms p m) a = covers m a"
    and perms_with [simp]: "perms (with_perms p m) = p" "with_perms (perms m) m = m"
      "with_perms p (with_perms q m) = with_perms p m"
    and admits_no_clash: "wf s \<Longrightarrow> admits s m \<Longrightarrow> x \<in> set (entries s) \<Longrightarrow> \<not> (covers x a \<and> covers m a)"
    and add_outcome: "wf s \<Longrightarrow> (case add s m of
        (Inl e, s') \<Rightarrow> \<not> admits s m \<and> s' = s
      | (Inr _, s') \<Rightarrow> admits s m \<and> wf s' \<and> entries s' = entries s @ [m])"
    and lookup_find: "wf s \<Longrightarrow> lookup s a = find (\<lambda>m. covers m a) (entries s)"
    and reprotect_outcome: "wf s \<Longrightarrow> (case reprotect s a p of
        (Inl e, s') \<Rightarrow> (\<forall>m \<in> set (entries s). \<not> covers m a) \<and> s' = s
      | (Inr old, s') \<Rightarrow> wf s' \<and> (\<exists>us m vs. entries s = us @ m # vs \<and> covers m a
          \<and> (\<forall>x \<in> set us. \<not> covers x a) \<and> old = perms m \<and> entries s' = us @ with_perms p m # vs))"
begin

lemma exclusive_add:
  assumes "wf s" "exclusive covers (entries s)"
  shows "wf (snd (add s m))" "exclusive covers (entries (snd (add s m)))"
proof -
  have "wf (snd (add s m)) \<and> exclusive covers (entries (snd (add s m)))"
    using add_outcome [OF assms(1), of m] admits_no_clash [OF assms(1), of m] assms
    by (auto simp: exclusive_append split: prod.splits sum.splits)
  then show "wf (snd (add s m))" "exclusive covers (entries (snd (add s m)))" by simp_all
qed

lemma exclusive_reprotect:
  assumes "wf s" "exclusive covers (entries s)"
  shows "wf (snd (reprotect s a p))" "exclusive covers (entries (snd (reprotect s a p)))"
proof -
  have "wf (snd (reprotect s a p)) \<and> exclusive covers (entries (snd (reprotect s a p)))"
    using reprotect_outcome [OF assms(1), of a p] assms
    by (auto simp: exclusive_append split: prod.splits sum.splits)
  then show "wf (snd (reprotect s a p))" "exclusive covers (entries (snd (reprotect s a p)))" by simp_all
qed

lemma reach_exclusive:
  assumes "plan_reach add reprotect s0 s" "wf s0" "entries s0 = []"
  shows "wf s \<and> exclusive covers (entries s)"
  using assms by (induction rule: plan_reach.induct) (simp_all add: exclusive_add exclusive_reprotect)

lemma lookup_iff:
  assumes "wf s" "exclusive covers (entries s)"
  shows "lookup s a = Some m \<longleftrightarrow> m \<in> set (entries s) \<and> covers m a"
  using assms by (simp add: lookup_find find_exclusive)

lemma lookup_unmapped: "wf s \<Longrightarrow> lookup s a = None \<longleftrightarrow> (\<forall>m \<in> set (entries s). \<not> covers m a)"
  by (simp add: lookup_find find_None)

text \<open>An accepted mapping translates exactly its own addresses; the others keep theirs.\<close>

lemma lookup_add:
  assumes "wf s" "exclusive covers (entries s)" "add s m = (Inr u, s')"
  shows "lookup s' a = (if covers m a then Some m else lookup s a)"
proof (rule option_eqI)
  fix x
  have s': "wf s'" "exclusive covers (entries s')" "entries s' = entries s @ [m]" "admits s m"
    using exclusive_add [OF assms(1,2), of m] add_outcome [OF assms(1), of m] assms(3) by auto
  show "lookup s' a = Some x \<longleftrightarrow> (if covers m a then Some m else lookup s a) = Some x"
    using lookup_iff [OF s'(1,2)] lookup_iff [OF assms(1,2)] s'(3) admits_no_clash [OF assms(1) s'(4)]
    by auto
qed

text \<open>Changing permissions changes them for the one mapping that covers the address.\<close>

lemma lookup_reprotect:
  assumes "wf s" "exclusive covers (entries s)" "reprotect s a p = (Inr old, s')"
  obtains m where "lookup s a = Some m" "old = perms m"
    "\<And>b. lookup s' b = (if covers m b then Some (with_perms p m) else lookup s b)"
proof -
  have s': "wf s'" "exclusive covers (entries s')"
    using exclusive_reprotect [OF assms(1,2), of a p] assms(3) by simp_all
  obtain us m vs where m: "entries s = us @ m # vs" "covers m a" "old = perms m" "entries s' = us @ with_perms p m # vs"
    using reprotect_outcome [OF assms(1), of a p] assms(3) by auto
  have "lookup s' b = (if covers m b then Some (with_perms p m) else lookup s b)" for b
  proof (rule option_eqI)
    fix x
    show "lookup s' b = Some x \<longleftrightarrow> (if covers m b then Some (with_perms p m) else lookup s b) = Some x"
      using lookup_iff [OF s'] lookup_iff [OF assms(1,2)] m(1,4) assms(2) by (auto simp: exclusive_append)
  qed
  moreover have "lookup s a = Some m"
    using lookup_iff [OF assms(1,2)] m(1,2) by simp
  ultimately show thesis
    using m(3) that by blast
qed

lemma reprotect_unmapped: "wf s \<Longrightarrow> (\<exists>e. reprotect s a p = (Inl e, s)) \<longleftrightarrow> lookup s a = None"
  using reprotect_outcome [of s a p] lookup_unmapped [of s a]
  by (cases "reprotect s a p"; cases "fst (reprotect s a p)") auto

text \<open>Writing the previous permissions back restores every translation.\<close>

lemma reprotect_restores:
  assumes "wf s" "exclusive covers (entries s)" "reprotect s a p = (Inr old, s')"
  obtains s'' where "reprotect s' a old = (Inr p, s'')" "\<And>b. lookup s'' b = lookup s b"
proof -
  obtain m where m: "lookup s a = Some m" "old = perms m"
      "\<And>b. lookup s' b = (if covers m b then Some (with_perms p m) else lookup s b)"
    by (rule lookup_reprotect [OF assms]) blast
  have s': "wf s'" "exclusive covers (entries s')"
    using exclusive_reprotect [OF assms(1,2), of a p] assms(3) by simp_all
  have cov: "covers m a"
    using m(1) lookup_iff [OF assms(1,2)] by simp
  then have look': "lookup s' a = Some (with_perms p m)"
    using m(3) by simp
  then obtain q s'' where r: "reprotect s' a old = (Inr q, s'')"
    using reprotect_unmapped [OF s'(1), of a old] reprotect_outcome [OF s'(1), of a old] lookup_unmapped [OF s'(1), of a]
    by (cases "reprotect s' a old"; cases "fst (reprotect s' a old)") auto
  obtain m' where m': "lookup s' a = Some m'" "q = perms m'"
      "\<And>b. lookup s'' b = (if covers m' b then Some (with_perms old m') else lookup s' b)"
    by (rule lookup_reprotect [OF s' r]) blast
  have "lookup s'' b = lookup s b" for b
    using m'(1,3) look' m(2,3) lookup_iff [OF assms(1,2), of b m] m(1) lookup_iff [OF assms(1,2), of a m]
    by (auto split: if_splits)
  with r m' look' that show thesis by auto
qed

text \<open>Both halves of a temporary change, for a mapped address.\<close>

lemma reprotect_mapped:
  assumes "wf s" "exclusive covers (entries s)" "lookup s a = Some m"
  obtains s1 s2 where "reprotect s a p = (Inr (perms m), s1)" "reprotect s1 a (perms m) = (Inr p, s2)"
    "\<And>b. lookup s1 b = (if covers m b then Some (with_perms p m) else lookup s b)"
    "\<And>b. lookup s2 b = lookup s b"
proof -
  obtain old s1 where s1: "reprotect s a p = (Inr old, s1)"
    using assms(3) lookup_unmapped [OF assms(1), of a] reprotect_outcome [OF assms(1), of a p]
    by (cases "reprotect s a p"; cases "fst (reprotect s a p)") auto
  obtain m' where m': "lookup s a = Some m'" "old = perms m'"
      "\<And>b. lookup s1 b = (if covers m' b then Some (with_perms p m') else lookup s b)"
    by (rule lookup_reprotect [OF assms(1,2) s1]) blast
  obtain s2 where "reprotect s1 a old = (Inr p, s2)" "\<And>b. lookup s2 b = lookup s b"
    by (rule reprotect_restores [OF assms(1,2) s1]) blast
  with s1 m' assms(3) that show thesis by auto
qed

end

end
