(* ===== verification/Vmx_Ept.thy ===== *)
theory Vmx_Ept
  imports Map_Plan
begin

text \<open>
  Intel VMX: feature checks (\<open>crates/aegishv-arch-x86/src/vmx/features.rs\<close>) and extended page
  tables (\<open>vmx/ept.rs\<close>): the encoding of the EPT pointer and of table and leaf entries, the plan
  of mappings, and the handling of EPT violations. The plan is shown to be a map plan.
\<close>

section \<open>Errors and feature checks\<close>

datatype vmx_error_kind =
    VmxMissingCpuidBit
  | VmxFeatureControlUnlocked
  | VmxDisabledOutsideSmx
  | VmxInvalidRevisionId
  | VmxMisalignedRegion
  | VmxRegionTooSmall
  | VmxInstructionFailed
  | VmxInvalidVmcsState
  | VmxInvalidVmcsField
  | VmxInvalidControlBits
  | VmxInvalidGuestState
  | VmxUnsupportedExit
  | VmxUnsupportedMsr
  | VmxUnsupportedControlRegister
  | VmxInvalidEptMapping
  | VmxInvalidEptViolation
  | VmxUnsupportedCapability

datatype vmx_error = VmxError (vmx_kind: vmx_error_kind) (vmx_message: string)

type_synonym 'a vmx_result = "vmx_error + 'a"

abbreviation vmx_present :: "u32 \<Rightarrow> bool" where
  "vmx_present ecx \<equiv> ecx AND push_bit 5 1 \<noteq> 0"

abbreviation fc_locked :: "u64 \<Rightarrow> bool" where
  "fc_locked raw \<equiv> raw AND push_bit 0 1 \<noteq> 0"

abbreviation fc_vmx_inside_smx :: "u64 \<Rightarrow> bool" where
  "fc_vmx_inside_smx raw \<equiv> raw AND push_bit 1 1 \<noteq> 0"

abbreviation fc_vmx_outside_smx :: "u64 \<Rightarrow> bool" where
  "fc_vmx_outside_smx raw \<equiv> raw AND push_bit 2 1 \<noteq> 0"

record vmx_feature_set =
  vf_cpuid_vmx :: bool
  vf_feature_control_locked :: bool
  vf_vmx_inside_smx :: bool
  vf_vmx_outside_smx :: bool

definition vmx_features_from_registers :: "u32 \<Rightarrow> u64 \<Rightarrow> vmx_feature_set" where
  "vmx_features_from_registers leaf1_ecx feature_control =
     \<lparr>vf_cpuid_vmx = vmx_present leaf1_ecx,
      vf_feature_control_locked = fc_locked feature_control,
      vf_vmx_inside_smx = fc_vmx_inside_smx feature_control,
      vf_vmx_outside_smx = fc_vmx_outside_smx feature_control\<rparr>"

definition validate_non_smx :: "vmx_feature_set \<Rightarrow> vmx_feature_set vmx_result" where
  "validate_non_smx f =
     (if \<not> vf_cpuid_vmx f
      then Inl (VmxError VmxMissingCpuidBit ''CPUID.1:ECX does not expose VMX support'')
      else if \<not> vf_feature_control_locked f
      then Inl (VmxError VmxFeatureControlUnlocked
             ''IA32_FEATURE_CONTROL must be locked before VMX is used'')
      else if \<not> vf_vmx_outside_smx f
      then Inl (VmxError VmxDisabledOutsideSmx ''IA32_FEATURE_CONTROL disables VMX outside SMX'')
      else Inr f)"

record cr_fixed_bits =
  cr_fixed0 :: u64
  cr_fixed1 :: u64

abbreviation cr_validate :: "cr_fixed_bits \<Rightarrow> u64 \<Rightarrow> bool" where
  "cr_validate f v \<equiv> v AND cr_fixed0 f = cr_fixed0 f \<and> v AND NOT (cr_fixed1 f) = 0"

definition validate_control_register :: "u64 \<Rightarrow> cr_fixed_bits \<Rightarrow> string \<Rightarrow> u64 vmx_result" where
  "validate_control_register v f msg =
     (if cr_validate f v then Inr v else Inl (VmxError VmxInvalidGuestState msg))"

definition is_canonical_u64 :: "u64 \<Rightarrow> bool" where
  "is_canonical_u64 v =
     (let high = drop_bit 48 v; sign = drop_bit 47 v AND 1
      in (sign = 0 \<and> high = 0) \<or> (sign = 1 \<and> high = 0xffff))"

section \<open>EPT entries\<close>

abbreviation EPT_VPID_CAP_EXECUTE_ONLY :: u64 where "EPT_VPID_CAP_EXECUTE_ONLY \<equiv> push_bit 0 1"
abbreviation EPT_VPID_CAP_PAGE_WALK_LENGTH_4 :: u64 where "EPT_VPID_CAP_PAGE_WALK_LENGTH_4 \<equiv> push_bit 6 1"
abbreviation EPT_VPID_CAP_MEMORY_TYPE_UC :: u64 where "EPT_VPID_CAP_MEMORY_TYPE_UC \<equiv> push_bit 8 1"
abbreviation EPT_VPID_CAP_MEMORY_TYPE_WB :: u64 where "EPT_VPID_CAP_MEMORY_TYPE_WB \<equiv> push_bit 14 1"
definition EPT_PAGE_ADDRESS_MASK :: u64 where "EPT_PAGE_ADDRESS_MASK = 0x000ffffffffff000"
abbreviation EPT_READ :: u64 where "EPT_READ \<equiv> push_bit 0 1"
abbreviation EPT_WRITE :: u64 where "EPT_WRITE \<equiv> push_bit 1 1"
abbreviation EPT_EXECUTE :: u64 where "EPT_EXECUTE \<equiv> push_bit 2 1"
abbreviation EPTP_PAGE_WALK_LENGTH_4 :: u64 where "EPTP_PAGE_WALK_LENGTH_4 \<equiv> push_bit 3 3"

datatype ept_memory_type = EptUncacheable | EptWriteBack

fun ept_memory_raw :: "ept_memory_type \<Rightarrow> u64" where
  "ept_memory_raw EptUncacheable = 0"
| "ept_memory_raw EptWriteBack = 6"

abbreviation eptp_encoding :: "ept_memory_type \<Rightarrow> u64" where
  "eptp_encoding t \<equiv> ept_memory_raw t"

definition leaf_encoding :: "ept_memory_type \<Rightarrow> u64" where
  "leaf_encoding t = push_bit 3 (ept_memory_raw t)"

datatype ept_capabilities = EptCapabilities (ept_cap_raw: u64)

abbreviation supports_4_level_walk :: "ept_capabilities \<Rightarrow> bool" where
  "supports_4_level_walk c \<equiv> ept_cap_raw c AND EPT_VPID_CAP_PAGE_WALK_LENGTH_4 \<noteq> 0"

abbreviation supports_execute_only :: "ept_capabilities \<Rightarrow> bool" where
  "supports_execute_only c \<equiv> ept_cap_raw c AND EPT_VPID_CAP_EXECUTE_ONLY \<noteq> 0"

definition supports_memory_type :: "ept_capabilities \<Rightarrow> ept_memory_type \<Rightarrow> bool" where
  "supports_memory_type c t \<longleftrightarrow>
     ept_cap_raw c AND (case t of EptUncacheable \<Rightarrow> EPT_VPID_CAP_MEMORY_TYPE_UC
                                | EptWriteBack \<Rightarrow> EPT_VPID_CAP_MEMORY_TYPE_WB) \<noteq> 0"

definition validate_4_level_write_back :: "ept_capabilities \<Rightarrow> unit vmx_result" where
  "validate_4_level_write_back c =
     (if \<not> supports_4_level_walk c
      then Inl (VmxError VmxUnsupportedCapability ''CPU does not support a four-level EPT page walk'')
      else if \<not> supports_memory_type c EptWriteBack
      then Inl (VmxError VmxUnsupportedCapability ''CPU does not support the write-back EPT memory type'')
      else Inr ())"

definition validate_ept_page_address :: "host_physical \<Rightarrow> u64 vmx_result" where
  "validate_ept_page_address address =
     (let raw = hpa_get address in
      if raw mod 4096 \<noteq> 0
      then Inl (VmxError VmxInvalidEptMapping ''EPT page address must be 4K aligned'')
      else if raw AND NOT EPT_PAGE_ADDRESS_MASK \<noteq> 0
      then Inl (VmxError VmxInvalidEptMapping
             ''EPT page address sets bits outside the architectural address field'')
      else Inr raw)"

record ept_pointer =
  eptp_root :: host_physical
  eptp_raw :: u64

definition ept_pointer_new :: "host_physical \<Rightarrow> ept_capabilities \<Rightarrow> ept_pointer vmx_result" where
  "ept_pointer_new root c =
     (case validate_4_level_write_back c of
        Inl e \<Rightarrow> Inl e
      | Inr _ \<Rightarrow>
         (case validate_ept_page_address root of
            Inl e \<Rightarrow> Inl e
          | Inr root_raw \<Rightarrow>
              Inr \<lparr>eptp_root = root,
                   eptp_raw = root_raw OR eptp_encoding EptWriteBack OR EPTP_PAGE_WALK_LENGTH_4\<rparr>))"

definition ept_table_entry_new :: "host_physical \<Rightarrow> u64 vmx_result" where
  "ept_table_entry_new next_level =
     (case validate_ept_page_address next_level of
        Inl e \<Rightarrow> Inl e
      | Inr address \<Rightarrow> Inr (address OR EPT_READ OR EPT_WRITE OR EPT_EXECUTE))"

record ept_permissions =
  ep_read :: bool
  ep_write :: bool
  ep_execute :: bool

abbreviation EPT_NONE :: ept_permissions where
  "EPT_NONE \<equiv> \<lparr>ep_read = False, ep_write = False, ep_execute = False\<rparr>"
abbreviation EPT_READ_ONLY :: ept_permissions where
  "EPT_READ_ONLY \<equiv> \<lparr>ep_read = True, ep_write = False, ep_execute = False\<rparr>"
abbreviation EPT_READ_WRITE :: ept_permissions where
  "EPT_READ_WRITE \<equiv> \<lparr>ep_read = True, ep_write = True, ep_execute = False\<rparr>"
abbreviation EPT_READ_EXECUTE :: ept_permissions where
  "EPT_READ_EXECUTE \<equiv> \<lparr>ep_read = True, ep_write = False, ep_execute = True\<rparr>"
abbreviation EPT_READ_WRITE_EXECUTE :: ept_permissions where
  "EPT_READ_WRITE_EXECUTE \<equiv> \<lparr>ep_read = True, ep_write = True, ep_execute = True\<rparr>"

definition ept_without_execute :: "ept_permissions \<Rightarrow> ept_permissions" where
  "ept_without_execute p = p\<lparr>ep_execute := False\<rparr>"

definition ept_without_write :: "ept_permissions \<Rightarrow> ept_permissions" where
  "ept_without_write p = p\<lparr>ep_write := False\<rparr>"

definition ept_with_write :: "ept_permissions \<Rightarrow> ept_permissions" where
  "ept_with_write p = p\<lparr>ep_write := True\<rparr>"

datatype ept_access = EptRead | EptWrite | EptExecute

fun ept_allows :: "ept_permissions \<Rightarrow> ept_access \<Rightarrow> bool" where
  "ept_allows p EptRead = ep_read p"
| "ept_allows p EptWrite = ep_write p"
| "ept_allows p EptExecute = ep_execute p"

definition encode_ept_permissions :: "ept_permissions \<Rightarrow> ept_capabilities \<Rightarrow> u64 vmx_result" where
  "encode_ept_permissions p c =
     (if \<not> ep_read p \<and> \<not> ep_write p \<and> \<not> ep_execute p
      then Inl (VmxError VmxInvalidEptMapping ''EPT 4K leaf must grant at least one permission'')
      else if ep_write p \<and> \<not> ep_read p
      then Inl (VmxError VmxInvalidEptMapping ''EPT write permission requires read permission'')
      else if ep_execute p \<and> \<not> ep_read p \<and> \<not> supports_execute_only c
      then Inl (VmxError VmxUnsupportedCapability ''CPU does not support execute-only EPT translations'')
      else
        let raw = 0;
            raw = (if ep_read p then raw OR EPT_READ else raw);
            raw = (if ep_write p then raw OR EPT_WRITE else raw);
            raw = (if ep_execute p then raw OR EPT_EXECUTE else raw)
        in Inr raw)"

definition ept_leaf_entry_4k_new ::
    "host_physical \<Rightarrow> ept_permissions \<Rightarrow> ept_memory_type \<Rightarrow> ept_capabilities \<Rightarrow> u64 vmx_result" where
  "ept_leaf_entry_4k_new hpa p t c =
     (case validate_ept_page_address hpa of
        Inl e \<Rightarrow> Inl e
      | Inr address \<Rightarrow>
         (case encode_ept_permissions p c of
            Inl e \<Rightarrow> Inl e
          | Inr permission_bits \<Rightarrow>
              if \<not> supports_memory_type c t
              then Inl (VmxError VmxUnsupportedCapability
                     ''CPU does not support the requested EPT leaf memory type'')
              else Inr (address OR permission_bits OR leaf_encoding t)))"

section \<open>The map plan\<close>

datatype ept_page_size = Ept4K | Ept2M

fun ept_bytes :: "ept_page_size \<Rightarrow> u64" where
  "ept_bytes Ept4K = 4096"
| "ept_bytes Ept2M = 2 * 1024 * 1024"

abbreviation ept_align_down :: "ept_page_size \<Rightarrow> u64 \<Rightarrow> u64" where
  "ept_align_down sz v \<equiv> v - v mod ept_bytes sz"

record ept_mapping =
  em_guest_physical :: guest_physical
  em_host_physical :: host_physical
  em_page_size :: ept_page_size
  em_permissions :: ept_permissions
  em_memory_type :: ept_memory_type

definition ept_mapping_new ::
    "guest_physical \<Rightarrow> host_physical \<Rightarrow> ept_page_size \<Rightarrow> ept_permissions \<Rightarrow> ept_memory_type
      \<Rightarrow> ept_mapping vmx_result" where
  "ept_mapping_new gpa hpa sz p t =
     (let bytes = ept_bytes sz in
      if gpa_get gpa mod bytes \<noteq> 0 \<or> hpa_get hpa mod bytes \<noteq> 0
      then Inl (VmxError VmxInvalidEptMapping
             ''EPT mapping addresses must be aligned to the selected page size'')
      else Inr \<lparr>em_guest_physical = gpa, em_host_physical = hpa, em_page_size = sz,
                em_permissions = p, em_memory_type = t\<rparr>)"

definition ept_end :: "ept_mapping \<Rightarrow> u64" where
  "ept_end m = gpa_get (em_guest_physical m) + ept_bytes (em_page_size m)"

definition ept_contains :: "ept_mapping \<Rightarrow> guest_physical \<Rightarrow> bool" where
  "ept_contains m gpa \<longleftrightarrow> gpa_get (em_guest_physical m) \<le> gpa_get gpa \<and> gpa_get gpa < ept_end m"

record ept_map_plan =
  ept_slots :: "ept_mapping option list"
  ept_len :: nat

definition ept_plan_new :: "nat \<Rightarrow> ept_map_plan" where
  "ept_plan_new n = \<lparr>ept_slots = replicate n None, ept_len = 0\<rparr>"

abbreviation ept_is_empty :: "ept_map_plan \<Rightarrow> bool" where
  "ept_is_empty s \<equiv> ept_len s = 0"

definition ept_mappings :: "ept_map_plan \<Rightarrow> ept_mapping list" where
  "ept_mappings s = live (ept_slots s) (ept_len s)"

fun ept_overlap_scan :: "ept_mapping \<Rightarrow> ept_mapping list \<Rightarrow> unit vmx_result" where
  "ept_overlap_scan candidate [] = Inr ()"
| "ept_overlap_scan candidate (existing # rest) =
     (if gpa_get (em_guest_physical candidate) < ept_end existing
         \<and> gpa_get (em_guest_physical existing) < ept_end candidate
      then Inl (VmxError VmxInvalidEptMapping ''EPT mapping overlaps an existing guest physical range'')
      else ept_overlap_scan candidate rest)"

definition ept_reject_overlap :: "ept_map_plan \<Rightarrow> ept_mapping \<Rightarrow> unit vmx_result" where
  "ept_reject_overlap s candidate = ept_overlap_scan candidate (ept_mappings s)"

definition ept_map :: "ept_map_plan \<Rightarrow> ept_mapping \<Rightarrow> unit vmx_result \<times> ept_map_plan" where
  "ept_map s m =
     (if length (ept_slots s) \<le> ept_len s
      then (Inl (VmxError VmxInvalidEptMapping ''EPT map plan is full''), s)
      else case ept_reject_overlap s m of
        Inl e \<Rightarrow> (Inl e, s)
      | Inr _ \<Rightarrow> (Inr (), s\<lparr>ept_slots := (ept_slots s)[ept_len s := Some m], ept_len := ept_len s + 1\<rparr>))"

definition ept_lookup :: "ept_map_plan \<Rightarrow> guest_physical \<Rightarrow> ept_mapping option" where
  "ept_lookup s gpa = find (\<lambda>m. ept_contains m gpa) (ept_mappings s)"

definition ept_set_permissions ::
    "ept_map_plan \<Rightarrow> guest_physical \<Rightarrow> ept_permissions \<Rightarrow> ept_permissions vmx_result \<times> ept_map_plan" where
  "ept_set_permissions s gpa p =
     (case update_live (\<lambda>m. ept_contains m gpa) (\<lambda>m. m\<lparr>em_permissions := p\<rparr>) (ept_slots s) (ept_len s) of
        Some (m, slots) \<Rightarrow> (Inr (em_permissions m), s\<lparr>ept_slots := slots\<rparr>)
      | None \<Rightarrow>
          (Inl (VmxError VmxInvalidEptMapping ''EPT permission update did not find a covering mapping''), s))"

section \<open>Violations and invalidation\<close>

datatype ept_violation_qualification = EptViolationQualification (evq_raw: u64)

fun ept_qualification_for_access :: "ept_access \<Rightarrow> ept_violation_qualification" where
  "ept_qualification_for_access EptRead = EptViolationQualification 1"
| "ept_qualification_for_access EptWrite = EptViolationQualification (push_bit 1 1)"
| "ept_qualification_for_access EptExecute = EptViolationQualification (push_bit 2 1)"

definition ept_qualification_access :: "ept_violation_qualification \<Rightarrow> ept_access vmx_result" where
  "ept_qualification_access q =
     (let access_bits = evq_raw q AND 7 in
      if access_bits = 1 then Inr EptRead
      else if access_bits = 2 then Inr EptWrite
      else if access_bits = 4 then Inr EptExecute
      else Inl (VmxError VmxInvalidEptViolation
             ''EPT violation qualification must describe one access type''))"

abbreviation guest_linear_address_valid :: "ept_violation_qualification \<Rightarrow> bool" where
  "guest_linear_address_valid q \<equiv> evq_raw q AND push_bit 7 1 \<noteq> 0"

abbreviation caused_by_guest_page_walk :: "ept_violation_qualification \<Rightarrow> bool" where
  "caused_by_guest_page_walk q \<equiv> evq_raw q AND push_bit 8 1 \<noteq> 0"

datatype ept_violation_action = EptUnexpectedAccess | EptMissingMapping | EptResumeAfterPermissionChange

definition handle_ept_violation ::
    "ept_map_plan \<Rightarrow> guest_physical \<Rightarrow> ept_violation_qualification \<Rightarrow> ept_violation_action vmx_result" where
  "handle_ept_violation s gpa q =
     (case ept_qualification_access q of
        Inl e \<Rightarrow> Inl e
      | Inr access \<Rightarrow>
         (case ept_lookup s gpa of
            None \<Rightarrow> Inr EptMissingMapping
          | Some m \<Rightarrow>
              if ept_allows (em_permissions m) access then Inr EptUnexpectedAccess
              else Inr EptResumeAfterPermissionChange))"

datatype vpid = Vpid (vpid_get: u16)

definition vpid_new :: "u16 \<Rightarrow> vpid vmx_result" where
  "vpid_new raw =
     (if raw = 0 then Inl (VmxError VmxInvalidControlBits ''VPID 0 is reserved by VMX'') else Inr (Vpid raw))"

datatype invept_kind = InveptSingleContext | InveptAllContexts
datatype vpid_flush_kind = VpidIndividualAddress | VpidSingleContext | VpidAllContexts

record vmx_invalidation_plan =
  vip_invept :: "(invept_kind \<times> u64) option"
  vip_vpid :: "(vpid_flush_kind \<times> vpid \<times> guest_physical) option"

definition ept_single_context :: "u64 \<Rightarrow> vmx_invalidation_plan" where
  "ept_single_context ptr = \<lparr>vip_invept = Some (InveptSingleContext, ptr), vip_vpid = None\<rparr>"

definition vpid_individual :: "vpid \<Rightarrow> guest_physical \<Rightarrow> vmx_invalidation_plan" where
  "vpid_individual v gpa = \<lparr>vip_invept = None, vip_vpid = Some (VpidIndividualAddress, v, gpa)\<rparr>"

section \<open>Entries decode to what they encode\<close>

lemma ept_address_mask: "EPT_PAGE_ADDRESS_MASK = push_bit 12 (mask 40)"
  by (simp add: EPT_PAGE_ADDRESS_MASK_def mask_eq_exp_minus_1 push_bit_eq_mult)

lemma validate_ept_page_address_ok:
  assumes "validate_ept_page_address h = Inr a"
  shows "a = hpa_get h" "bit a n \<Longrightarrow> 12 \<le> n \<and> n < 52"
proof -
  have a: "a = hpa_get h" "a AND NOT EPT_PAGE_ADDRESS_MASK = 0"
    using assms by (auto simp: validate_ept_page_address_def Let_def split: if_splits)
  then show "a = hpa_get h" by simp
  assume n: "bit a n"
  then have "n < 64"
    using bit_imp_le_length [of a n] by simp
  moreover have "\<not> bit (a AND NOT EPT_PAGE_ADDRESS_MASK) n"
    unfolding a(2) by simp
  ultimately show "12 \<le> n \<and> n < 52"
    using n by (auto simp: bit_simps ept_address_mask)
qed

lemma encode_ept_permissions_ok:
  "encode_ept_permissions p c = Inr b \<longleftrightarrow>
     (ep_read p \<or> ep_execute p \<and> supports_execute_only c) \<and> (ep_write p \<longrightarrow> ep_read p)
     \<and> b = of_bool (ep_read p) OR push_bit 1 (of_bool (ep_write p)) OR push_bit 2 (of_bool (ep_execute p))"
  by (auto simp: encode_ept_permissions_def Let_def)

lemma ept_memory_bits: "bit (ept_memory_raw t) k \<Longrightarrow> k < 3"
proof -
  have six: "(6 :: u64) = push_bit 1 (mask 2)"
    by (simp add: mask_eq_exp_minus_1)
  show "bit (ept_memory_raw t) k \<Longrightarrow> k < 3"
    by (cases t) (simp, simp only: ept_memory_raw.simps six bit_push_bit_iff bit_mask_iff, linarith)
qed

lemma bit_ept_leaf:
  assumes "ept_leaf_entry_4k_new h p t c = Inr raw"
  shows "bit raw n \<longleftrightarrow> (if n = 0 then ep_read p else if n = 1 then ep_write p else if n = 2 then ep_execute p
    else if n < 6 then bit (ept_memory_raw t) (n - 3) else bit (hpa_get h) n)"
proof -
  obtain a b where ab: "validate_ept_page_address h = Inr a" "encode_ept_permissions p c = Inr b"
      "raw = a OR b OR leaf_encoding t"
    using assms by (auto simp: ept_leaf_entry_4k_new_def split: sum.splits if_splits)
  have b: "bit b n \<longleftrightarrow> n = 0 \<and> ep_read p \<or> n = 1 \<and> ep_write p \<or> n = 2 \<and> ep_execute p"
    using ab(2) by (auto simp: encode_ept_permissions_ok bit_simps)
  have l: "bit (leaf_encoding t) n \<longleftrightarrow> 3 \<le> n \<and> bit (ept_memory_raw t) (n - 3)"
    using bit_imp_le_length [of "ept_memory_raw t" "n - 3"] ept_memory_bits [of t "n - 3"]
    by (auto simp: leaf_encoding_def bit_push_bit_iff)
  have a: "bit a n \<Longrightarrow> 12 \<le> n"
    using validate_ept_page_address_ok(2) [OF ab(1)] by blast
  show ?thesis
    unfolding ab(3) bit_or_iff b l using a ept_memory_bits [of t "n - 3"] validate_ept_page_address_ok(1) [OF ab(1)] by auto
qed

definition ept_leaf_allowed :: "host_physical \<Rightarrow> ept_permissions \<Rightarrow> ept_memory_type \<Rightarrow> ept_capabilities \<Rightarrow> bool" where
  "ept_leaf_allowed h p t c \<longleftrightarrow>
     hpa_get h mod 4096 = 0 \<and> hpa_get h AND NOT EPT_PAGE_ADDRESS_MASK = 0
     \<and> (ep_read p \<or> \<not> ep_write p \<and> ep_execute p \<and> supports_execute_only c) \<and> supports_memory_type c t"

lemma ept_leaf_accepts: "(\<exists>raw. ept_leaf_entry_4k_new h p t c = Inr raw) \<longleftrightarrow> ept_leaf_allowed h p t c"
  by (auto simp: ept_leaf_allowed_def ept_leaf_entry_4k_new_def validate_ept_page_address_def Let_def
      encode_ept_permissions_def)

section \<open>The plan is a map plan\<close>

definition ept_wf :: "ept_map_plan \<Rightarrow> bool" where
  "ept_wf s \<longleftrightarrow> filled (ept_slots s) (ept_len s)"

definition ept_overlaps :: "ept_mapping \<Rightarrow> ept_mapping \<Rightarrow> bool" where
  "ept_overlaps m x \<longleftrightarrow>
     gpa_get (em_guest_physical m) < ept_end x \<and> gpa_get (em_guest_physical x) < ept_end m"

definition ept_admits :: "ept_map_plan \<Rightarrow> ept_mapping \<Rightarrow> bool" where
  "ept_admits s m \<longleftrightarrow>
     length (ept_mappings s) < length (ept_slots s) \<and> (\<forall>x \<in> set (ept_mappings s). \<not> ept_overlaps m x)"

lemma ept_overlap_scan_ok: "ept_overlap_scan m xs = Inr u \<longleftrightarrow> (\<forall>x \<in> set xs. \<not> ept_overlaps m x)"
  by (induction xs) (auto simp: ept_overlaps_def)

lemma ept_contains_perms [simp]: "ept_contains (m\<lparr>em_permissions := p\<rparr>) = ept_contains m"
  by (simp add: fun_eq_iff ept_contains_def ept_end_def)

lemma ept_map_outcome:
  assumes "ept_wf s"
  shows "case ept_map s m of
      (Inl e, s') \<Rightarrow> \<not> ept_admits s m \<and> s' = s
    | (Inr _, s') \<Rightarrow> ept_admits s m \<and> ept_wf s' \<and> ept_mappings s' = ept_mappings s @ [m]"
  using assms filled_push [of "ept_slots s" "ept_len s" m] ept_overlap_scan_ok [of m "ept_mappings s"]
  by (auto simp: ept_map_def ept_admits_def length_live ept_reject_overlap_def ept_wf_def ept_mappings_def
      split: sum.split)

lemma ept_set_permissions_outcome:
  assumes "ept_wf s"
  shows "case ept_set_permissions s a p of
      (Inl e, s') \<Rightarrow> (\<forall>m \<in> set (ept_mappings s). \<not> ept_contains m a) \<and> s' = s
    | (Inr old, s') \<Rightarrow> ept_wf s' \<and> (\<exists>us m vs. ept_mappings s = us @ m # vs \<and> ept_contains m a
        \<and> (\<forall>x \<in> set us. \<not> ept_contains x a) \<and> old = em_permissions m
        \<and> ept_mappings s' = us @ m\<lparr>em_permissions := p\<rparr> # vs)"
  using assms unfolding ept_wf_def
  by (cases rule: update_live_cases [where P = "\<lambda>m. ept_contains m a" and f = "\<lambda>m. m\<lparr>em_permissions := p\<rparr>"])
    (auto simp: ept_set_permissions_def ept_mappings_def)

interpretation ept: map_plan ept_wf ept_mappings ept_admits ept_map ept_lookup ept_set_permissions ept_contains
  em_permissions "\<lambda>p m. m\<lparr>em_permissions := p\<rparr>"
proof unfold_locales
  fix s m x a assume "ept_admits s m" "x \<in> set (ept_mappings s)"
  then show "\<not> (ept_contains x a \<and> ept_contains m a)"
    by (auto simp: ept_admits_def ept_overlaps_def ept_contains_def)
qed (simp_all add: ept_map_outcome ept_set_permissions_outcome ept_lookup_def)

lemma ept_new_wf: "ept_wf (ept_plan_new n)" "ept_mappings (ept_plan_new n) = []"
  by (simp_all add: ept_wf_def ept_plan_new_def ept_mappings_def)

lemmas ept_reach = ept.reach_exclusive [OF _ ept_new_wf]

lemma ept_qualification_round_trip [simp]: "ept_qualification_access (ept_qualification_for_access acc) = Inr acc"
  by (cases acc) (simp_all add: ept_qualification_access_def)

lemma ept_violation_lookup:
  "handle_ept_violation s a (ept_qualification_for_access acc) =
     (case ept_lookup s a of
        None \<Rightarrow> Inr EptMissingMapping
      | Some m \<Rightarrow> Inr (if ept_allows (em_permissions m) acc then EptUnexpectedAccess else EptResumeAfterPermissionChange))"
  by (auto simp: handle_ept_violation_def split: option.split)

text \<open>
  A mapping of the last page of the address space: its end wraps to 0, so it contains no address
  and overlaps nothing; it is accepted any number of times and never found.
\<close>

lemma ept_top_page_is_lost:
  assumes "ept_end m = 0"
  shows "\<not> ept_contains m a" "\<not> ept_overlaps m x" "\<not> ept_overlaps x m"
  using assms by (simp_all add: ept_contains_def ept_overlaps_def)

section \<open>Properties of the EPT\<close>

text \<open>
  C25. A 4 KiB EPT leaf says what was asked for: a leaf is built exactly for page-aligned addresses
  inside the architectural field, readable permissions (or execute-only ones on a CPU that has
  them) and a supported memory type, and its address field, its three permission bits and its
  memory type field then decode to the arguments. No leaf grants write without read.
\<close>

theorem ept_leaf_decodes:
  "case ept_leaf_entry_4k_new h p t c of
     Inl e \<Rightarrow> \<not> ept_leaf_allowed h p t c
   | Inr raw \<Rightarrow> ept_leaf_allowed h p t c \<and> raw AND EPT_PAGE_ADDRESS_MASK = hpa_get h
       \<and> bit raw 0 = ep_read p \<and> bit raw 1 = ep_write p \<and> bit raw 2 = ep_execute p
       \<and> drop_bit 3 raw AND 7 = ept_memory_raw t"
proof (cases "ept_leaf_entry_4k_new h p t c")
  case (Inl e)
  then show ?thesis
    using ept_leaf_accepts [of h p t c] by auto
next
  case (Inr raw)
  note bits = bit_ept_leaf [OF Inr]
  obtain a where a: "validate_ept_page_address h = Inr a"
    using Inr by (auto simp: ept_leaf_entry_4k_new_def split: sum.splits)
  have "raw AND EPT_PAGE_ADDRESS_MASK = hpa_get h"
  proof (rule bit_word_eqI)
    fix n assume "n < LENGTH(64)"
    then show "bit (raw AND EPT_PAGE_ADDRESS_MASK) n = bit (hpa_get h) n"
      using validate_ept_page_address_ok(1) [OF a] validate_ept_page_address_ok(2) [OF a, of n]
      by (auto simp: bit_and_iff ept_address_mask bit_push_bit_iff bit_mask_iff bits)
  qed
  moreover have "drop_bit 3 raw AND 7 = ept_memory_raw t"
  proof (rule bit_word_eqI)
    have seven: "(7 :: u64) = mask 3" by (simp add: mask_eq_exp_minus_1)
    fix n assume "n < LENGTH(64)"
    then show "bit (drop_bit 3 raw AND 7) n = bit (ept_memory_raw t) n"
      using ept_memory_bits [of t n] unfolding seven
      by (auto simp: bit_and_iff bit_drop_bit_eq bit_mask_iff bits)
  qed
  ultimately show ?thesis
    using Inr ept_leaf_accepts [of h p t c] by (auto simp: bits)
qed

text \<open>
  The EPT plan translates exactly what was mapped: after any sequence of map and permission
  operations on an empty plan, a further map is refused, leaving the plan as it was, only when the plan is
  full or the range overlaps a mapped one, and an accepted mapping becomes the translation of
  exactly its own guest addresses.
\<close>

theorem ept_plan_exact:
  assumes "plan_reach ept_map ept_set_permissions (ept_plan_new n) s"
  shows "case ept_map s m of
      (Inl e, s') \<Rightarrow> s' = s \<and> (length (ept_slots s) \<le> length (ept_mappings s) \<or> (\<exists>x. x \<in> set (ept_mappings s) \<and> ept_overlaps m x))
    | (Inr _, s') \<Rightarrow> \<forall>a. ept_lookup s' a = (if ept_contains m a then Some m else ept_lookup s a)"
proof -
  have s: "ept_wf s" "exclusive ept_contains (ept_mappings s)"
    using ept_reach [OF assms] by simp_all
  show ?thesis
    using ept_map_outcome [OF s(1), of m] ept.lookup_add [OF s, of m]
    by (auto simp: ept_admits_def not_less split: prod.splits sum.splits)
qed

definition demo_ept_mapping :: ept_mapping where
  "demo_ept_mapping = \<lparr>em_guest_physical = GuestPhysical 0x1000, em_host_physical = HostPhysical 0x2000,
     em_page_size = Ept4K, em_permissions = EPT_READ_WRITE_EXECUTE, em_memory_type = EptWriteBack\<rparr>"

definition demo_ept_plan :: ept_map_plan where
  "demo_ept_plan = \<lparr>ept_slots = [Some demo_ept_mapping, None], ept_len = 1\<rparr>"

lemma demo_ept_map: "ept_map (ept_plan_new 2) demo_ept_mapping = (Inr (), demo_ept_plan)"
  by (simp add: ept_map_def ept_plan_new_def ept_reject_overlap_def ept_mappings_def demo_ept_plan_def numeral_2_eq_2)

theorem ept_plan_exact_witness:
  "ept_lookup demo_ept_plan (GuestPhysical 0x1800) = Some demo_ept_mapping
     \<and> ept_lookup demo_ept_plan (GuestPhysical 0x3000) = None"
proof -
  have "ept_contains demo_ept_mapping (GuestPhysical 0x1800)" "\<not> ept_contains demo_ept_mapping (GuestPhysical 0x3000)"
    by (simp_all add: ept_contains_def ept_end_def demo_ept_mapping_def)
  moreover have "ept_lookup (ept_plan_new 2) a = None" for a
    by (simp add: ept_lookup_def ept_new_wf)
  ultimately show ?thesis
    using ept_plan_exact [OF plan_reach.start, of 2 demo_ept_mapping] by (simp add: demo_ept_map)
qed

end
