(* ===== verification/Vmx_Traps.thy ===== *)
theory Vmx_Traps
  imports Vmx_Ept
begin

text \<open>
  VMX page traps (\<open>crates/aegishv-arch-x86/src/vmx/traps.rs\<close>) and VM-execution controls
  (\<open>vmx/controls.rs\<close>). A trap removes one access from an EPT mapping; its hits are resolved by a
  temporary write window or by a single step under the Monitor Trap Flag, of which a CPU has one.
\<close>

section \<open>Traps\<close>

datatype vmx_trap_kind = VmxTrapExecute | VmxTrapWrite

fun vmx_trap_access :: "vmx_trap_kind \<Rightarrow> ept_access" where
  "vmx_trap_access VmxTrapExecute = EptExecute"
| "vmx_trap_access VmxTrapWrite = EptWrite"

datatype vmx_trap_state = VmxArmed | VmxHit | VmxTemporaryWindow | VmxAwaitingSingleStep | VmxRearmed

record vmx_trap =
  vt_kind :: vmx_trap_kind
  vt_guest_physical :: guest_physical
  vt_original_permissions :: ept_permissions
  vt_armed_permissions :: ept_permissions
  vt_state :: vmx_trap_state

definition vmx_arm :: "ept_mapping \<Rightarrow> vmx_trap_kind \<Rightarrow> vmx_trap vmx_result" where
  "vmx_arm m k =
     (if \<not> ept_allows (em_permissions m) (vmx_trap_access k)
      then Inl (VmxError VmxInvalidEptMapping ''VMX trap cannot remove an access bit that is already absent'')
      else Inr \<lparr>vt_kind = k, vt_guest_physical = em_guest_physical m,
                vt_original_permissions = em_permissions m,
                vt_armed_permissions = (case k of
                    VmxTrapExecute \<Rightarrow> ept_without_execute (em_permissions m)
                  | VmxTrapWrite \<Rightarrow> ept_without_write (em_permissions m)),
                vt_state = VmxArmed\<rparr>)"

abbreviation vmx_arm_execute :: "ept_mapping \<Rightarrow> vmx_trap vmx_result" where
  "vmx_arm_execute m \<equiv> vmx_arm m VmxTrapExecute"

abbreviation vmx_arm_write :: "ept_mapping \<Rightarrow> vmx_trap vmx_result" where
  "vmx_arm_write m \<equiv> vmx_arm m VmxTrapWrite"

definition vmx_record_hit :: "vmx_trap \<Rightarrow> unit vmx_result \<times> vmx_trap" where
  "vmx_record_hit t =
     (if vt_state t \<noteq> VmxArmed \<and> vt_state t \<noteq> VmxRearmed
      then (Inl (VmxError VmxInvalidVmcsState ''VMX trap hit arrived while the trap was not armed''), t)
      else (Inr (), t\<lparr>vt_state := VmxHit\<rparr>))"

record wx_enforcement_event =
  wx_guest_physical :: guest_physical
  wx_previous_permissions :: ept_permissions
  wx_window_permissions :: ept_permissions
  wx_writable_executable :: bool

definition open_temporary_write_window :: "vmx_trap \<Rightarrow> wx_enforcement_event vmx_result \<times> vmx_trap" where
  "open_temporary_write_window t =
     (if vt_kind t \<noteq> VmxTrapWrite \<or> vt_state t \<noteq> VmxHit
      then (Inl (VmxError VmxInvalidVmcsState ''temporary write window requires a write trap hit''), t)
      else (Inr \<lparr>wx_guest_physical = vt_guest_physical t,
                 wx_previous_permissions = vt_armed_permissions t,
                 wx_window_permissions = ept_with_write (vt_original_permissions t),
                 wx_writable_executable = ep_execute (vt_original_permissions t)\<rparr>,
            t\<lparr>vt_state := VmxTemporaryWindow\<rparr>))"

record monitor_trap_flag =
  mtf_supported :: bool
  mtf_active_gpa :: "guest_physical option"

abbreviation PRIMARY_MONITOR_TRAP_FLAG :: u32 where "PRIMARY_MONITOR_TRAP_FLAG \<equiv> push_bit 27 1"

definition mtf_from_primary_controls :: "u32 \<Rightarrow> monitor_trap_flag" where
  "mtf_from_primary_controls c =
     \<lparr>mtf_supported = (c AND PRIMARY_MONITOR_TRAP_FLAG \<noteq> 0), mtf_active_gpa = None\<rparr>"

definition mtf_unsupported :: monitor_trap_flag where
  "mtf_unsupported = \<lparr>mtf_supported = False, mtf_active_gpa = None\<rparr>"

definition mtf_supported_new :: monitor_trap_flag where
  "mtf_supported_new = \<lparr>mtf_supported = True, mtf_active_gpa = None\<rparr>"

definition mtf_arm_for :: "monitor_trap_flag \<Rightarrow> guest_physical \<Rightarrow> unit vmx_result \<times> monitor_trap_flag" where
  "mtf_arm_for f gpa =
     (if \<not> mtf_supported f
      then (Inl (VmxError VmxUnsupportedCapability
              ''Monitor Trap Flag is not available in the current VMX controls''), f)
      else if mtf_active_gpa f \<noteq> None
      then (Inl (VmxError VmxInvalidVmcsState ''Monitor Trap Flag is already armed for another trap''), f)
      else (Inr (), f\<lparr>mtf_active_gpa := Some gpa\<rparr>))"

definition mtf_complete_for :: "monitor_trap_flag \<Rightarrow> guest_physical \<Rightarrow> unit vmx_result \<times> monitor_trap_flag" where
  "mtf_complete_for f gpa =
     (if mtf_active_gpa f \<noteq> Some gpa
      then (Inl (VmxError VmxInvalidVmcsState
              ''Monitor Trap Flag completion did not match the active trap''), f)
      else (Inr (), f\<lparr>mtf_active_gpa := None\<rparr>))"

definition await_single_step ::
    "vmx_trap \<Rightarrow> monitor_trap_flag \<Rightarrow> unit vmx_result \<times> vmx_trap \<times> monitor_trap_flag" where
  "await_single_step t f =
     (case mtf_arm_for f (vt_guest_physical t) of
        (Inl e, f') \<Rightarrow> (Inl e, t, f')
      | (Inr _, f') \<Rightarrow> (Inr (), t\<lparr>vt_state := VmxAwaitingSingleStep\<rparr>, f'))"

definition rearm_after_step ::
    "vmx_trap \<Rightarrow> monitor_trap_flag \<Rightarrow> unit vmx_result \<times> vmx_trap \<times> monitor_trap_flag" where
  "rearm_after_step t f =
     (case mtf_complete_for f (vt_guest_physical t) of
        (Inl e, f') \<Rightarrow> (Inl e, t, f')
      | (Inr _, f') \<Rightarrow> (Inr (), t\<lparr>vt_state := VmxRearmed\<rparr>, f'))"

section \<open>VM-execution controls\<close>

datatype vmx_control_group = PinBased | PrimaryProcessor | SecondaryProcessor | ExitControls | EntryControls

fun control_group_name :: "vmx_control_group \<Rightarrow> string" where
  "control_group_name PinBased = ''pin-based VM-execution controls''"
| "control_group_name PrimaryProcessor = ''primary processor-based VM-execution controls''"
| "control_group_name SecondaryProcessor = ''secondary processor-based VM-execution controls''"
| "control_group_name ExitControls = ''VM-exit controls''"
| "control_group_name EntryControls = ''VM-entry controls''"

record vmx_control_msr =
  cm_group :: vmx_control_group
  cm_must_be_one :: u32
  cm_allowed_one :: u32

definition control_msr_from_raw :: "vmx_control_group \<Rightarrow> u64 \<Rightarrow> vmx_control_msr" where
  "control_msr_from_raw g raw = \<lparr>cm_group = g, cm_must_be_one = ucast raw, cm_allowed_one = ucast (drop_bit 32 raw)\<rparr>"

definition control_msr_new :: "vmx_control_group \<Rightarrow> u32 \<Rightarrow> u32 \<Rightarrow> vmx_control_msr" where
  "control_msr_new g must_be_one allowed_one = \<lparr>cm_group = g, cm_must_be_one = must_be_one, cm_allowed_one = allowed_one\<rparr>"

definition control_adjust :: "vmx_control_msr \<Rightarrow> u32 \<Rightarrow> u32 vmx_result" where
  "control_adjust msr requested =
     (let adjusted = requested OR cm_must_be_one msr in
      if adjusted AND NOT (cm_allowed_one msr) \<noteq> 0
      then Inl (VmxError VmxInvalidControlBits ''VMX control request sets a bit that the CPU does not allow'')
      else Inr adjusted)"

abbreviation PIN_BASED_NMI_EXITING :: u32 where "PIN_BASED_NMI_EXITING \<equiv> push_bit 3 1"
abbreviation PIN_BASED_VMX_PREEMPTION_TIMER :: u32 where "PIN_BASED_VMX_PREEMPTION_TIMER \<equiv> push_bit 6 1"
abbreviation PRIMARY_HLT_EXITING :: u32 where "PRIMARY_HLT_EXITING \<equiv> push_bit 7 1"
abbreviation PRIMARY_UNCONDITIONAL_IO_EXITING :: u32 where "PRIMARY_UNCONDITIONAL_IO_EXITING \<equiv> push_bit 24 1"
abbreviation PRIMARY_USE_IO_BITMAPS :: u32 where "PRIMARY_USE_IO_BITMAPS \<equiv> push_bit 25 1"
abbreviation PRIMARY_USE_MSR_BITMAPS :: u32 where "PRIMARY_USE_MSR_BITMAPS \<equiv> push_bit 28 1"
abbreviation PRIMARY_ACTIVATE_SECONDARY_CONTROLS :: u32 where "PRIMARY_ACTIVATE_SECONDARY_CONTROLS \<equiv> push_bit 31 1"
abbreviation SECONDARY_ENABLE_EPT :: u32 where "SECONDARY_ENABLE_EPT \<equiv> push_bit 1 1"
abbreviation EXIT_HOST_ADDRESS_SPACE_SIZE :: u32 where "EXIT_HOST_ADDRESS_SPACE_SIZE \<equiv> push_bit 9 1"
abbreviation EXIT_SAVE_IA32_PAT :: u32 where "EXIT_SAVE_IA32_PAT \<equiv> push_bit 18 1"
abbreviation EXIT_LOAD_IA32_PAT :: u32 where "EXIT_LOAD_IA32_PAT \<equiv> push_bit 19 1"
abbreviation EXIT_SAVE_IA32_EFER :: u32 where "EXIT_SAVE_IA32_EFER \<equiv> push_bit 20 1"
abbreviation EXIT_LOAD_IA32_EFER :: u32 where "EXIT_LOAD_IA32_EFER \<equiv> push_bit 21 1"
abbreviation ENTRY_IA32E_MODE_GUEST :: u32 where "ENTRY_IA32E_MODE_GUEST \<equiv> push_bit 9 1"
abbreviation ENTRY_LOAD_IA32_PAT :: u32 where "ENTRY_LOAD_IA32_PAT \<equiv> push_bit 14 1"
abbreviation ENTRY_LOAD_IA32_EFER :: u32 where "ENTRY_LOAD_IA32_EFER \<equiv> push_bit 15 1"

abbreviation TRUE_PIN_BASED_RESERVED_DEFAULT_ONES :: u32 where "TRUE_PIN_BASED_RESERVED_DEFAULT_ONES \<equiv> 0x00000016"
abbreviation TRUE_PRIMARY_RESERVED_DEFAULT_ONES :: u32 where "TRUE_PRIMARY_RESERVED_DEFAULT_ONES \<equiv> 0x04006172"
abbreviation TRUE_EXIT_RESERVED_DEFAULT_ONES :: u32 where "TRUE_EXIT_RESERVED_DEFAULT_ONES \<equiv> 0x00036dfb"
abbreviation TRUE_ENTRY_RESERVED_DEFAULT_ONES :: u32 where "TRUE_ENTRY_RESERVED_DEFAULT_ONES \<equiv> 0x000011fb"

text \<open>\<open>VmxControlRequest\<close> and \<open>VmxControlFields\<close> have the same five words.\<close>

record vmx_control_fields =
  cf_pin_based :: u32
  cf_primary :: u32
  cf_secondary :: u32
  cf_exit :: u32
  cf_entry :: u32

definition toy_hlt_guest :: vmx_control_fields where
  "toy_hlt_guest =
     \<lparr>cf_pin_based = PIN_BASED_NMI_EXITING OR PIN_BASED_VMX_PREEMPTION_TIMER,
      cf_primary = PRIMARY_HLT_EXITING OR PRIMARY_USE_IO_BITMAPS OR PRIMARY_USE_MSR_BITMAPS
        OR PRIMARY_ACTIVATE_SECONDARY_CONTROLS,
      cf_secondary = SECONDARY_ENABLE_EPT,
      cf_exit = EXIT_HOST_ADDRESS_SPACE_SIZE OR EXIT_SAVE_IA32_PAT OR EXIT_LOAD_IA32_PAT
        OR EXIT_SAVE_IA32_EFER OR EXIT_LOAD_IA32_EFER,
      cf_entry = ENTRY_IA32E_MODE_GUEST OR ENTRY_LOAD_IA32_PAT OR ENTRY_LOAD_IA32_EFER\<rparr>"

record vmx_control_msrs =
  ms_pin_based :: vmx_control_msr
  ms_primary :: vmx_control_msr
  ms_secondary :: vmx_control_msr
  ms_exit :: vmx_control_msr
  ms_entry :: vmx_control_msr

definition adjust_all :: "vmx_control_msrs \<Rightarrow> vmx_control_fields \<Rightarrow> vmx_control_fields vmx_result" where
  "adjust_all msrs request =
     (case control_adjust (ms_pin_based msrs) (cf_pin_based request) of Inl e \<Rightarrow> Inl e | Inr pin \<Rightarrow>
     (case control_adjust (ms_primary msrs) (cf_primary request) of Inl e \<Rightarrow> Inl e | Inr primary \<Rightarrow>
     (case control_adjust (ms_secondary msrs) (cf_secondary request) of Inl e \<Rightarrow> Inl e | Inr secondary \<Rightarrow>
     (case control_adjust (ms_exit msrs) (cf_exit request) of Inl e \<Rightarrow> Inl e | Inr ex \<Rightarrow>
     (case control_adjust (ms_entry msrs) (cf_entry request) of Inl e \<Rightarrow> Inl e | Inr entry \<Rightarrow>
        Inr \<lparr>cf_pin_based = pin, cf_primary = primary, cf_secondary = secondary, cf_exit = ex,
             cf_entry = entry\<rparr>)))))"

definition supported_controls :: vmx_control_fields where
  "supported_controls =
     \<lparr>cf_pin_based = PIN_BASED_NMI_EXITING OR PIN_BASED_VMX_PREEMPTION_TIMER,
      cf_primary = PRIMARY_HLT_EXITING OR PRIMARY_UNCONDITIONAL_IO_EXITING OR PRIMARY_USE_IO_BITMAPS
        OR PRIMARY_USE_MSR_BITMAPS OR PRIMARY_ACTIVATE_SECONDARY_CONTROLS,
      cf_secondary = SECONDARY_ENABLE_EPT,
      cf_exit = EXIT_HOST_ADDRESS_SPACE_SIZE OR EXIT_SAVE_IA32_PAT OR EXIT_LOAD_IA32_PAT
        OR EXIT_SAVE_IA32_EFER OR EXIT_LOAD_IA32_EFER,
      cf_entry = ENTRY_IA32E_MODE_GUEST OR ENTRY_LOAD_IA32_PAT OR ENTRY_LOAD_IA32_EFER\<rparr>"

definition exempt_controls :: "vmx_control_msrs \<Rightarrow> bool \<Rightarrow> vmx_control_fields" where
  "exempt_controls msrs allow_mandatory_defaults =
     \<lparr>cf_pin_based = (if allow_mandatory_defaults
        then cm_must_be_one (ms_pin_based msrs) AND TRUE_PIN_BASED_RESERVED_DEFAULT_ONES else 0),
      cf_primary = (if allow_mandatory_defaults
        then cm_must_be_one (ms_primary msrs) AND TRUE_PRIMARY_RESERVED_DEFAULT_ONES else 0),
      cf_secondary = 0,
      cf_exit = (if allow_mandatory_defaults
        then cm_must_be_one (ms_exit msrs) AND TRUE_EXIT_RESERVED_DEFAULT_ONES else 0),
      cf_entry = (if allow_mandatory_defaults
        then cm_must_be_one (ms_entry msrs) AND TRUE_ENTRY_RESERVED_DEFAULT_ONES else 0)\<rparr>"

definition build_with_mandatory_defaults ::
    "vmx_control_msrs \<Rightarrow> vmx_control_fields \<Rightarrow> bool \<Rightarrow> vmx_control_fields vmx_result" where
  "build_with_mandatory_defaults msrs request allow_mandatory_defaults =
     (case adjust_all msrs request of
        Inl e \<Rightarrow> Inl e
      | Inr built \<Rightarrow>
          let supported = supported_controls; exempt = exempt_controls msrs allow_mandatory_defaults in
          if cf_pin_based built AND NOT (cf_pin_based supported) AND NOT (cf_pin_based exempt) \<noteq> 0
             \<or> cf_primary built AND NOT (cf_primary supported) AND NOT (cf_primary exempt) \<noteq> 0
             \<or> cf_secondary built AND NOT (cf_secondary supported) AND NOT (cf_secondary exempt) \<noteq> 0
             \<or> cf_exit built AND NOT (cf_exit supported) AND NOT (cf_exit exempt) \<noteq> 0
             \<or> cf_entry built AND NOT (cf_entry supported) AND NOT (cf_entry exempt) \<noteq> 0
          then Inl (VmxError VmxInvalidControlBits
                 ''CPU requires a VMX control that the toy guest runtime does not implement'')
          else Inr built)"

abbreviation build_controls :: "vmx_control_msrs \<Rightarrow> vmx_control_fields \<Rightarrow> vmx_control_fields vmx_result" where
  "build_controls msrs request \<equiv> build_with_mandatory_defaults msrs request False"

definition build_true_controls :: "vmx_control_msrs \<Rightarrow> vmx_control_fields \<Rightarrow> vmx_control_fields vmx_result" where
  "build_true_controls msrs request = build_with_mandatory_defaults msrs request True"

section \<open>Controls\<close>

lemma and_not_eq_0: "(x :: 'a::len word) AND NOT y = 0 \<longleftrightarrow> (\<forall>n. bit x n \<longrightarrow> bit y n)"
proof
  assume "x AND NOT y = 0"
  then have "\<not> bit (x AND NOT y) n" for n by simp
  then show "\<forall>n. bit x n \<longrightarrow> bit y n"
    using bit_imp_le_length by (auto simp: bit_and_iff bit_not_iff)
qed (auto intro!: bit_word_eqI simp: bit_and_iff bit_not_iff)

text \<open>What a control word may be: the requested and the mandatory bits, all of them allowed by the CPU
  and implemented by the runtime or exempt.\<close>

definition control_ok :: "vmx_control_msr \<Rightarrow> u32 \<Rightarrow> u32 \<Rightarrow> u32 \<Rightarrow> bool" where
  "control_ok msr requested supported exempt \<longleftrightarrow>
     (\<forall>n. bit (requested OR cm_must_be_one msr) n \<longrightarrow>
        bit (cm_allowed_one msr) n \<and> (bit supported n \<or> bit exempt n))"

definition controls_ok :: "vmx_control_msrs \<Rightarrow> vmx_control_fields \<Rightarrow> bool \<Rightarrow> bool" where
  "controls_ok msrs r b \<longleftrightarrow>
     control_ok (ms_pin_based msrs) (cf_pin_based r) (cf_pin_based supported_controls) (cf_pin_based (exempt_controls msrs b))
     \<and> control_ok (ms_primary msrs) (cf_primary r) (cf_primary supported_controls) (cf_primary (exempt_controls msrs b))
     \<and> control_ok (ms_secondary msrs) (cf_secondary r) (cf_secondary supported_controls) (cf_secondary (exempt_controls msrs b))
     \<and> control_ok (ms_exit msrs) (cf_exit r) (cf_exit supported_controls) (cf_exit (exempt_controls msrs b))
     \<and> control_ok (ms_entry msrs) (cf_entry r) (cf_entry supported_controls) (cf_entry (exempt_controls msrs b))"

lemma control_adjust_ok: "control_adjust msr r = Inr v \<longleftrightarrow>
    v = r OR cm_must_be_one msr \<and> (\<forall>n. bit v n \<longrightarrow> bit (cm_allowed_one msr) n)"
  unfolding and_not_eq_0 [symmetric] by (auto simp: control_adjust_def Let_def)

lemma control_adjust_kind: "control_adjust msr r = Inl e \<Longrightarrow> vmx_kind e = VmxInvalidControlBits"
  by (auto simp: control_adjust_def Let_def split: if_splits)

lemma control_ok_alt:
  "control_ok msr r su ex \<longleftrightarrow> (\<exists>v. control_adjust msr r = Inr v \<and> v AND NOT su AND NOT ex = 0)"
proof -
  have "v AND NOT su AND NOT ex = v AND NOT (su OR ex)" for v
    by (auto intro!: bit_word_eqI simp: bit_and_iff bit_or_iff bit_not_iff)
  then have "v AND NOT su AND NOT ex = 0 \<longleftrightarrow> (\<forall>n. bit v n \<longrightarrow> bit su n \<or> bit ex n)" for v
    by (simp only: and_not_eq_0 bit_or_iff)
  then show ?thesis
    by (auto simp: control_ok_def control_adjust_ok)
qed

text \<open>
  C30. The control words handed to the CPU are exact: for either kind of capability MSRs, the five words are built
  if and only if each of them, requested and mandatory bits together, only sets bits that the CPU
  allows and that the runtime implements (or that are reserved mandatory defaults); the result is
  then just these bits, and every refusal is an invalid-control error.
\<close>

theorem controls_exact:
  "case build_with_mandatory_defaults msrs r b of
     Inl e \<Rightarrow> \<not> controls_ok msrs r b \<and> vmx_kind e = VmxInvalidControlBits
   | Inr f \<Rightarrow> controls_ok msrs r b \<and> f =
       \<lparr>cf_pin_based = cf_pin_based r OR cm_must_be_one (ms_pin_based msrs),
        cf_primary = cf_primary r OR cm_must_be_one (ms_primary msrs),
        cf_secondary = cf_secondary r OR cm_must_be_one (ms_secondary msrs),
        cf_exit = cf_exit r OR cm_must_be_one (ms_exit msrs),
        cf_entry = cf_entry r OR cm_must_be_one (ms_entry msrs)\<rparr>"
proof (cases "adjust_all msrs r")
  case (Inl e)
  then show ?thesis
    by (auto simp: build_with_mandatory_defaults_def adjust_all_def controls_ok_def control_ok_alt control_adjust_kind
        split: sum.splits)
next
  case (Inr v)
  then have v: "control_adjust (ms_pin_based msrs) (cf_pin_based r) = Inr (cf_pin_based v)"
      "control_adjust (ms_primary msrs) (cf_primary r) = Inr (cf_primary v)"
      "control_adjust (ms_secondary msrs) (cf_secondary r) = Inr (cf_secondary v)"
      "control_adjust (ms_exit msrs) (cf_exit r) = Inr (cf_exit v)"
      "control_adjust (ms_entry msrs) (cf_entry r) = Inr (cf_entry v)"
    by (auto simp: adjust_all_def split: sum.splits)
  then have f: "v = \<lparr>cf_pin_based = cf_pin_based r OR cm_must_be_one (ms_pin_based msrs),
        cf_primary = cf_primary r OR cm_must_be_one (ms_primary msrs),
        cf_secondary = cf_secondary r OR cm_must_be_one (ms_secondary msrs),
        cf_exit = cf_exit r OR cm_must_be_one (ms_exit msrs),
        cf_entry = cf_entry r OR cm_must_be_one (ms_entry msrs)\<rparr>"
    by (simp add: control_adjust_ok)
  show ?thesis
    unfolding f [symmetric] using Inr v
    by (auto simp: build_with_mandatory_defaults_def controls_ok_def control_ok_alt Let_def)
qed

section \<open>Traps on a plan\<close>

lemma vmx_arm_ok:
  assumes "vmx_arm m k = Inr t"
  shows "vt_original_permissions t = em_permissions m"
    "ept_allows (vt_armed_permissions t) acc \<longleftrightarrow> acc \<noteq> vmx_trap_access k \<and> ept_allows (em_permissions m) acc"
proof -
  show "vt_original_permissions t = em_permissions m"
    using assms by (auto simp: vmx_arm_def split: if_splits)
  show "ept_allows (vt_armed_permissions t) acc \<longleftrightarrow> acc \<noteq> vmx_trap_access k \<and> ept_allows (em_permissions m) acc"
    using assms
    by (cases k; cases acc) (auto simp: vmx_arm_def ept_without_execute_def ept_without_write_def split: if_splits)
qed

text \<open>
  C13. A VMX trap takes away exactly one access and gives it back: writing the armed permissions of a
  trap into the plan makes violations of exactly the trapped access (and of accesses the mapping never had)
  on exactly the pages of its mapping, violations elsewhere are judged as before, and writing the
  original permissions back restores every translation.
\<close>

theorem vmx_trap_fires_and_restores:
  assumes "plan_reach ept_map ept_set_permissions (ept_plan_new n) s" "ept_lookup s gpa = Some m" "vmx_arm m k = Inr t"
  shows "\<exists>s1 s2. ept_set_permissions s gpa (vt_armed_permissions t) = (Inr (vt_original_permissions t), s1)
    \<and> ept_set_permissions s1 gpa (vt_original_permissions t) = (Inr (vt_armed_permissions t), s2)
    \<and> (\<forall>a acc. handle_ept_violation s1 a (ept_qualification_for_access acc) =
          (if ept_contains m a
           then Inr (if acc \<noteq> vmx_trap_access k \<and> ept_allows (em_permissions m) acc then EptUnexpectedAccess
                     else EptResumeAfterPermissionChange)
           else handle_ept_violation s a (ept_qualification_for_access acc)))
    \<and> (\<forall>a. ept_lookup s2 a = ept_lookup s a)"
proof -
  have s: "ept_wf s" "exclusive ept_contains (ept_mappings s)"
    using ept_reach [OF assms(1)] by simp_all
  obtain s1 s2 where s1: "ept_set_permissions s gpa (vt_armed_permissions t) = (Inr (em_permissions m), s1)"
      "ept_set_permissions s1 gpa (em_permissions m) = (Inr (vt_armed_permissions t), s2)"
      "\<And>b. ept_lookup s1 b = (if ept_contains m b then Some (m\<lparr>em_permissions := vt_armed_permissions t\<rparr>) else ept_lookup s b)"
      "\<And>b. ept_lookup s2 b = ept_lookup s b"
    by (rule ept.reprotect_mapped [OF s assms(2)]) blast
  have "handle_ept_violation s1 a (ept_qualification_for_access acc) =
          (if ept_contains m a
           then Inr (if acc \<noteq> vmx_trap_access k \<and> ept_allows (em_permissions m) acc then EptUnexpectedAccess
                     else EptResumeAfterPermissionChange)
           else handle_ept_violation s a (ept_qualification_for_access acc))" for a acc
    by (simp add: ept_violation_lookup s1(3) vmx_arm_ok(2) [OF assms(3)])
  then show ?thesis
    using s1 vmx_arm_ok(1) [OF assms(3)] by auto
qed

definition demo_vmx_trap :: vmx_trap where
  "demo_vmx_trap = \<lparr>vt_kind = VmxTrapExecute, vt_guest_physical = GuestPhysical 0x1000,
     vt_original_permissions = EPT_READ_WRITE_EXECUTE, vt_armed_permissions = EPT_READ_WRITE, vt_state = VmxArmed\<rparr>"

theorem vmx_trap_fires_and_restores_witness:
  "\<exists>s1. ept_set_permissions demo_ept_plan (GuestPhysical 0x1008) EPT_READ_WRITE = (Inr EPT_READ_WRITE_EXECUTE, s1)
     \<and> handle_ept_violation s1 (GuestPhysical 0x1ff0) (EptViolationQualification 4) = Inr EptResumeAfterPermissionChange
     \<and> handle_ept_violation s1 (GuestPhysical 0x1ff0) (EptViolationQualification 2) = Inr EptUnexpectedAccess"
proof -
  have reach: "plan_reach ept_map ept_set_permissions (ept_plan_new 2) demo_ept_plan"
    using plan_reach.map [OF plan_reach.start, of ept_map ept_set_permissions "ept_plan_new 2" demo_ept_mapping]
    by (simp add: demo_ept_map)
  have cov: "ept_contains demo_ept_mapping (GuestPhysical 0x1008)" "ept_contains demo_ept_mapping (GuestPhysical 0x1ff0)"
    by (simp_all add: ept_contains_def ept_end_def demo_ept_mapping_def)
  have look: "ept_lookup demo_ept_plan (GuestPhysical 0x1008) = Some demo_ept_mapping"
    using cov by (simp add: ept_lookup_def ept_mappings_def demo_ept_plan_def live_def List.map_filter_def)
  have arm: "vmx_arm demo_ept_mapping VmxTrapExecute = Inr demo_vmx_trap"
    by (simp add: vmx_arm_def demo_ept_mapping_def demo_vmx_trap_def
        ept_without_execute_def)
  have p: "ept_allows (em_permissions demo_ept_mapping) EptWrite"
    by (simp add: demo_ept_mapping_def)
  have t: "vt_armed_permissions demo_vmx_trap = EPT_READ_WRITE" "vt_original_permissions demo_vmx_trap = EPT_READ_WRITE_EXECUTE"
    by (simp_all add: demo_vmx_trap_def)
  obtain s1 where h: "ept_set_permissions demo_ept_plan (GuestPhysical 0x1008) EPT_READ_WRITE = (Inr EPT_READ_WRITE_EXECUTE, s1)"
      "\<And>acc. handle_ept_violation s1 (GuestPhysical 0x1ff0) (ept_qualification_for_access acc) =
        Inr (if acc \<noteq> EptExecute \<and> ept_allows (em_permissions demo_ept_mapping) acc then EptUnexpectedAccess
             else EptResumeAfterPermissionChange)"
    using vmx_trap_fires_and_restores [OF reach look arm] cov unfolding t by auto
  from h(1) h(2) [of EptExecute] h(2) [of EptWrite] p show ?thesis by auto
qed

section \<open>Traps that share the Monitor Trap Flag\<close>

datatype vmx_trap_op = VmxOpHit | VmxOpWindow | VmxOpAwait | VmxOpRearm

fun vmx_trap_apply :: "vmx_trap_op \<Rightarrow> vmx_trap \<Rightarrow> monitor_trap_flag \<Rightarrow> vmx_trap \<times> monitor_trap_flag" where
  "vmx_trap_apply VmxOpHit t f = (snd (vmx_record_hit t), f)"
| "vmx_trap_apply VmxOpWindow t f = (snd (open_temporary_write_window t), f)"
| "vmx_trap_apply VmxOpAwait t f = snd (await_single_step t f)"
| "vmx_trap_apply VmxOpRearm t f = snd (rearm_after_step t f)"

inductive vmx_cpu_run :: "vmx_trap list \<Rightarrow> monitor_trap_flag \<Rightarrow> vmx_trap list \<Rightarrow> monitor_trap_flag \<Rightarrow> bool"
  for ts0 f0 where
  start: "vmx_cpu_run ts0 f0 ts0 f0"
| step: "vmx_cpu_run ts0 f0 ts f \<Longrightarrow> i < length ts \<Longrightarrow> vmx_trap_apply op (ts ! i) f = (t', f')
    \<Longrightarrow> vmx_cpu_run ts0 f0 (ts[i := t']) f'"

definition mtf_inv :: "vmx_trap list \<Rightarrow> monitor_trap_flag \<Rightarrow> bool" where
  "mtf_inv ts f \<longleftrightarrow> distinct (map vt_guest_physical ts)
     \<and> (\<forall>i < length ts. vt_state (ts ! i) = VmxAwaitingSingleStep \<longleftrightarrow> mtf_active_gpa f = Some (vt_guest_physical (ts ! i)))"

lemma vmx_trap_apply_frame:
  assumes "vmx_trap_apply op t f = (t', f')"
  shows "vt_guest_physical t' = vt_guest_physical t" "vt_kind t' = vt_kind t"
    "vt_original_permissions t' = vt_original_permissions t" "vt_armed_permissions t' = vt_armed_permissions t"
  using assms
  by (cases op; auto simp: vmx_record_hit_def open_temporary_write_window_def await_single_step_def rearm_after_step_def
      split: if_splits prod.splits sum.splits)+

text \<open>A step either leaves the flag and moves a trap between states other than awaiting, or takes
  or returns the flag.\<close>

lemma vmx_trap_apply_cases:
  assumes "vmx_trap_apply op t f = (t', f')"
  obtains (idle) "f' = f" "t' = t"
  | (moved) "f' = f" "vt_state t \<noteq> VmxAwaitingSingleStep" "vt_state t' \<noteq> VmxAwaitingSingleStep"
  | (taken) "mtf_active_gpa f = None" "mtf_active_gpa f' = Some (vt_guest_physical t)" "vt_state t' = VmxAwaitingSingleStep"
  | (released) "mtf_active_gpa f = Some (vt_guest_physical t)" "mtf_active_gpa f' = None" "vt_state t' = VmxRearmed"
  using assms
  by (cases op) (auto simp: vmx_record_hit_def open_temporary_write_window_def await_single_step_def rearm_after_step_def
      mtf_arm_for_def mtf_complete_for_def split: if_splits)

lemma mtf_inv_step:
  assumes inv: "mtf_inv ts f" and i: "i < length ts" and st: "vmx_trap_apply op (ts ! i) f = (t', f')"
  shows "mtf_inv (ts[i := t']) f'"
proof -
  have gpa: "map vt_guest_physical (ts[i := t']) = map vt_guest_physical ts"
    using vmx_trap_apply_frame(1) [OF st] i by (simp add: map_update list_update_same_conv)
  have other: "vt_guest_physical (ts ! j) \<noteq> vt_guest_physical (ts ! i)" if "j < length ts" "j \<noteq> i" for j
    using inv i that by (auto simp: mtf_inv_def distinct_conv_nth)
  have "vt_state (ts[i := t'] ! j) = VmxAwaitingSingleStep \<longleftrightarrow> mtf_active_gpa f' = Some (vt_guest_physical (ts[i := t'] ! j))"
    if "j < length ts" for j
    using st
  proof (cases rule: vmx_trap_apply_cases)
  qed (use inv i that other [OF that] vmx_trap_apply_frame(1) [OF st] in \<open>auto simp: mtf_inv_def nth_list_update\<close>)
  with inv show ?thesis
    by (simp add: mtf_inv_def gpa)
qed

lemma vmx_cpu_run_inv: "vmx_cpu_run ts0 f0 ts f \<Longrightarrow> mtf_inv ts0 f0 \<Longrightarrow> mtf_inv ts f"
  by (induction rule: vmx_cpu_run.induct) (simp_all add: mtf_inv_step)

text \<open>Two traps on one page share the key of the flag: one of them can take the other's step away.\<close>

lemma traps_on_one_page_steal_the_step:
  assumes "vt_guest_physical b = vt_guest_physical a" "await_single_step a f = (Inr (), a', f')"
  shows "\<exists>b' f'' e. rearm_after_step b f' = (Inr (), b', f'') \<and> vt_state a' = VmxAwaitingSingleStep
    \<and> rearm_after_step a' f'' = (Inl e, a', f'')"
  using assms
  by (auto simp: await_single_step_def rearm_after_step_def mtf_arm_for_def mtf_complete_for_def split: if_splits)

text \<open>
  C29. One single step at a time: for traps on different pages that share a CPU's Monitor Trap Flag,
  in every interleaving of hits, windows, steps and re-arms, at most one trap waits for a single
  step; while it waits no trap can start another step, and the waiting trap can always re-arm.
\<close>

theorem vmx_single_step_exclusive:
  assumes "vmx_cpu_run ts0 f0 ts f" "distinct (map vt_guest_physical ts0)" "\<forall>t \<in> set ts0. vt_state t = VmxArmed"
    "mtf_active_gpa f0 = None" "i < length ts" "vt_state (ts ! i) = VmxAwaitingSingleStep"
  shows "(\<forall>j < length ts. vt_state (ts ! j) = VmxAwaitingSingleStep \<longrightarrow> j = i)
    \<and> (\<forall>t. fst (await_single_step t f) \<noteq> Inr ()) \<and> fst (rearm_after_step (ts ! i) f) = Inr ()"
proof -
  have "mtf_inv ts0 f0"
    using assms(2-4) by (simp add: mtf_inv_def)
  then have inv: "mtf_inv ts f"
    by (rule vmx_cpu_run_inv [OF assms(1)])
  then have act: "mtf_active_gpa f = Some (vt_guest_physical (ts ! i))"
    using assms(5,6) by (simp add: mtf_inv_def)
  have "j = i" if "j < length ts" "vt_state (ts ! j) = VmxAwaitingSingleStep" for j
    using inv act assms(5) that by (auto simp: mtf_inv_def distinct_conv_nth)
  with act show ?thesis
    by (auto simp: await_single_step_def rearm_after_step_def mtf_arm_for_def mtf_complete_for_def)
qed

theorem vmx_single_step_exclusive_witness:
  "fst (rearm_after_step (demo_vmx_trap\<lparr>vt_state := VmxAwaitingSingleStep\<rparr>)
      \<lparr>mtf_supported = True, mtf_active_gpa = Some (GuestPhysical 0x1000)\<rparr>) = Inr ()"
proof -
  let ?f = "\<lparr>mtf_supported = True, mtf_active_gpa = Some (GuestPhysical 0x1000)\<rparr>"
    and ?t = "demo_vmx_trap\<lparr>vt_state := VmxAwaitingSingleStep\<rparr>"
  have "vmx_trap_apply VmxOpAwait ([demo_vmx_trap] ! 0) mtf_supported_new = (?t, ?f)"
    by (simp add: await_single_step_def mtf_arm_for_def mtf_supported_new_def demo_vmx_trap_def)
  from vmx_cpu_run.step [OF vmx_cpu_run.start _ this]
  have "vmx_cpu_run [demo_vmx_trap] mtf_supported_new [?t] ?f" by simp
  from vmx_single_step_exclusive [OF this, of 0] show ?thesis
    by (simp add: mtf_supported_new_def demo_vmx_trap_def)
qed

end
