(* ===== verification/Svm_Npt.thy ===== *)
theory Svm_Npt
  imports Map_Plan
begin

text \<open>
  AMD SVM: feature checks (\<open>crates/aegishv-arch-x86/src/svm/features.rs\<close>), the nested page table plan
  with its protected host ranges and the handling of nested page faults (\<open>svm/npt.rs\<close>), the
  allocator of address space identifiers (\<open>svm/asid.rs\<close>) and page traps (\<open>svm/traps.rs\<close>).
\<close>

section \<open>Errors and feature checks\<close>

datatype svm_error_kind =
    SvmMissingCpuidBit
  | SvmMissingNpt
  | SvmMissingAsidCapacity
  | SvmInvalidAsid
  | SvmInvalidVmcbAddress
  | SvmInvalidVmcbState
  | SvmInvalidIntercept
  | SvmInvalidControlRegister
  | SvmUnsupportedCapability
  | SvmUnsupportedExit
  | SvmUnsupportedMsr
  | SvmUnsupportedIo
  | SvmInvalidNptMapping
  | SvmInvalidNestedPageFault
  | SvmInstructionFailed

datatype svm_error = SvmError (svm_kind: svm_error_kind) (svm_message: string)

type_synonym 'a svm_result = "svm_error + 'a"

abbreviation svm_present :: "u32 \<Rightarrow> bool" where
  "svm_present ecx \<equiv> ecx AND push_bit 2 1 \<noteq> 0"

record svm_cpuid_leaf =
  sl_ebx :: u32
  sl_edx :: u32

abbreviation asid_capacity :: "svm_cpuid_leaf \<Rightarrow> u32" where
  "asid_capacity l \<equiv> sl_ebx l"

abbreviation npt_present :: "svm_cpuid_leaf \<Rightarrow> bool" where
  "npt_present l \<equiv> sl_edx l AND push_bit 0 1 \<noteq> 0"

abbreviation flush_by_asid :: "svm_cpuid_leaf \<Rightarrow> bool" where
  "flush_by_asid l \<equiv> sl_edx l AND push_bit 6 1 \<noteq> 0"

abbreviation decode_assists :: "svm_cpuid_leaf \<Rightarrow> bool" where
  "decode_assists l \<equiv> sl_edx l AND push_bit 7 1 \<noteq> 0"

abbreviation avic_present :: "svm_cpuid_leaf \<Rightarrow> bool" where
  "avic_present l \<equiv> sl_edx l AND push_bit 13 1 \<noteq> 0"

record svm_feature_set =
  sf_svm :: bool
  sf_npt :: bool
  sf_asid_capacity :: u32
  sf_flush_by_asid :: bool
  sf_decode_assists :: bool
  sf_avic :: bool

definition svm_features_from_cpuid :: "u32 \<Rightarrow> svm_cpuid_leaf \<Rightarrow> svm_feature_set" where
  "svm_features_from_cpuid ext1_ecx l =
     \<lparr>sf_svm = svm_present ext1_ecx, sf_npt = npt_present l, sf_asid_capacity = asid_capacity l,
      sf_flush_by_asid = flush_by_asid l, sf_decode_assists = decode_assists l, sf_avic = avic_present l\<rparr>"

definition validate_for_npt_lab :: "svm_feature_set \<Rightarrow> svm_feature_set svm_result" where
  "validate_for_npt_lab f =
     (if \<not> sf_svm f
      then Inl (SvmError SvmMissingCpuidBit ''CPUID.80000001H:ECX does not expose AMD SVM support'')
      else if \<not> sf_npt f
      then Inl (SvmError SvmMissingNpt ''CPUID.8000000AH does not expose nested paging support'')
      else if sf_asid_capacity f = 0
      then Inl (SvmError SvmMissingAsidCapacity ''CPUID.8000000AH reports zero guest ASIDs'')
      else Inr f)"

abbreviation EFER_SVME :: u64 where "EFER_SVME \<equiv> push_bit 12 1"

abbreviation svme_enabled :: "u64 \<Rightarrow> bool" where
  "svme_enabled efer \<equiv> efer AND EFER_SVME \<noteq> 0"

abbreviation with_svme :: "u64 \<Rightarrow> u64" where
  "with_svme efer \<equiv> efer OR EFER_SVME"

section \<open>Nested page tables\<close>

datatype npt_page_size = Npt4K | Npt2M

fun npt_bytes :: "npt_page_size \<Rightarrow> u64" where
  "npt_bytes Npt4K = 4096"
| "npt_bytes Npt2M = 2 * 1024 * 1024"

abbreviation npt_align_down :: "npt_page_size \<Rightarrow> u64 \<Rightarrow> u64" where
  "npt_align_down sz v \<equiv> v - v mod npt_bytes sz"

record npt_permissions =
  np_read :: bool
  np_write :: bool
  np_execute :: bool

abbreviation NPT_NONE :: npt_permissions where
  "NPT_NONE \<equiv> \<lparr>np_read = False, np_write = False, np_execute = False\<rparr>"
abbreviation NPT_READ :: npt_permissions where
  "NPT_READ \<equiv> \<lparr>np_read = True, np_write = False, np_execute = False\<rparr>"
abbreviation NPT_READ_WRITE :: npt_permissions where
  "NPT_READ_WRITE \<equiv> \<lparr>np_read = True, np_write = True, np_execute = False\<rparr>"
abbreviation NPT_READ_EXECUTE :: npt_permissions where
  "NPT_READ_EXECUTE \<equiv> \<lparr>np_read = True, np_write = False, np_execute = True\<rparr>"
abbreviation NPT_READ_WRITE_EXECUTE :: npt_permissions where
  "NPT_READ_WRITE_EXECUTE \<equiv> \<lparr>np_read = True, np_write = True, np_execute = True\<rparr>"

definition npt_without_execute :: "npt_permissions \<Rightarrow> npt_permissions" where
  "npt_without_execute p = p\<lparr>np_execute := False\<rparr>"

definition npt_without_write :: "npt_permissions \<Rightarrow> npt_permissions" where
  "npt_without_write p = p\<lparr>np_write := False\<rparr>"

definition npt_with_write :: "npt_permissions \<Rightarrow> npt_permissions" where
  "npt_with_write p = p\<lparr>np_write := True\<rparr>"

datatype npt_access = NptRead | NptWrite | NptExecute

fun npt_allows :: "npt_permissions \<Rightarrow> npt_access \<Rightarrow> bool" where
  "npt_allows p NptRead = np_read p"
| "npt_allows p NptWrite = np_write p"
| "npt_allows p NptExecute = np_execute p"

record npt_mapping =
  nm_guest_physical :: guest_physical
  nm_host_physical :: host_physical
  nm_page_size :: npt_page_size
  nm_permissions :: npt_permissions

definition npt_mapping_new ::
    "guest_physical \<Rightarrow> host_physical \<Rightarrow> npt_page_size \<Rightarrow> npt_permissions \<Rightarrow> npt_mapping svm_result" where
  "npt_mapping_new gpa hpa sz p =
     (let bytes = npt_bytes sz in
      if gpa_get gpa mod bytes \<noteq> 0 \<or> hpa_get hpa mod bytes \<noteq> 0
      then Inl (SvmError SvmInvalidNptMapping
             ''NPT mapping addresses must be aligned to the selected page size'')
      else Inr \<lparr>nm_guest_physical = gpa, nm_host_physical = hpa, nm_page_size = sz, nm_permissions = p\<rparr>)"

definition npt_end :: "npt_mapping \<Rightarrow> u64" where
  "npt_end m = gpa_get (nm_guest_physical m) + npt_bytes (nm_page_size m)"

definition npt_host_end :: "npt_mapping \<Rightarrow> u64" where
  "npt_host_end m = hpa_get (nm_host_physical m) + npt_bytes (nm_page_size m)"

definition npt_contains :: "npt_mapping \<Rightarrow> guest_physical \<Rightarrow> bool" where
  "npt_contains m gpa \<longleftrightarrow> gpa_get (nm_guest_physical m) \<le> gpa_get gpa \<and> gpa_get gpa < npt_end m"

record protected_range =
  pr_range_start :: host_physical
  pr_range_length :: u64

definition protected_range_new :: "host_physical \<Rightarrow> u64 \<Rightarrow> protected_range svm_result" where
  "protected_range_new start len =
     (if len = 0
      then Inl (SvmError SvmInvalidNptMapping ''protected hypervisor range must not be empty'')
      else Inr \<lparr>pr_range_start = start, pr_range_length = len\<rparr>)"

definition protected_end :: "protected_range \<Rightarrow> u64" where
  "protected_end r = hpa_get (pr_range_start r) + pr_range_length r"

definition overlaps_mapping :: "protected_range \<Rightarrow> npt_mapping \<Rightarrow> bool" where
  "overlaps_mapping r m \<longleftrightarrow>
     hpa_get (nm_host_physical m) < protected_end r \<and> hpa_get (pr_range_start r) < npt_host_end m"

record npt_map_plan =
  npt_slots :: "npt_mapping option list"
  npt_protected :: "protected_range option list"
  npt_len :: nat
  npt_protected_len :: nat

definition npt_plan_new :: "nat \<Rightarrow> nat \<Rightarrow> npt_map_plan" where
  "npt_plan_new n p =
     \<lparr>npt_slots = replicate n None, npt_protected = replicate p None, npt_len = 0, npt_protected_len = 0\<rparr>"

abbreviation npt_is_empty :: "npt_map_plan \<Rightarrow> bool" where
  "npt_is_empty s \<equiv> npt_len s = 0"

definition npt_mappings :: "npt_map_plan \<Rightarrow> npt_mapping list" where
  "npt_mappings s = live (npt_slots s) (npt_len s)"

definition protect_hypervisor_range :: "npt_map_plan \<Rightarrow> protected_range \<Rightarrow> unit svm_result \<times> npt_map_plan" where
  "protect_hypervisor_range s r =
     (if length (npt_protected s) \<le> npt_protected_len s
      then (Inl (SvmError SvmInvalidNptMapping ''NPT protected range plan is full''), s)
      else (Inr (), s\<lparr>npt_protected := (npt_protected s)[npt_protected_len s := Some r],
                      npt_protected_len := npt_protected_len s + 1\<rparr>))"

fun npt_overlap_scan :: "npt_mapping \<Rightarrow> npt_mapping list \<Rightarrow> unit svm_result" where
  "npt_overlap_scan candidate [] = Inr ()"
| "npt_overlap_scan candidate (existing # rest) =
     (if gpa_get (nm_guest_physical candidate) < npt_end existing
         \<and> gpa_get (nm_guest_physical existing) < npt_end candidate
      then Inl (SvmError SvmInvalidNptMapping ''NPT mapping overlaps an existing guest physical range'')
      else npt_overlap_scan candidate rest)"

definition npt_reject_overlap :: "npt_map_plan \<Rightarrow> npt_mapping \<Rightarrow> unit svm_result" where
  "npt_reject_overlap s candidate = npt_overlap_scan candidate (npt_mappings s)"

fun hypervisor_overlap_scan :: "npt_mapping \<Rightarrow> protected_range list \<Rightarrow> unit svm_result" where
  "hypervisor_overlap_scan candidate [] = Inr ()"
| "hypervisor_overlap_scan candidate (r # rest) =
     (if overlaps_mapping r candidate
      then Inl (SvmError SvmInvalidNptMapping ''NPT mapping would expose protected hypervisor memory'')
      else hypervisor_overlap_scan candidate rest)"

definition npt_ranges :: "npt_map_plan \<Rightarrow> protected_range list" where
  "npt_ranges s = live (npt_protected s) (npt_protected_len s)"

definition reject_hypervisor_overlap :: "npt_map_plan \<Rightarrow> npt_mapping \<Rightarrow> unit svm_result" where
  "reject_hypervisor_overlap s candidate = hypervisor_overlap_scan candidate (npt_ranges s)"

definition npt_map :: "npt_map_plan \<Rightarrow> npt_mapping \<Rightarrow> unit svm_result \<times> npt_map_plan" where
  "npt_map s m =
     (if length (npt_slots s) \<le> npt_len s
      then (Inl (SvmError SvmInvalidNptMapping ''NPT map plan is full''), s)
      else case npt_reject_overlap s m of
        Inl e \<Rightarrow> (Inl e, s)
      | Inr _ \<Rightarrow>
         (case reject_hypervisor_overlap s m of
            Inl e \<Rightarrow> (Inl e, s)
          | Inr _ \<Rightarrow> (Inr (), s\<lparr>npt_slots := (npt_slots s)[npt_len s := Some m], npt_len := npt_len s + 1\<rparr>)))"

definition npt_lookup :: "npt_map_plan \<Rightarrow> guest_physical \<Rightarrow> npt_mapping option" where
  "npt_lookup s gpa = find (\<lambda>m. npt_contains m gpa) (npt_mappings s)"

definition npt_set_permissions ::
    "npt_map_plan \<Rightarrow> guest_physical \<Rightarrow> npt_permissions \<Rightarrow> npt_permissions svm_result \<times> npt_map_plan" where
  "npt_set_permissions s gpa p =
     (case update_live (\<lambda>m. npt_contains m gpa) (\<lambda>m. m\<lparr>nm_permissions := p\<rparr>) (npt_slots s) (npt_len s) of
        Some (m, slots) \<Rightarrow> (Inr (nm_permissions m), s\<lparr>npt_slots := slots\<rparr>)
      | None \<Rightarrow>
          (Inl (SvmError SvmInvalidNptMapping ''NPT permission update did not find a covering mapping''), s))"

section \<open>Nested page faults\<close>

record nested_page_fault =
  nf_access :: npt_access
  nf_guest_physical :: guest_physical
  nf_present :: bool
  nf_reserved_bits :: bool

definition nested_fault_decode :: "u64 \<Rightarrow> guest_physical \<Rightarrow> nested_page_fault svm_result" where
  "nested_fault_decode code gpa =
     (let access = (if code AND push_bit 4 1 \<noteq> 0 then NptExecute
                    else if code AND push_bit 1 1 \<noteq> 0 then NptWrite else NptRead)
      in Inr \<lparr>nf_access = access, nf_guest_physical = gpa, nf_present = (code AND 1 \<noteq> 0),
              nf_reserved_bits = (code AND push_bit 3 1 \<noteq> 0)\<rparr>)"

datatype nested_fault_action = NptMissingMapping | NptPermissionTrap | NptUnexpectedAccess | NptReservedBitFault

definition handle_nested_page_fault :: "npt_map_plan \<Rightarrow> nested_page_fault \<Rightarrow> nested_fault_action svm_result" where
  "handle_nested_page_fault s fault =
     (if nf_reserved_bits fault then Inr NptReservedBitFault
      else case npt_lookup s (nf_guest_physical fault) of
        None \<Rightarrow> Inr NptMissingMapping
      | Some m \<Rightarrow>
          if npt_allows (nm_permissions m) (nf_access fault) then Inr NptUnexpectedAccess
          else Inr NptPermissionTrap)"

section \<open>Address space identifiers\<close>

datatype svm_asid = SvmAsid (asid_get: u32)

definition svm_asid_new :: "u32 \<Rightarrow> svm_asid svm_result" where
  "svm_asid_new raw =
     (if raw = 0 then Inl (SvmError SvmInvalidAsid ''SVM ASID 0 is reserved'') else Inr (SvmAsid raw))"

record svm_asid_allocator =
  as_max_asid :: u32
  as_used :: "bool list"

definition asid_allocator_new :: "nat \<Rightarrow> u32 \<Rightarrow> svm_asid_allocator" where
  "asid_allocator_new n max_asid = \<lparr>as_max_asid = max_asid, as_used = replicate n False\<rparr>"

text \<open>The first free index of \<^verbatim>\<open>1..limit\<close>.\<close>

definition asid_allocate :: "svm_asid_allocator \<Rightarrow> svm_asid svm_result \<times> svm_asid_allocator" where
  "asid_allocate s =
     (let limit = min (unat (as_max_asid s)) (length (as_used s)) in
      case find (\<lambda>index. \<not> as_used s ! index) [1..<limit] of
        Some index \<Rightarrow> (svm_asid_new (of_nat index), s\<lparr>as_used := (as_used s)[index := True]\<rparr>)
      | None \<Rightarrow> (Inl (SvmError SvmMissingAsidCapacity ''SVM ASID allocator has no free ASID''), s))"

definition asid_release :: "svm_asid_allocator \<Rightarrow> svm_asid \<Rightarrow> unit svm_result \<times> svm_asid_allocator" where
  "asid_release s asid =
     (let index = unat (asid_get asid) in
      if length (as_used s) \<le> index \<or> unat (as_max_asid s) < index \<or> \<not> as_used s ! index
      then (Inl (SvmError SvmInvalidAsid ''SVM ASID release does not match an allocated ASID''), s)
      else (Inr (), s\<lparr>as_used := (as_used s)[index := False]\<rparr>))"

text \<open>Invalidations; the executor of the \<open>invlpga\<close> instruction is a parameter.\<close>

datatype svm_invalidation = WholeAsid svm_asid | SingleAddress svm_asid guest_virtual

fun invalidation_execute ::
    "('x \<Rightarrow> u64 \<Rightarrow> u32 \<Rightarrow> unit svm_result \<times> 'x) \<Rightarrow> svm_invalidation \<Rightarrow> 'x \<Rightarrow> unit svm_result \<times> 'x" where
  "invalidation_execute invlpga (WholeAsid asid) executor = invlpga executor 0 (asid_get asid)"
| "invalidation_execute invlpga (SingleAddress asid gva) executor = invlpga executor (gva_get gva) (asid_get asid)"

section \<open>Page traps\<close>

datatype svm_trap_kind = SvmTrapExecute | SvmTrapWrite

fun svm_trap_access :: "svm_trap_kind \<Rightarrow> npt_access" where
  "svm_trap_access SvmTrapExecute = NptExecute"
| "svm_trap_access SvmTrapWrite = NptWrite"

datatype svm_trap_state = SvmArmed | SvmHit | SvmTemporaryWindow | SvmRearmed

record svm_trap =
  st_kind :: svm_trap_kind
  st_guest_physical :: guest_physical
  st_original_permissions :: npt_permissions
  st_armed_permissions :: npt_permissions
  st_state :: svm_trap_state

definition svm_arm :: "npt_mapping \<Rightarrow> svm_trap_kind \<Rightarrow> svm_trap svm_result" where
  "svm_arm m k =
     (if \<not> npt_allows (nm_permissions m) (svm_trap_access k)
      then Inl (SvmError SvmInvalidNptMapping ''SVM trap cannot remove an NPT access bit that is already absent'')
      else Inr \<lparr>st_kind = k, st_guest_physical = nm_guest_physical m,
                st_original_permissions = nm_permissions m,
                st_armed_permissions = (case k of
                    SvmTrapExecute \<Rightarrow> npt_without_execute (nm_permissions m)
                  | SvmTrapWrite \<Rightarrow> npt_without_write (nm_permissions m)),
                st_state = SvmArmed\<rparr>)"

abbreviation svm_arm_execute :: "npt_mapping \<Rightarrow> svm_trap svm_result" where
  "svm_arm_execute m \<equiv> svm_arm m SvmTrapExecute"

abbreviation svm_arm_write :: "npt_mapping \<Rightarrow> svm_trap svm_result" where
  "svm_arm_write m \<equiv> svm_arm m SvmTrapWrite"

definition svm_record_hit :: "svm_trap \<Rightarrow> unit svm_result \<times> svm_trap" where
  "svm_record_hit t =
     (if st_state t \<noteq> SvmArmed \<and> st_state t \<noteq> SvmRearmed
      then (Inl (SvmError SvmInvalidVmcbState ''SVM trap hit arrived while the trap was not armed''), t)
      else (Inr (), t\<lparr>st_state := SvmHit\<rparr>))"

record svm_wx_event =
  sw_guest_physical :: guest_physical
  sw_previous_permissions :: npt_permissions
  sw_window_permissions :: npt_permissions
  sw_writable_executable :: bool

definition svm_open_write_window :: "svm_trap \<Rightarrow> svm_wx_event svm_result \<times> svm_trap" where
  "svm_open_write_window t =
     (if st_kind t \<noteq> SvmTrapWrite \<or> st_state t \<noteq> SvmHit
      then (Inl (SvmError SvmInvalidVmcbState ''SVM write window requires a write trap hit''), t)
      else (Inr \<lparr>sw_guest_physical = st_guest_physical t,
                 sw_previous_permissions = st_armed_permissions t,
                 sw_window_permissions = npt_with_write (st_original_permissions t),
                 sw_writable_executable = np_execute (st_original_permissions t)\<rparr>,
            t\<lparr>st_state := SvmTemporaryWindow\<rparr>))"

definition svm_rearm_after_step :: "svm_trap \<Rightarrow> unit svm_result \<times> svm_trap" where
  "svm_rearm_after_step t =
     (if st_state t \<noteq> SvmHit \<and> st_state t \<noteq> SvmTemporaryWindow
      then (Inl (SvmError SvmInvalidVmcbState
              ''SVM trap can only re-arm after a hit or temporary window''), t)
      else (Inr (), t\<lparr>st_state := SvmRearmed\<rparr>))"

section \<open>The plan is a map plan\<close>

definition npt_wf :: "npt_map_plan \<Rightarrow> bool" where
  "npt_wf s \<longleftrightarrow> filled (npt_slots s) (npt_len s) \<and> filled (npt_protected s) (npt_protected_len s)"

definition npt_overlaps :: "npt_mapping \<Rightarrow> npt_mapping \<Rightarrow> bool" where
  "npt_overlaps m x \<longleftrightarrow>
     gpa_get (nm_guest_physical m) < npt_end x \<and> gpa_get (nm_guest_physical x) < npt_end m"

definition npt_admits :: "npt_map_plan \<Rightarrow> npt_mapping \<Rightarrow> bool" where
  "npt_admits s m \<longleftrightarrow> length (npt_mappings s) < length (npt_slots s)
     \<and> (\<forall>x \<in> set (npt_mappings s). \<not> npt_overlaps m x) \<and> (\<forall>r \<in> set (npt_ranges s). \<not> overlaps_mapping r m)"

lemma npt_overlap_scan_ok: "npt_overlap_scan m xs = Inr u \<longleftrightarrow> (\<forall>x \<in> set xs. \<not> npt_overlaps m x)"
  by (induction xs) (auto simp: npt_overlaps_def)

lemma hypervisor_overlap_scan_ok: "hypervisor_overlap_scan m rs = Inr u \<longleftrightarrow> (\<forall>r \<in> set rs. \<not> overlaps_mapping r m)"
  by (induction rs) auto

lemma npt_perms [simp]:
  "npt_contains (m\<lparr>nm_permissions := p\<rparr>) = npt_contains m"
  "overlaps_mapping r (m\<lparr>nm_permissions := p\<rparr>) = overlaps_mapping r m"
  by (simp_all add: fun_eq_iff npt_contains_def npt_end_def overlaps_mapping_def npt_host_end_def)

lemma npt_map_outcome:
  assumes "npt_wf s"
  shows "case npt_map s m of
      (Inl e, s') \<Rightarrow> \<not> npt_admits s m \<and> s' = s
    | (Inr _, s') \<Rightarrow> npt_admits s m \<and> npt_wf s' \<and> npt_mappings s' = npt_mappings s @ [m]"
  using assms filled_push [of "npt_slots s" "npt_len s" m] npt_overlap_scan_ok [of m "npt_mappings s"]
    hypervisor_overlap_scan_ok [of m "npt_ranges s"]
  by (auto simp: npt_map_def npt_admits_def length_live npt_reject_overlap_def reject_hypervisor_overlap_def npt_wf_def
      npt_mappings_def npt_ranges_def split: sum.split)

lemma npt_set_permissions_outcome:
  assumes "npt_wf s"
  shows "case npt_set_permissions s a p of
      (Inl e, s') \<Rightarrow> (\<forall>m \<in> set (npt_mappings s). \<not> npt_contains m a) \<and> s' = s
    | (Inr old, s') \<Rightarrow> npt_wf s' \<and> (\<exists>us m vs. npt_mappings s = us @ m # vs \<and> npt_contains m a
        \<and> (\<forall>x \<in> set us. \<not> npt_contains x a) \<and> old = nm_permissions m
        \<and> npt_mappings s' = us @ m\<lparr>nm_permissions := p\<rparr> # vs)"
proof -
  have "filled (npt_slots s) (npt_len s)" using assms by (simp add: npt_wf_def)
  then show ?thesis
    using assms
    by (cases rule: update_live_cases [where P = "\<lambda>m. npt_contains m a" and f = "\<lambda>m. m\<lparr>nm_permissions := p\<rparr>"])
      (auto simp: npt_set_permissions_def npt_mappings_def npt_wf_def)
qed

interpretation npt: map_plan npt_wf npt_mappings npt_admits npt_map npt_lookup npt_set_permissions npt_contains
  nm_permissions "\<lambda>p m. m\<lparr>nm_permissions := p\<rparr>"
proof unfold_locales
  fix s m x a assume "npt_admits s m" "x \<in> set (npt_mappings s)"
  then show "\<not> (npt_contains x a \<and> npt_contains m a)"
    by (auto simp: npt_admits_def npt_overlaps_def npt_contains_def)
qed (simp_all add: npt_map_outcome npt_set_permissions_outcome npt_lookup_def)

section \<open>Protected host memory\<close>

text \<open>A plan that is set up before it is filled: ranges are protected while it has no mapping.\<close>

inductive npt_run :: "nat \<Rightarrow> nat \<Rightarrow> npt_map_plan \<Rightarrow> bool" for n p where
  start: "npt_run n p (npt_plan_new n p)"
| protect: "npt_run n p s \<Longrightarrow> npt_mappings s = [] \<Longrightarrow> npt_run n p (snd (protect_hypervisor_range s r))"
| map: "npt_run n p s \<Longrightarrow> npt_run n p (snd (npt_map s m))"
| permissions: "npt_run n p s \<Longrightarrow> npt_run n p (snd (npt_set_permissions s a q))"

definition npt_inv :: "npt_map_plan \<Rightarrow> bool" where
  "npt_inv s \<longleftrightarrow> npt_wf s \<and> exclusive npt_contains (npt_mappings s)
     \<and> (\<forall>m \<in> set (npt_mappings s). \<forall>r \<in> set (npt_ranges s). \<not> overlaps_mapping r m)"

lemma protect_outcome:
  assumes "npt_wf s"
  shows "npt_wf (snd (protect_hypervisor_range s r))"
    "npt_mappings (snd (protect_hypervisor_range s r)) = npt_mappings s"
    "fst (protect_hypervisor_range s r) = Inr () \<Longrightarrow> npt_ranges (snd (protect_hypervisor_range s r)) = npt_ranges s @ [r]"
  using assms filled_push [of "npt_protected s" "npt_protected_len s" r]
  by (auto simp: protect_hypervisor_range_def npt_wf_def npt_mappings_def npt_ranges_def)

lemma npt_map_ranges [simp]: "npt_ranges (snd (npt_map s m)) = npt_ranges s"
  "npt_ranges (snd (npt_set_permissions s a q)) = npt_ranges s"
  by (simp_all add: npt_map_def npt_set_permissions_def npt_ranges_def split: sum.split option.split prod.split)

lemma npt_run_inv: "npt_run n p s \<Longrightarrow> npt_inv s"
proof (induction rule: npt_run.induct)
  case start
  show ?case
    by (simp add: npt_inv_def npt_wf_def npt_plan_new_def npt_mappings_def npt_ranges_def)
next
  case (protect s r)
  then show ?case by (simp add: npt_inv_def protect_outcome)
next
  case (map s m)
  then have "npt_wf s" by (simp add: npt_inv_def)
  then show ?case
    using map npt.exclusive_add [of s m] npt_map_outcome [of s m] npt_map_ranges(1) [of s m]
    by (cases "npt_map s m"; cases "fst (npt_map s m)") (auto simp: npt_inv_def npt_admits_def)
next
  case (permissions s a q)
  then have "npt_wf s" by (simp add: npt_inv_def)
  then show ?case
    using permissions npt.exclusive_reprotect [of s a q] npt_set_permissions_outcome [of s a q] npt_map_ranges(2) [of s a q]
    by (cases "npt_set_permissions s a q"; cases "fst (npt_set_permissions s a q)") (auto simp: npt_inv_def)
qed

text \<open>The host address a guest address is translated to.\<close>

definition npt_translate :: "npt_mapping \<Rightarrow> guest_physical \<Rightarrow> u64" where
  "npt_translate m gpa = hpa_get (nm_host_physical m) + (gpa_get gpa - gpa_get (nm_guest_physical m))"

lemma npt_translate_inside:
  assumes "npt_contains m gpa" "unat (hpa_get (nm_host_physical m)) + unat (npt_bytes (nm_page_size m)) < 2 ^ 64"
  shows "hpa_get (nm_host_physical m) \<le> npt_translate m gpa" "npt_translate m gpa < npt_host_end m"
proof -
  let ?g = "gpa_get (nm_guest_physical m)" and ?b = "npt_bytes (nm_page_size m)" and ?h = "hpa_get (nm_host_physical m)"
  have "gpa_get gpa - ?g < ?b"
    using assms(1) unfolding npt_contains_def npt_end_def by uint_arith
  then have lt: "unat (gpa_get gpa - ?g) < unat ?b"
    by (simp add: word_less_nat_alt)
  have "unat (npt_translate m gpa) = unat ?h + unat (gpa_get gpa - ?g)"
    unfolding npt_translate_def using assms(2) lt by (intro unat_add_exact) simp
  moreover have "unat (npt_host_end m) = unat ?h + unat ?b"
    unfolding npt_host_end_def using assms(2) by (intro unat_add_exact) simp
  ultimately show "?h \<le> npt_translate m gpa" "npt_translate m gpa < npt_host_end m"
    using lt by (simp_all add: word_le_nat_alt word_less_nat_alt)
qed

text \<open>Ranges that end at the top of the address space protect nothing, and neither do ranges added too late.\<close>

lemma protected_range_to_top_is_lost:
  assumes "unat (hpa_get (pr_range_start r)) + unat (pr_range_length r) = 2 ^ 64"
  shows "\<not> overlaps_mapping r m"
proof -
  have "protected_end r = of_nat (unat (hpa_get (pr_range_start r)) + unat (pr_range_length r))"
    by (simp add: protected_end_def)
  then have "protected_end r = 0"
    unfolding assms by (simp add: word_unat_eq_iff unat_of_nat)
  then show ?thesis by (simp add: overlaps_mapping_def)
qed

lemma late_protection_keeps_exposure:
  assumes "npt_wf s" "m \<in> set (npt_mappings s)" "protect_hypervisor_range s r = (Inr (), s')"
  shows "m \<in> set (npt_mappings s') \<and> r \<in> set (npt_ranges s')"
  using protect_outcome [OF assms(1), of r] assms(2,3) by simp

section \<open>Identifiers in use\<close>

definition asid_live :: "svm_asid_allocator \<Rightarrow> nat set" where
  "asid_live s = {i. i < length (as_used s) \<and> as_used s ! i}"

lemma find_least: "find P [a..<b] = Some i \<Longrightarrow> a \<le> i \<and> i < b \<and> P i \<and> (\<forall>j \<in> {a..<i}. \<not> P j)"
  by (auto simp: find_Some_iff) (metis le_Suc_ex nat_add_left_cancel_less)

section \<open>Properties of the nested page tables\<close>


definition demo_protected :: protected_range where
  "demo_protected = \<lparr>pr_range_start = HostPhysical 0x8000, pr_range_length = 0x2000\<rparr>"

definition demo_npt_mapping :: npt_mapping where
  "demo_npt_mapping = \<lparr>nm_guest_physical = GuestPhysical 0x1000, nm_host_physical = HostPhysical 0x7000,
     nm_page_size = Npt4K, nm_permissions = NPT_READ_WRITE\<rparr>"

definition demo_npt_plan :: npt_map_plan where
  "demo_npt_plan = \<lparr>npt_slots = [Some demo_npt_mapping], npt_protected = [Some demo_protected], npt_len = 1, npt_protected_len = 1\<rparr>"

lemma demo_npt_run: "npt_run 1 1 demo_npt_plan"
proof -
  let ?s = "\<lparr>npt_slots = [None], npt_protected = [Some demo_protected], npt_len = 0, npt_protected_len = 1\<rparr>"
  have "protect_hypervisor_range (npt_plan_new 1 1) demo_protected = (Inr (), ?s)"
    by (simp add: protect_hypervisor_range_def npt_plan_new_def)
  then have "npt_run 1 1 ?s"
    using npt_run.protect [OF npt_run.start, of 1 1 demo_protected] by (simp add: npt_mappings_def npt_plan_new_def)
  moreover have "npt_map ?s demo_npt_mapping = (Inr (), demo_npt_plan)"
    by (simp add: npt_map_def npt_reject_overlap_def reject_hypervisor_overlap_def npt_mappings_def npt_ranges_def live_def
        List.map_filter_def overlaps_mapping_def npt_host_end_def protected_end_def demo_protected_def demo_npt_mapping_def demo_npt_plan_def)
  ultimately show ?thesis
    using npt_run.map [of 1 1 ?s demo_npt_mapping] by simp
qed


text \<open>
  C31. Address space identifiers are never shared: an allocation returns the least identifier of
  \<^verbatim>\<open>1..min(max_asid, N)\<close> not in use, which is never the reserved 0, and marks exactly it; it fails only when all
  are in use. Releasing it makes the allocator as it was.
\<close>

theorem asid_allocate_fresh:
  "case asid_allocate s of
     (Inl e, s') \<Rightarrow> s' = s \<and> {1..<min (unat (as_max_asid s)) (length (as_used s))} \<subseteq> asid_live s
   | (Inr a, s') \<Rightarrow> asid_get a \<noteq> 0 \<and> asid_get a < as_max_asid s \<and> unat (asid_get a) \<notin> asid_live s
       \<and> {1..<unat (asid_get a)} \<subseteq> asid_live s \<and> asid_live s' = insert (unat (asid_get a)) (asid_live s)
       \<and> fst (asid_release s' a) = Inr () \<and> asid_live (snd (asid_release s' a)) = asid_live s"
proof -
  let ?limit = "min (unat (as_max_asid s)) (length (as_used s))"
  show ?thesis
  proof (cases "find (\<lambda>index. \<not> as_used s ! index) [1..<?limit]")
    case None
    then have "{1..<?limit} \<subseteq> asid_live s"
      by (auto simp: find_None_iff asid_live_def)
    moreover have "asid_allocate s = (Inl (SvmError SvmMissingAsidCapacity ''SVM ASID allocator has no free ASID''), s)"
      unfolding asid_allocate_def Let_def None by simp
    ultimately show ?thesis by simp
  next
    case (Some i)
    then have i: "1 \<le> i" "i < unat (as_max_asid s)" "i < length (as_used s)" "\<not> as_used s ! i"
        "\<forall>j \<in> {1..<i}. as_used s ! j"
      using find_least [OF Some] by auto
    have u: "unat (of_nat i :: u32) = i"
      using i(2) unat_less_exp [of "as_max_asid s"] by (simp add: unat_of_nat)
    then have "(of_nat i :: u32) \<noteq> 0"
      using i(1) by auto
    moreover have "(of_nat i :: u32) < as_max_asid s"
      using i(2) u by (simp add: word_less_nat_alt)
    moreover have "asid_allocate s = (svm_asid_new (of_nat i), s\<lparr>as_used := (as_used s)[i := True]\<rparr>)"
      unfolding asid_allocate_def Let_def Some by simp
    ultimately show ?thesis
      using i u by (auto simp: svm_asid_new_def asid_release_def asid_live_def nth_list_update)
  qed
qed

end
