(* ===== verification/Arm_Vgic.thy ===== *)
theory Arm_Vgic
  imports Prelude
begin

text \<open>
  The virtual GICv2 of the ARM64 runtime (\<open>crates/aegishv-arch-arm64/src/vgic.rs\<close>): a distributor with
  32 shared interrupts, a CPU interface with 32 local ones for every vCPU, the choice of the next
  interrupt and the emulated register accesses. A bank of 32 interrupts has its enabled, pending
  and active bits in three words. A failed assertion of the source is the result \<open>None\<close> of the
  outer option in \<open>vgic_next\<close>, \<open>distributor_level\<close>, \<open>cpu_level\<close> and \<open>cpu_sgi\<close>.
\<close>

section \<open>State\<close>

record vgic_bank =
  vb_enabled :: u32
  vb_pending :: u32
  vb_active :: u32
  vb_priority :: "u8 list"
  vb_targets :: "u8 list"

definition bank_new :: vgic_bank where
  "bank_new = \<lparr>vb_enabled = 0, vb_pending = 0, vb_active = 0, vb_priority = replicate 32 0xa0,
     vb_targets = replicate 32 1\<rparr>"

definition bank_level :: "vgic_bank \<Rightarrow> nat \<Rightarrow> bool \<Rightarrow> vgic_bank" where
  "bank_level b i asserted =
     (if asserted then b\<lparr>vb_pending := vb_pending b OR push_bit i 1\<rparr>
      else b\<lparr>vb_pending := vb_pending b AND NOT (push_bit i 1)\<rparr>)"

record vgic_distributor =
  vd_enabled :: bool
  vd_cpus :: u8
  vd_shared :: vgic_bank

definition distributor_new :: "u8 \<Rightarrow> vgic_distributor option" where
  "distributor_new cpus =
     (if 0 < cpus \<and> cpus \<le> 8 then Some \<lparr>vd_enabled = False, vd_cpus = cpus, vd_shared = bank_new\<rparr> else None)"

definition distributor_level :: "vgic_distributor \<Rightarrow> u32 \<Rightarrow> bool \<Rightarrow> vgic_distributor option" where
  "distributor_level d i asserted =
     (if 32 \<le> i \<and> i < 64 then Some (d\<lparr>vd_shared := bank_level (vd_shared d) (unat (i - 32)) asserted\<rparr>) else None)"

definition distributor_targets :: "vgic_distributor \<Rightarrow> u32 \<Rightarrow> u8 option" where
  "distributor_targets d i =
     (if 32 \<le> i \<and> i < 64 then Some (vb_targets (vd_shared d) ! unat (i - 32)) else None)"

record vgic_cpu =
  vc_enabled :: bool
  vc_mask :: u32
  vc_local :: vgic_bank
  vc_sources :: "u8 list"

definition cpu_new :: vgic_cpu where
  "cpu_new = \<lparr>vc_enabled = False, vc_mask = 0, vc_local = bank_new, vc_sources = replicate 16 0\<rparr>"

definition cpu_level :: "vgic_cpu \<Rightarrow> u32 \<Rightarrow> bool \<Rightarrow> vgic_cpu option" where
  "cpu_level c i asserted =
     (if 16 \<le> i \<and> i < 32 then Some (c\<lparr>vc_local := bank_level (vc_local c) (unat i) asserted\<rparr>) else None)"

definition cpu_sgi :: "vgic_cpu \<Rightarrow> u32 \<Rightarrow> nat \<Rightarrow> vgic_cpu option" where
  "cpu_sgi c i source =
     (if i < 16 \<and> source < 8
      then Some (c\<lparr>vc_sources := (vc_sources c)[unat i := vc_sources c ! unat i OR push_bit source 1],
                   vc_local := (vc_local c)\<lparr>vb_pending := vb_pending (vc_local c) OR push_bit (unat i) 1\<rparr>\<rparr>)
      else None)"

section \<open>The next interrupt\<close>

text \<open>\<open>Iterator::min_by_key\<close>: the first element with the least key.\<close>

fun min_by_key :: "('a \<Rightarrow> 'b::linorder) \<Rightarrow> 'a list \<Rightarrow> 'a option" where
  "min_by_key key [] = None"
| "min_by_key key (x # xs) =
     (case min_by_key key xs of
        None \<Rightarrow> Some x
      | Some y \<Rightarrow> if key y < key x then Some y else Some x)"

definition deliverable :: "vgic_cpu \<Rightarrow> vgic_distributor \<Rightarrow> nat \<Rightarrow> nat \<Rightarrow> bool" where
  "deliverable c d cpu i =
     (let bank = (if i < 32 then vc_local c else vd_shared d); b = i mod 32
      in vb_pending bank AND vb_enabled bank AND NOT (vb_active bank) AND push_bit b 1 \<noteq> 0
         \<and> (ucast (vb_priority bank ! b) :: u32) < vc_mask c
         \<and> (i < 32 \<or> vb_targets bank ! b AND push_bit cpu 1 \<noteq> 0))"

definition interrupt_priority :: "vgic_cpu \<Rightarrow> vgic_distributor \<Rightarrow> nat \<Rightarrow> u8" where
  "interrupt_priority c d i =
     (if i < 32 then vb_priority (vc_local c) ! i else vb_priority (vd_shared d) ! (i - 32))"

definition vgic_next :: "vgic_cpu \<Rightarrow> vgic_distributor \<Rightarrow> nat \<Rightarrow> u32 option" where
  "vgic_next c d cpu =
     (if \<not> cpu < unat (vd_cpus d) then None
      else if \<not> vd_enabled d \<or> \<not> vc_enabled c then Some 1023
      else Some (case min_by_key (interrupt_priority c d) (filter (deliverable c d cpu) [0..<64]) of
                   None \<Rightarrow> 1023
                 | Some i \<Rightarrow> of_nat i))"

section \<open>Register accesses\<close>

definition trailing_zeros :: "u8 \<Rightarrow> nat" where
  "trailing_zeros w = (case find (bit w) [0..<8] of Some n \<Rightarrow> n | None \<Rightarrow> 8)"

text \<open>Choosing and updating the bank of an interrupt, \<^verbatim>\<open>if id < 32 { &mut self.local } else { &mut distributor.shared }\<close>.\<close>

definition update_bank ::
    "bool \<Rightarrow> (vgic_bank \<Rightarrow> vgic_bank) \<Rightarrow> vgic_cpu \<Rightarrow> vgic_distributor \<Rightarrow> vgic_cpu \<times> vgic_distributor" where
  "update_bank local f c d =
     (if local then (c\<lparr>vc_local := f (vc_local c)\<rparr>, d) else (c, d\<lparr>vd_shared := f (vd_shared d)\<rparr>))"

definition acknowledge ::
    "vgic_cpu \<Rightarrow> vgic_distributor \<Rightarrow> nat \<Rightarrow> (u32 \<times> vgic_cpu \<times> vgic_distributor) option" where
  "acknowledge c d cpu =
     (case vgic_next c d cpu of
        None \<Rightarrow> None
      | Some i \<Rightarrow>
          if i = 1023 then Some (i, c, d)
          else
            let b = unat (i mod 32);
                (c, d) = update_bank (i < 32) (\<lambda>bank. bank\<lparr>vb_pending := vb_pending bank AND NOT (push_bit b 1),
                  vb_active := vb_active bank OR push_bit b 1\<rparr>) c d
            in if i < 16 \<and> vc_sources c ! unat i \<noteq> 0
               then
                 let source = trailing_zeros (vc_sources c ! unat i);
                     c = c\<lparr>vc_sources := (vc_sources c)[unat i := vc_sources c ! unat i AND NOT (push_bit source 1)]\<rparr>;
                     c = (if vc_sources c ! unat i \<noteq> 0
                          then c\<lparr>vc_local := (vc_local c)\<lparr>vb_pending := vb_pending (vc_local c) OR push_bit (unat i) 1\<rparr>\<rparr>
                          else c)
                 in Some (i OR push_bit 10 (of_nat source), c, d)
               else Some (i, c, d))"

definition end_of_interrupt ::
    "vgic_cpu \<Rightarrow> vgic_distributor \<Rightarrow> u32 \<Rightarrow> vgic_cpu \<times> vgic_distributor" where
  "end_of_interrupt c d v =
     (let i = v AND 1023 in
      if i < 64
      then update_bank (i < 32) (\<lambda>bank. bank\<lparr>vb_active := vb_active bank AND NOT (push_bit (unat (i mod 32)) 1)\<rparr>) c d
      else (c, d))"

text \<open>The CPU interface page at \<open>0x08010000\<close>.\<close>

definition access_cpu_interface ::
    "vgic_cpu \<Rightarrow> vgic_distributor \<Rightarrow> nat \<Rightarrow> u64 \<Rightarrow> u32 option \<Rightarrow> u32 option \<times> vgic_cpu \<times> vgic_distributor" where
  "access_cpu_interface c d cpu offset v =
     (case v of
        Some w \<Rightarrow>
          if offset = 0 then (Some 0, c\<lparr>vc_enabled := (w AND 1 \<noteq> 0)\<rparr>, d)
          else if offset = 4 then (Some 0, c\<lparr>vc_mask := w AND 255\<rparr>, d)
          else if offset = 0x10 \<or> offset = 0x1000 then (Some 0, end_of_interrupt c d w)
          else (Some 0, c, d)
      | None \<Rightarrow>
          if offset = 0 then (Some (of_bool (vc_enabled c)), c, d)
          else if offset = 4 then (Some (vc_mask c), c, d)
          else if offset = 0xc
          then (case acknowledge c d cpu of
                  Some (r, c', d') \<Rightarrow> (Some r, c', d')
                | None \<Rightarrow> (None, c, d))
          else if offset = 0xfc then (Some 0x0202043b, c, d)
          else (Some 0, c, d))"

text \<open>The loop over the bytes of a priority or target register.\<close>

fun byte_loop :: "u8 list \<Rightarrow> nat \<Rightarrow> u32 option \<Rightarrow> nat list \<Rightarrow> u32 \<Rightarrow> u32 \<times> u8 list" where
  "byte_loop array start v [] result = (result, array)"
| "byte_loop array start v (index # indices) result =
     (let array = (case v of Some w \<Rightarrow> array[start + index := ucast (drop_bit (index * 8) w)] | None \<Rightarrow> array)
      in byte_loop array start v indices (result OR push_bit (index * 8) (ucast (array ! (start + index)))))"

definition access_bytes ::
    "vgic_cpu \<Rightarrow> vgic_distributor \<Rightarrow> nat \<Rightarrow> u64 \<Rightarrow> u32 option \<Rightarrow> nat \<Rightarrow> u32 option \<times> vgic_cpu \<times> vgic_distributor" where
  "access_bytes c d cpu offset v bytes =
     (let start = unat (offset AND 31); local = (offset AND 32 = 0) in
      if 32 < start + bytes then (None, c, d)
      else if local \<and> 0x800 \<le> offset
      then (Some (fold (\<lambda>byte word. word OR push_bit (byte * 8) (push_bit cpu 1)) [0..<bytes] 0), c, d)
      else
        let bank = (if local then vc_local c else vd_shared d);
            (result, array) = byte_loop (if offset < 0x800 then vb_priority bank else vb_targets bank) start v [0..<bytes] 0
        in (Some result, update_bank local
              (\<lambda>bank. if offset < 0x800 then bank\<lparr>vb_priority := array\<rparr> else bank\<lparr>vb_targets := array\<rparr>) c d))"

text \<open>The set and clear registers of the enabled, pending and active bits.\<close>

definition bits_written :: "u64 \<Rightarrow> u32 option \<Rightarrow> u32 \<Rightarrow> u32" where
  "bits_written register v bits =
     (case v of
        Some w \<Rightarrow> if register AND 0x80 \<noteq> 0 then bits AND NOT w else bits OR w
      | None \<Rightarrow> bits)"

definition access_bits ::
    "vgic_cpu \<Rightarrow> vgic_distributor \<Rightarrow> u64 \<Rightarrow> u64 \<Rightarrow> u32 option \<Rightarrow> u32 option \<times> vgic_cpu \<times> vgic_distributor" where
  "access_bits c d offset register v =
     (let local = (offset AND 4 = 0);
          bank = (if local then vc_local c else vd_shared d);
          bank = (if register = 0x100 \<or> register = 0x180 then bank\<lparr>vb_enabled := bits_written register v (vb_enabled bank)\<rparr>
                  else if register = 0x200 \<or> register = 0x280
                  then bank\<lparr>vb_pending := bits_written register v (vb_pending bank)\<rparr>
                  else bank\<lparr>vb_active := bits_written register v (vb_active bank)\<rparr>);
          bits = (if register = 0x100 \<or> register = 0x180 then vb_enabled bank
                  else if register = 0x200 \<or> register = 0x280 then vb_pending bank
                  else vb_active bank)
      in (Some bits, update_bank local (\<lambda>_. bank) c d))"

definition access_distributor ::
    "vgic_cpu \<Rightarrow> vgic_distributor \<Rightarrow> u64 \<Rightarrow> u32 option \<Rightarrow> u32 option \<times> vgic_cpu \<times> vgic_distributor" where
  "access_distributor c d offset v =
     (case v of
        Some w \<Rightarrow> if offset = 0 then (Some 0, c, d\<lparr>vd_enabled := (w AND 1 \<noteq> 0)\<rparr>) else (Some 0, c, d)
      | None \<Rightarrow>
          if offset = 0 then (Some (of_bool (vd_enabled d)), c, d)
          else if offset = 4 then (Some (1 OR push_bit 5 (ucast (vd_cpus d) - 1)), c, d)
          else if offset = 8 then (Some 0x0102043b, c, d)
          else if offset = 0xfe8 then (Some 0x2b, c, d)
          else (Some 0, c, d))"

definition vgic_access ::
    "vgic_cpu \<Rightarrow> vgic_distributor \<Rightarrow> nat \<Rightarrow> u64 \<Rightarrow> u32 option \<Rightarrow> nat \<Rightarrow> u32 option \<times> vgic_cpu \<times> vgic_distributor" where
  "vgic_access c d cpu address v bytes =
     (if (bytes \<noteq> 1 \<and> bytes \<noteq> 2 \<and> bytes \<noteq> 4) \<or> unat address mod bytes \<noteq> 0 \<or> unat (vd_cpus d) \<le> cpu
      then (None, c, d)
      else
        let offset = address AND 0xffff in
        if address AND NOT 0xffff = 0x08010000
        then (if bytes \<noteq> 4 then (None, c, d) else access_cpu_interface c d cpu offset v)
        else if address AND NOT 0xffff \<noteq> 0x08000000 then (None, c, d)
        else if (0x400 \<le> offset \<and> offset \<le> 0x43f) \<or> (0x800 \<le> offset \<and> offset \<le> 0x83f)
        then access_bytes c d cpu offset v bytes
        else if bytes \<noteq> 4 then (None, c, d)
        else
          let register = offset AND NOT 4 in
          if register \<in> {0x100, 0x180, 0x200, 0x280, 0x300, 0x380}
          then access_bits c d offset register v
          else access_distributor c d offset v)"

section \<open>Choosing an interrupt\<close>

lemma min_by_key_None [simp]: "min_by_key key xs = None \<longleftrightarrow> xs = []"
  by (cases xs) (auto split: option.split)

lemma min_by_key_Some:
  assumes "min_by_key key xs = Some x"
  shows "\<exists>us vs. xs = us @ x # vs \<and> (\<forall>y \<in> set us. key x < key y) \<and> (\<forall>y \<in> set vs. key x \<le> key y)"
  using assms
proof (induction xs arbitrary: x)
  case (Cons a xs)
  show ?case
  proof (cases "min_by_key key xs")
    case None
    with Cons.prems show ?thesis by (intro exI [of _ "[]"]) auto
  next
    case (Some y)
    from Cons.IH [OF Some] obtain us vs where uv: "xs = us @ y # vs" "\<forall>z \<in> set us. key y < key z" "\<forall>z \<in> set vs. key y \<le> key z"
      by blast
    show ?thesis
    proof (cases "key y < key a")
      case True
      with Cons.prems Some have "x = y" by simp
      with True uv show ?thesis by (intro exI [of _ "a # us"] exI [of _ vs]) auto
    next
      case False
      with Cons.prems Some have "x = a" by simp
      with False uv show ?thesis by (intro exI [of _ "[]"] exI [of _ xs]) (auto intro: order_trans less_imp_le)
    qed
  qed
qed simp

lemma min_by_key_least:
  assumes "min_by_key key (filter P [0..<n]) = Some i"
  shows "i < n" "P i" "j < n \<Longrightarrow> P j \<Longrightarrow> key i < key j \<or> key i = key j \<and> i \<le> j"
proof -
  obtain us vs where uv: "filter P [0..<n] = us @ i # vs" "\<forall>y \<in> set us. key i < key y" "\<forall>y \<in> set vs. key i \<le> key y"
    using min_by_key_Some [OF assms] by blast
  have "i \<in> set (filter P [0..<n])" by (simp add: uv(1))
  then show "i < n" "P i" by auto
  assume "j < n" "P j"
  then have j: "j \<in> set us \<or> j = i \<or> j \<in> set vs"
    using arg_cong [OF uv(1), of set] by auto
  have "sorted (us @ i # vs)"
    unfolding uv(1) [symmetric] by (intro sorted_wrt_filter) simp
  with j uv(2,3) show "key i < key j \<or> key i = key j \<and> i \<le> j"
    by (auto simp: sorted_append order_le_less)
qed

lemma deliverable_bits:
  "deliverable c d cpu i \<longleftrightarrow>
     (let bank = (if i < 32 then vc_local c else vd_shared d); b = i mod 32
      in bit (vb_pending bank) b \<and> bit (vb_enabled bank) b \<and> \<not> bit (vb_active bank) b
         \<and> (ucast (vb_priority bank ! b) :: u32) < vc_mask c \<and> (i < 32 \<or> bit (vb_targets bank ! b) cpu))"
proof -
  have "(x :: u32) AND y AND z AND push_bit n 1 \<noteq> 0 \<longleftrightarrow> bit x n \<and> bit y n \<and> bit z n" for x y z n
    using bit_iff_and_push_bit_not_eq_0 [of "x AND y AND z" n] by (simp add: bit_and_iff and.assoc)
  moreover have "(w :: u8) AND push_bit n 1 = 0 \<longleftrightarrow> \<not> bit w n" for w n
    using bit_iff_and_push_bit_not_eq_0 [of w n] by simp
  ultimately show ?thesis
    by (auto simp: deliverable_def Let_def bit_not_iff)
qed

lemma vgic_next_cases [consumes 1, case_names none some]:
  assumes "cpu < unat (vd_cpus d)"
  obtains (none) "vgic_next c d cpu = Some 1023"
      "vd_enabled d \<Longrightarrow> vc_enabled c \<Longrightarrow> \<forall>i < 64. \<not> deliverable c d cpu i"
  | (some) i where "vgic_next c d cpu = Some (of_nat i)" "i < 64" "vd_enabled d" "vc_enabled c" "deliverable c d cpu i"
      "\<And>j. j < 64 \<Longrightarrow> deliverable c d cpu j \<Longrightarrow> interrupt_priority c d i < interrupt_priority c d j
         \<or> interrupt_priority c d i = interrupt_priority c d j \<and> i \<le> j"
proof (cases "vd_enabled d \<and> vc_enabled c")
  case False
  with assms that(1) show thesis by (auto simp: vgic_next_def)
next
  case on: True
  show thesis
  proof (cases "min_by_key (interrupt_priority c d) (filter (deliverable c d cpu) [0..<64])")
    case None
    have "vgic_next c d cpu = Some 1023"
      using assms on unfolding vgic_next_def None by simp
    moreover have "\<forall>i < 64. \<not> deliverable c d cpu i"
      using None by (simp add: filter_empty_conv)
    ultimately show thesis using that(1) by blast
  next
    case (Some i)
    have "vgic_next c d cpu = Some (of_nat i)"
      using assms on unfolding vgic_next_def Some by simp
    with min_by_key_least [OF Some] on that(2) show thesis by blast
  qed
qed

section \<open>Acknowledging\<close>

definition active :: "vgic_cpu \<Rightarrow> vgic_distributor \<Rightarrow> nat \<Rightarrow> bool" where
  "active c d i \<longleftrightarrow> bit (vb_active (if i < 32 then vc_local c else vd_shared d)) (i mod 32)"

lemma active_not_deliverable: "active c d i \<Longrightarrow> \<not> deliverable c d cpu i"
  by (simp add: active_def deliverable_bits Let_def)

lemma unat_of_nat_small: "i < 64 \<Longrightarrow> unat (of_nat i :: u32) = i"
  by (simp add: unat_of_nat)

lemma and_1023_id: "i < 64 \<Longrightarrow> (of_nat i OR push_bit 10 s) AND 1023 = (of_nat i :: u32)"
proof -
  assume i: "i < 64"
  have m: "(1023 :: u32) = mask 10" by (simp add: mask_eq_exp_minus_1)
  have "take_bit 10 (of_nat i :: u32) = of_nat i"
    using i by (simp add: word_unat_eq_iff unsigned_take_bit_eq take_bit_nat_def unat_of_nat_small)
  then show ?thesis
    unfolding m take_bit_eq_mask [symmetric] by (simp add: take_bit_or take_bit_push_bit)
qed

lemma bit_word_set: "n < 32 \<Longrightarrow> bit ((x :: u32) OR 2 ^ b) n \<longleftrightarrow> bit x n \<or> n = b"
  by (auto simp: bit_simps)

lemma bit_word_clear: "n < 32 \<Longrightarrow> bit ((x :: u32) AND NOT (2 ^ b)) n \<longleftrightarrow> bit x n \<and> n \<noteq> b"
  by (auto simp: bit_simps)

text \<open>Two banks agree on an interrupt other than the one acknowledged.\<close>

definition same_line :: "vgic_bank \<Rightarrow> vgic_bank \<Rightarrow> nat \<Rightarrow> bool" where
  "same_line b b' n \<longleftrightarrow> (bit (vb_pending b) n = bit (vb_pending b') n) \<and> (bit (vb_enabled b) n = bit (vb_enabled b') n)
     \<and> (bit (vb_active b) n = bit (vb_active b') n) \<and> vb_priority b = vb_priority b' \<and> vb_targets b = vb_targets b'"

lemma deliverable_same:
  assumes "j < 32 \<Longrightarrow> same_line (vc_local c) (vc_local c') j" "32 \<le> j \<Longrightarrow> same_line (vd_shared d) (vd_shared d') (j mod 32)"
    "vc_mask c' = vc_mask c"
  shows "deliverable c' d' cpu j = deliverable c d cpu j"
  using assms by (auto simp: deliverable_bits Let_def same_line_def not_less)

lemma acknowledge_spec:
  assumes nx: "vgic_next c d cpu = Some (of_nat i)" and i: "i < 64"
  obtains r c' d' where "acknowledge c d cpu = Some (r, c', d')" "r AND 1023 = of_nat i" "active c' d' i"
    "\<And>j cpu'. j < 64 \<Longrightarrow> j \<noteq> i \<Longrightarrow> deliverable c' d' cpu' j = deliverable c d cpu' j"
proof -
  let ?i = "of_nat i :: u32"
  have u: "unat ?i = i" "unat (?i mod 32) = i mod 32" "?i \<noteq> 1023"
    using i by (auto simp: unat_of_nat_small unat_mod_distrib word_unat_eq_iff)
  have lt: "?i < 32 \<longleftrightarrow> i < 32" "?i < 16 \<longleftrightarrow> i < 16"
    using u(1) by (simp_all add: word_less_nat_alt)
  have rest: "j mod 32 \<noteq> i mod 32" if "j < 64" "j \<noteq> i" "i < 32 \<longleftrightarrow> j < 32" for j
    using that i by (cases "j < 32") (auto simp: le_mod_geq not_less)
  show thesis
  proof (cases "i < 32")
    case False
    let ?b = "(vd_shared d)\<lparr>vb_pending := vb_pending (vd_shared d) AND NOT (2 ^ (i mod 32)),
      vb_active := vb_active (vd_shared d) OR 2 ^ (i mod 32)\<rparr>"
    have "acknowledge c d cpu = Some (?i, c, d\<lparr>vd_shared := ?b\<rparr>)"
      using False by (simp add: acknowledge_def nx u lt Let_def update_bank_def)
    moreover have "active c (d\<lparr>vd_shared := ?b\<rparr>) i"
      using False by (simp add: active_def bit_word_set)
    moreover have "deliverable c (d\<lparr>vd_shared := ?b\<rparr>) cpu' j = deliverable c d cpu' j" if "j < 64" "j \<noteq> i" for j cpu'
      using rest [OF that] False by (intro deliverable_same) (auto simp: same_line_def bit_word_set bit_word_clear)
    ultimately show thesis
      using and_1023_id [OF i, of 0] that [of ?i c "d\<lparr>vd_shared := ?b\<rparr>"] by simp
  next
    case True
    let ?l = "vc_local c"
    obtain r p srcs where a: "acknowledge c d cpu = Some (r, c\<lparr>vc_local := ?l\<lparr>vb_pending := p, vb_active := vb_active ?l OR 2 ^ i\<rparr>,
          vc_sources := srcs\<rparr>, d)" "r AND 1023 = ?i" "\<And>n. n < 32 \<Longrightarrow> n \<noteq> i \<Longrightarrow> bit p n = bit (vb_pending ?l) n"
    proof (cases "i < 16 \<and> vc_sources c ! i \<noteq> 0")
      case False
      show thesis
        by (rule that [of ?i "vc_sources c" "vb_pending ?l AND NOT (2 ^ i)"])
          (use False True and_1023_id [OF i, of 0] in
            \<open>auto simp: acknowledge_def nx u lt Let_def update_bank_def bit_word_clear\<close>)
    next
      case src: True
      let ?s = "trailing_zeros (vc_sources c ! i)"
      let ?srcs = "(vc_sources c)[i := vc_sources c ! i AND NOT (2 ^ ?s)]"
      show thesis
        by (rule that [of "?i OR push_bit 10 (of_nat ?s)" ?srcs
              "if ?srcs ! i \<noteq> 0 then vb_pending ?l AND NOT (2 ^ i) OR 2 ^ i else vb_pending ?l AND NOT (2 ^ i)"])
          (use src True and_1023_id [OF i] in
            \<open>auto simp: acknowledge_def nx u lt Let_def update_bank_def bit_word_clear bit_word_set\<close>)
    qed
    let ?c = "c\<lparr>vc_local := ?l\<lparr>vb_pending := p, vb_active := vb_active ?l OR 2 ^ i\<rparr>, vc_sources := srcs\<rparr>"
    have "active ?c d i"
      using True by (simp add: active_def bit_word_set)
    moreover have "deliverable ?c d cpu' j = deliverable c d cpu' j" if "j < 64" "j \<noteq> i" for j cpu'
      using a(3) that by (intro deliverable_same) (auto simp: same_line_def bit_word_set)
    ultimately show thesis
      using a(1,2) that by blast
  qed
qed

section \<open>Active interrupts stay active\<close>

text \<open>The accesses that complete a shared interrupt: the two end-of-interrupt registers and the clear-active
  register.\<close>

definition releases :: "u64 \<Rightarrow> u32 option \<Rightarrow> nat \<Rightarrow> bool" where
  "releases a v i =
     (case v of
        Some w \<Rightarrow> (a = 0x08010010 \<or> a = 0x08011000) \<and> unat (w AND 1023) = i \<or> a = 0x08000384 \<and> bit w (i - 32)
      | None \<Rightarrow> False)"

lemma word_mask_parts: "(x :: 'a::len word) = (x AND NOT m) OR (x AND m)"
  by (rule bit_word_eqI) (auto simp: bit_simps)

lemma register_384: "(x :: u64) AND NOT 4 = 0x380 \<Longrightarrow> x AND 4 \<noteq> 0 \<Longrightarrow> x = 0x384"
proof -
  assume x: "x AND NOT 4 = 0x380" "x AND 4 \<noteq> 0"
  have four: "(4 :: u64) = 2 ^ 2" by simp
  have b: "bit x 2"
    using x(2) unfolding four by (simp only: and_exp_eq_0_iff_not_bit not_not)
  have "x AND 2 ^ 2 = 2 ^ 2"
    by (rule bit_word_eqI) (use b in \<open>auto simp only: bit_and_iff bit_exp_iff\<close>)
  then have "x AND 4 = 4" by simp
  with x(1) word_mask_parts [of x 4] show "x = 0x384" by simp
qed

lemma update_bank_shared:
  "vd_shared (snd (update_bank l f c d)) = (if l then vd_shared d else f (vd_shared d))"
  by (simp add: update_bank_def)

lemma acknowledge_keeps_active:
  assumes "acknowledge c d cpu = Some (r, c', d')" "bit (vb_active (vd_shared d)) n"
  shows "bit (vb_active (vd_shared d')) n"
  using assms by (auto simp: acknowledge_def Let_def update_bank_def bit_or_iff split: option.splits if_splits)

lemma end_of_interrupt_keeps:
  assumes "bit (vb_active (vd_shared d)) n" "n < 32" "unat (v AND 1023) \<noteq> n + 32"
  shows "bit (vb_active (vd_shared (snd (end_of_interrupt c d v)))) n"
proof -
  let ?i = "v AND 1023"
  have "unat (?i mod 32) \<noteq> n" if "?i < 64" "\<not> ?i < 32"
    using that assms(2,3) by (auto simp: unat_mod_distrib word_less_nat_alt le_mod_geq)
  with assms(1,2) show ?thesis
    by (auto simp: end_of_interrupt_def Let_def update_bank_shared bit_word_clear)
qed

lemma access_bits_keeps:
  assumes "access_bits c d offset register v = (r, c', d')" "bit (vb_active (vd_shared d)) n"
    "register \<in> {0x100, 0x180, 0x200, 0x280, 0x300, 0x380}"
    "\<And>w. register = 0x380 \<Longrightarrow> offset AND 4 \<noteq> 0 \<Longrightarrow> v = Some w \<Longrightarrow> \<not> bit w n"
  shows "bit (vb_active (vd_shared d')) n"
proof -
  have n: "n < 32"
    using bit_imp_le_length [OF assms(2)] by simp
  have "bit (bits_written register v (vb_active (vd_shared d))) n" if "register \<in> {0x300, 0x380}" "offset AND 4 \<noteq> 0"
    using that assms(2,4) n by (auto simp: bits_written_def bit_or_iff bit_and_iff bit_not_iff split: option.split)
  with assms(1-3) show ?thesis
    by (auto simp: access_bits_def Let_def update_bank_def split: if_splits)
qed

lemma cpu_interface_keeps:
  assumes "access_cpu_interface c d cpu offset v = (r, c', d')" "bit (vb_active (vd_shared d)) n"
    "\<And>w. offset = 0x10 \<or> offset = 0x1000 \<Longrightarrow> v = Some w \<Longrightarrow> unat (w AND 1023) \<noteq> n + 32"
  shows "bit (vb_active (vd_shared d')) n"
proof (cases v)
  case None
  with assms(1,2) show ?thesis
    by (auto simp: access_cpu_interface_def acknowledge_keeps_active split: if_splits option.splits)
next
  case (Some w)
  have "n < 32"
    using bit_imp_le_length [OF assms(2)] by simp
  with Some assms end_of_interrupt_keeps [OF assms(2), of w c] show ?thesis
    by (auto simp: access_cpu_interface_def split: if_splits)
qed

lemma access_bytes_keeps: "access_bytes c d cpu offset v n = (r, c', d') \<Longrightarrow> vb_active (vd_shared d') = vb_active (vd_shared d)"
  by (auto simp: access_bytes_def Let_def update_bank_def split: if_splits prod.splits)

lemma access_distributor_keeps: "access_distributor c d offset v = (r, c', d') \<Longrightarrow> vd_shared d' = vd_shared d"
  by (auto simp: access_distributor_def split: if_splits option.splits)

lemma shared_active_kept:
  assumes ac: "vgic_access c d cpu a v n = (r, c', d')" and act: "bit (vb_active (vd_shared d)) k"
    and nr: "\<not> releases a v (k + 32)"
  shows "bit (vb_active (vd_shared d')) k"
proof -
  let ?o = "a AND 0xffff" and ?p = "a AND NOT 0xffff"
  have a: "a = ?p OR ?o" by (rule word_mask_parts)
  consider (same) "d' = d" | (cpu) "?p = 0x08010000" "access_cpu_interface c d cpu ?o v = (r, c', d')"
    | (bytes) "access_bytes c d cpu ?o v n = (r, c', d')"
    | (bits) "?p = 0x08000000" "?o AND NOT 4 \<in> {0x100, 0x180, 0x200, 0x280, 0x300, 0x380}"
        "access_bits c d ?o (?o AND NOT 4) v = (r, c', d')"
    | (dist) "access_distributor c d ?o v = (r, c', d')"
    using ac unfolding vgic_access_def Let_def by (auto split: if_splits)
  then show ?thesis
  proof cases
    case same
    with act show ?thesis by simp
  next
    case cpu
    have "unat (w AND 1023) \<noteq> k + 32" if "?o = 0x10 \<or> ?o = 0x1000" "v = Some w" for w
      using nr that a cpu(1) by (auto simp: releases_def)
    with cpu_interface_keeps [OF cpu(2) act] show ?thesis by blast
  next
    case bytes
    with act access_bytes_keeps show ?thesis by metis
  next
    case bits
    have "\<not> bit w k" if "?o AND NOT 4 = 0x380" "?o AND 4 \<noteq> 0" "v = Some w" for w
      using nr that(3) a bits(1) register_384 [OF that(1,2)] by (auto simp: releases_def)
    with access_bits_keeps [OF bits(3) act bits(2)] show ?thesis by blast
  next
    case dist
    with act access_distributor_keeps show ?thesis by metis
  qed
qed

text \<open>A run of the interrupt controller in which no access completes the interrupt: accesses of any CPU
  interface and changes of the input lines.\<close>

inductive vgic_run :: "nat \<Rightarrow> vgic_distributor \<Rightarrow> vgic_distributor \<Rightarrow> bool" for i d0 where
  start: "vgic_run i d0 d0"
| access: "vgic_run i d0 d \<Longrightarrow> vgic_access c d cpu a v n = (r, c', d') \<Longrightarrow> \<not> releases a v i \<Longrightarrow> vgic_run i d0 d'"
| level: "vgic_run i d0 d \<Longrightarrow> distributor_level d j asserted = Some d' \<Longrightarrow> vgic_run i d0 d'"

lemma vgic_run_active:
  "vgic_run (k + 32) d0 d \<Longrightarrow> bit (vb_active (vd_shared d0)) k \<Longrightarrow> bit (vb_active (vd_shared d)) k"
  by (induction rule: vgic_run.induct)
    (auto simp: shared_active_kept distributor_level_def bank_level_def split: if_splits)

lemma read_iar:
  assumes "vgic_access c d cpu 0x0801000c None 4 = (Some r, c1, d1)"
  shows "cpu < unat (vd_cpus d)" "acknowledge c d cpu = Some (r, c1, d1)"
  using assms by (auto simp: vgic_access_def access_cpu_interface_def split: if_splits option.splits)

section \<open>Properties of the interrupt controller\<close>


text \<open>
  C14. A shared interrupt has one owner: once a vCPU has acknowledged a shared interrupt that it was offered, no
  vCPU is offered it again, whatever registers are accessed and input lines change, until an access completes it;
  and the acknowledgement itself changes the deliverability of no other interrupt.
\<close>

theorem vgic_shared_single_owner:
  assumes "vgic_access c d cpu 0x0801000c None 4 = (Some r, c1, d1)" "r \<noteq> 1023" "32 \<le> unat (r AND 1023)"
    "vgic_run (unat (r AND 1023)) d1 d2"
  shows "deliverable c d cpu (unat (r AND 1023)) \<and> (\<forall>c2 cpu2. \<not> deliverable c2 d2 cpu2 (unat (r AND 1023)))
    \<and> (\<forall>j < 64. j \<noteq> unat (r AND 1023) \<longrightarrow> (\<forall>cpu2. deliverable c1 d1 cpu2 j = deliverable c d cpu2 j))"
proof -
  note iar = read_iar [OF assms(1)]
  from iar(1) show ?thesis
  proof (cases rule: vgic_next_cases [where c = c])
    case none
    with iar(2) assms(2) show ?thesis by (simp add: acknowledge_def)
  next
    case (some i)
    obtain r' c' d' where a: "acknowledge c d cpu = Some (r', c', d')" "r' AND 1023 = of_nat i" "active c' d' i"
        "\<And>j cpu'. j < 64 \<Longrightarrow> j \<noteq> i \<Longrightarrow> deliverable c' d' cpu' j = deliverable c d cpu' j"
      by (rule acknowledge_spec [OF some(1,2)]) blast
    with iar(2) have eq: "r' = r" "c' = c1" "d' = d1" by simp_all
    have i: "unat (r AND 1023) = i" "32 \<le> i"
      using a(2) eq assms(3) unat_of_nat_small [OF some(2)] by simp_all
    have "bit (vb_active (vd_shared d1)) (i - 32)"
      using a(3) i(2) some(2) by (simp add: active_def eq le_mod_geq)
    then have "bit (vb_active (vd_shared d2)) (i - 32)"
      using vgic_run_active [of "i - 32" d1 d2] assms(4) i by simp
    then have "active c2 d2 i" for c2
      using i(2) some(2) by (simp add: active_def le_mod_geq)
    then show ?thesis
      using active_not_deliverable some(5) a(4) eq i(1) by simp
  qed
qed

definition demo_vgic :: vgic_distributor where
  "demo_vgic = \<lparr>vd_enabled = True, vd_cpus = 2, vd_shared = bank_new\<lparr>vb_enabled := 2, vb_pending := 2\<rparr>\<rparr>"

definition demo_vgic_cpu :: vgic_cpu where
  "demo_vgic_cpu = cpu_new\<lparr>vc_enabled := True, vc_mask := 255\<rparr>"

lemma demo_deliverable:
  assumes "i < 64"
  shows "deliverable demo_vgic_cpu demo_vgic cpu i \<longleftrightarrow> i = 33 \<and> cpu = 0"
proof -
  have two: "bit (2 :: u32) n \<longleftrightarrow> n = 1" for n
    using bit_exp_iff [of 1 n, where 'a = u32] by auto
  have "i mod 32 = 1 \<longleftrightarrow> i = 33" if "\<not> i < 32"
    using that assms by (auto simp: le_mod_geq)
  with two [of "i mod 32"] show ?thesis
    by (auto simp: deliverable_bits demo_vgic_def demo_vgic_cpu_def bank_new_def cpu_new_def Let_def bit_1_iff)
qed

lemma demo_vgic_next: "vgic_next demo_vgic_cpu demo_vgic 0 = Some 33" "vgic_next demo_vgic_cpu demo_vgic 1 = Some 1023"
proof -
  have on: "0 < unat (vd_cpus demo_vgic)" "1 < unat (vd_cpus demo_vgic)" "vd_enabled demo_vgic" "vc_enabled demo_vgic_cpu"
    by (simp_all add: demo_vgic_def demo_vgic_cpu_def)
  have "\<exists>i < 64. deliverable demo_vgic_cpu demo_vgic 0 i"
    by (rule exI [of _ 33]) (simp add: demo_deliverable)
  with on(1) show "vgic_next demo_vgic_cpu demo_vgic 0 = Some 33"
    by (cases rule: vgic_next_cases [where c = demo_vgic_cpu]) (use on(3,4) demo_deliverable [of _ 0] in auto)
  from on(2) show "vgic_next demo_vgic_cpu demo_vgic 1 = Some 1023"
    by (cases rule: vgic_next_cases [where c = demo_vgic_cpu]) (use demo_deliverable in auto)
qed


theorem vgic_shared_single_owner_witness:
  "deliverable demo_vgic_cpu demo_vgic 0 33
   \<and> \<not> deliverable demo_vgic_cpu (snd (snd (vgic_access demo_vgic_cpu demo_vgic 0 0x0801000c None 4))) 0 33"
proof -
  have "0 < unat (vd_cpus demo_vgic)" by (simp add: demo_vgic_def)
  then obtain c1 d1 where a: "vgic_access demo_vgic_cpu demo_vgic 0 0x0801000c None 4 = (Some 33, c1, d1)"
    by (auto simp: vgic_access_def access_cpu_interface_def acknowledge_def demo_vgic_next update_bank_def)
  from vgic_shared_single_owner [OF a _ _ vgic_run.start] a show ?thesis by simp
qed

end
