(* ===== verification/Arm_Stage2.thy ===== *)
theory Arm_Stage2
  imports Map_Plan
begin

text \<open>
  The ARM64 backend: feature registers (\<open>crates/aegishv-arch-arm64/src/features.rs\<close>), the Stage-2 map plan
  (\<open>stage2.rs\<close>), the encodings of VTCR_EL2 and VTTBR_EL2 (\<open>vtcr.rs\<close>), TLB invalidation plans (\<open>tlbi.rs\<close>),
  the decoding of exception syndromes (\<open>esr.rs\<close>), Stage-2 page traps (\<open>traps.rs\<close>) and the virtual timer
  (\<open>timer.rs\<close>).
\<close>

section \<open>Errors and features\<close>

datatype arm_error_kind =
    ArmMissingEl2
  | ArmUnsupportedGranule
  | ArmUnsupportedIpaSize
  | ArmUnsupportedVmidWidth
  | ArmMissingGicVirtualization
  | ArmMissingSmmu
  | ArmInvalidAddress
  | ArmInvalidStage2Mapping
  | ArmInvalidVtcr
  | ArmInvalidVttbr
  | ArmInvalidEsr
  | ArmUnsupportedTrap
  | ArmUnsupportedCapability
  | ArmInvalidTimerState

datatype arm_error = ArmError (arm_kind: arm_error_kind) (arm_message: string)

type_synonym 'a arm_result = "arm_error + 'a"

datatype el2_mode = Vhe | Nvhe
datatype granule = Granule4K | Granule16K | Granule64K

fun granule_bytes :: "granule \<Rightarrow> u64" where
  "granule_bytes Granule4K = 4096"
| "granule_bytes Granule16K = 16 * 1024"
| "granule_bytes Granule64K = 64 * 1024"

datatype vmid_bits = VmidBits8 | VmidBits16

fun vmid_width :: "vmid_bits \<Rightarrow> u8" where
  "vmid_width VmidBits8 = 8"
| "vmid_width VmidBits16 = 16"

fun max_vmid :: "vmid_bits \<Rightarrow> u16" where
  "max_vmid VmidBits8 = 0xff"
| "max_vmid VmidBits16 = 0xffff"

datatype gic_virtualization = GicNone | Gicv2 | Gicv3
datatype smmu_capability = SmmuNone | Smmuv2 | Smmuv3

record arm_feature_set =
  af_has_el2 :: bool
  af_mode :: el2_mode
  af_vmid_bits :: vmid_bits
  af_ipa_bits :: u8
  af_granule_4k :: bool
  af_granule_16k :: bool
  af_granule_64k :: bool
  af_gic :: gic_virtualization
  af_smmu :: smmu_capability
  af_protected_guest :: bool

definition validate_stage2_4k :: "arm_feature_set \<Rightarrow> arm_feature_set arm_result" where
  "validate_stage2_4k f =
     (if \<not> af_has_el2 f then Inl (ArmError ArmMissingEl2 ''ARM64 EL2 is not available'')
      else if \<not> af_granule_4k f
      then Inl (ArmError ArmUnsupportedGranule ''ARM64 Stage-2 lab requires 4K granule support'')
      else if af_ipa_bits f < 32 \<or> 52 < af_ipa_bits f
      then Inl (ArmError ArmUnsupportedIpaSize ''ARM64 IPA size must be between 32 and 52 bits for this model'')
      else Inr f)"

definition validate_gic :: "arm_feature_set \<Rightarrow> arm_feature_set arm_result" where
  "validate_gic f =
     (case af_gic f of
        GicNone \<Rightarrow> Inl (ArmError ArmMissingGicVirtualization
          ''ARM64 interrupt virtualization needs a GIC virtualization model'')
      | _ \<Rightarrow> Inr f)"

definition pa_range_bits :: "u64 \<Rightarrow> u8" where
  "pa_range_bits mmfr0 =
     (let v = mmfr0 AND 0xf in
      if v = 0 then 32 else if v = 1 then 36 else if v = 2 then 40 else if v = 3 then 42
      else if v = 4 then 44 else if v = 5 then 48 else if v = 6 then 52 else 0)"

abbreviation granule_4k_supported :: "u64 \<Rightarrow> bool" where
  "granule_4k_supported mmfr0 \<equiv> drop_bit 28 mmfr0 AND 0xf = 0"

abbreviation granule_16k_supported :: "u64 \<Rightarrow> bool" where
  "granule_16k_supported mmfr0 \<equiv> drop_bit 20 mmfr0 AND 0xf \<le> 1"

abbreviation granule_64k_supported :: "u64 \<Rightarrow> bool" where
  "granule_64k_supported mmfr0 \<equiv> drop_bit 24 mmfr0 AND 0xf = 0"

abbreviation mmfr1_vmid_bits :: "u64 \<Rightarrow> vmid_bits" where
  "mmfr1_vmid_bits mmfr1 \<equiv> (if drop_bit 4 mmfr1 AND 0xf \<noteq> 0 then VmidBits16 else VmidBits8)"

abbreviation pfr0_has_el2 :: "u64 \<Rightarrow> bool" where
  "pfr0_has_el2 pfr0 \<equiv> drop_bit 8 pfr0 AND 0xf \<noteq> 0"

abbreviation pfr0_has_vhe :: "u64 \<Rightarrow> bool" where
  "pfr0_has_vhe pfr0 \<equiv> 2 \<le> drop_bit 8 pfr0 AND 0xf"

definition features_from_id_registers ::
    "u64 \<Rightarrow> u64 \<Rightarrow> u64 \<Rightarrow> gic_virtualization \<Rightarrow> smmu_capability \<Rightarrow> bool \<Rightarrow> arm_feature_set" where
  "features_from_id_registers pfr0 mmfr0 mmfr1 gic smmu protected_guest =
     \<lparr>af_has_el2 = pfr0_has_el2 pfr0, af_mode = (if pfr0_has_vhe pfr0 then Vhe else Nvhe),
      af_vmid_bits = mmfr1_vmid_bits mmfr1, af_ipa_bits = pa_range_bits mmfr0,
      af_granule_4k = granule_4k_supported mmfr0, af_granule_16k = granule_16k_supported mmfr0,
      af_granule_64k = granule_64k_supported mmfr0, af_gic = gic, af_smmu = smmu,
      af_protected_guest = protected_guest\<rparr>"

section \<open>The Stage-2 plan\<close>

datatype stage2_memory_attr = S2Device | S2NormalWriteBack
datatype stage2_shareability = NonShareable | InnerShareable | OuterShareable

record arm_permissions =
  ap_read :: bool
  ap_write :: bool
  ap_execute :: bool

abbreviation ARM_READ_WRITE_EXECUTE :: arm_permissions where
  "ARM_READ_WRITE_EXECUTE \<equiv> \<lparr>ap_read = True, ap_write = True, ap_execute = True\<rparr>"

abbreviation arm_without_execute :: "arm_permissions \<Rightarrow> arm_permissions" where
  "arm_without_execute p \<equiv> p\<lparr>ap_execute := False\<rparr>"

abbreviation arm_without_write :: "arm_permissions \<Rightarrow> arm_permissions" where
  "arm_without_write p \<equiv> p\<lparr>ap_write := False\<rparr>"

abbreviation arm_with_write :: "arm_permissions \<Rightarrow> arm_permissions" where
  "arm_with_write p \<equiv> p\<lparr>ap_write := True\<rparr>"

datatype arm_access = ArmRead | ArmWrite | ArmExecute

fun arm_allows :: "arm_permissions \<Rightarrow> arm_access \<Rightarrow> bool" where
  "arm_allows p ArmRead = ap_read p"
| "arm_allows p ArmWrite = ap_write p"
| "arm_allows p ArmExecute = ap_execute p"

record arm_mapping =
  am_ipa :: guest_physical
  am_pa :: host_physical
  am_length :: u64
  am_granule :: granule
  am_permissions :: arm_permissions
  am_attr :: stage2_memory_attr
  am_shareability :: stage2_shareability

definition arm_mapping_new ::
    "guest_physical \<Rightarrow> host_physical \<Rightarrow> u64 \<Rightarrow> granule \<Rightarrow> arm_permissions \<Rightarrow> stage2_memory_attr
      \<Rightarrow> stage2_shareability \<Rightarrow> arm_mapping arm_result" where
  "arm_mapping_new ipa pa len g p attr sh =
     (let bytes = granule_bytes g in
      if len = 0 \<or> len mod bytes \<noteq> 0 \<or> gpa_get ipa mod bytes \<noteq> 0 \<or> hpa_get pa mod bytes \<noteq> 0
      then Inl (ArmError ArmInvalidStage2Mapping ''ARM64 Stage-2 mapping must use non-empty aligned ranges'')
      else Inr \<lparr>am_ipa = ipa, am_pa = pa, am_length = len, am_granule = g, am_permissions = p,
                am_attr = attr, am_shareability = sh\<rparr>)"

definition arm_end :: "arm_mapping \<Rightarrow> u64" where
  "arm_end m = gpa_get (am_ipa m) + am_length m"

definition arm_contains :: "arm_mapping \<Rightarrow> guest_physical \<Rightarrow> bool" where
  "arm_contains m ipa \<longleftrightarrow> gpa_get (am_ipa m) \<le> gpa_get ipa \<and> gpa_get ipa < arm_end m"

record arm_map_plan =
  arm_slots :: "arm_mapping option list"
  arm_len :: nat

definition arm_plan_new :: "nat \<Rightarrow> arm_map_plan" where
  "arm_plan_new n = \<lparr>arm_slots = replicate n None, arm_len = 0\<rparr>"

definition arm_mappings :: "arm_map_plan \<Rightarrow> arm_mapping list" where
  "arm_mappings s = live (arm_slots s) (arm_len s)"

fun arm_overlap_scan :: "arm_mapping \<Rightarrow> arm_mapping list \<Rightarrow> unit arm_result" where
  "arm_overlap_scan m [] = Inr ()"
| "arm_overlap_scan m (existing # rest) =
     (if gpa_get (am_ipa m) < arm_end existing \<and> gpa_get (am_ipa existing) < arm_end m
      then Inl (ArmError ArmInvalidStage2Mapping ''ARM64 Stage-2 mapping overlaps an existing IPA range'')
      else arm_overlap_scan m rest)"

definition arm_map :: "arm_map_plan \<Rightarrow> arm_mapping \<Rightarrow> unit arm_result \<times> arm_map_plan" where
  "arm_map s m =
     (if length (arm_slots s) \<le> arm_len s
      then (Inl (ArmError ArmInvalidStage2Mapping ''ARM64 Stage-2 map plan is full''), s)
      else case arm_overlap_scan m (arm_mappings s) of
        Inl e \<Rightarrow> (Inl e, s)
      | Inr _ \<Rightarrow> (Inr (), s\<lparr>arm_slots := (arm_slots s)[arm_len s := Some m], arm_len := arm_len s + 1\<rparr>))"

definition arm_lookup :: "arm_map_plan \<Rightarrow> guest_physical \<Rightarrow> arm_mapping option" where
  "arm_lookup s ipa = find (\<lambda>m. arm_contains m ipa) (arm_mappings s)"

definition arm_set_permissions ::
    "arm_map_plan \<Rightarrow> guest_physical \<Rightarrow> arm_permissions \<Rightarrow> arm_permissions arm_result \<times> arm_map_plan" where
  "arm_set_permissions s ipa p =
     (case update_live (\<lambda>m. arm_contains m ipa) (\<lambda>m. m\<lparr>am_permissions := p\<rparr>) (arm_slots s) (arm_len s) of
        Some (m, slots) \<Rightarrow> (Inr (am_permissions m), s\<lparr>arm_slots := slots\<rparr>)
      | None \<Rightarrow> (Inl (ArmError ArmInvalidStage2Mapping
          ''ARM64 Stage-2 permission update did not find a covering mapping''), s))"

section \<open>Translation control and TLB invalidation\<close>

datatype physical_address_size = Bits32 | Bits36 | Bits40 | Bits42 | Bits44 | Bits48

definition address_size_from_bits :: "u8 \<Rightarrow> physical_address_size arm_result" where
  "address_size_from_bits bits =
     (if bits = 32 then Inr Bits32 else if bits = 36 then Inr Bits36 else if bits = 40 then Inr Bits40
      else if bits = 42 then Inr Bits42 else if bits = 44 then Inr Bits44 else if bits = 48 then Inr Bits48
      else Inl (ArmError ArmUnsupportedIpaSize ''ARM64 VTCR IPA size is not supported by the model''))"

fun ps_field :: "physical_address_size \<Rightarrow> u64" where
  "ps_field Bits32 = 0"
| "ps_field Bits36 = 1"
| "ps_field Bits40 = 2"
| "ps_field Bits42 = 3"
| "ps_field Bits44 = 4"
| "ps_field Bits48 = 5"

fun address_bits :: "physical_address_size \<Rightarrow> u8" where
  "address_bits Bits32 = 32"
| "address_bits Bits36 = 36"
| "address_bits Bits40 = 40"
| "address_bits Bits42 = 42"
| "address_bits Bits44 = 44"
| "address_bits Bits48 = 48"

record vtcr_config =
  vt_ipa_size :: physical_address_size
  vt_granule :: granule
  vt_vmid_bits :: vmid_bits
  vt_inner_shareable :: bool

definition vtcr_config_new :: "u8 \<Rightarrow> granule \<Rightarrow> vmid_bits \<Rightarrow> vtcr_config arm_result" where
  "vtcr_config_new ipa_bits g v =
     (case g of
        Granule4K \<Rightarrow>
          (case address_size_from_bits ipa_bits of
             Inl e \<Rightarrow> Inl e
           | Inr sz \<Rightarrow> Inr \<lparr>vt_ipa_size = sz, vt_granule = g, vt_vmid_bits = v, vt_inner_shareable = True\<rparr>)
      | _ \<Rightarrow> Inl (ArmError ArmUnsupportedGranule ''ARM64 VTCR model currently supports 4K Stage-2 granule''))"

definition vtcr_encode :: "vtcr_config \<Rightarrow> u64" where
  "vtcr_encode c =
     (let t0sz = 64 - ucast (address_bits (vt_ipa_size c));
          sl0 = (if address_bits (vt_ipa_size c) \<le> 39 then push_bit 6 1 else push_bit 6 2);
          sh0_inner = (if vt_inner_shareable c then push_bit 12 3 else 0);
          orgn0_wb = push_bit 10 1;
          irgn0_wb = push_bit 8 1;
          vs = (case vt_vmid_bits c of VmidBits8 \<Rightarrow> 0 | VmidBits16 \<Rightarrow> push_bit 19 1)
      in push_bit 31 1 OR t0sz OR sl0 OR irgn0_wb OR orgn0_wb OR sh0_inner
           OR push_bit 16 (ps_field (vt_ipa_size c)) OR vs)"

record vttbr =
  vb_vmid :: u16
  vb_root :: host_physical
  vb_vmid_bits :: vmid_bits

definition vttbr_new :: "u16 \<Rightarrow> host_physical \<Rightarrow> vmid_bits \<Rightarrow> vttbr arm_result" where
  "vttbr_new vmid root v =
     (if vmid = 0 \<or> max_vmid v < vmid
      then Inl (ArmError ArmInvalidVttbr ''ARM64 VTTBR VMID is outside the supported VMID width'')
      else if hpa_get root mod 4096 \<noteq> 0 \<or> push_bit 48 1 \<le> hpa_get root
      then Inl (ArmError ArmInvalidVttbr ''ARM64 VTTBR root must be 4K-aligned and below 2^48'')
      else Inr \<lparr>vb_vmid = vmid, vb_root = root, vb_vmid_bits = v\<rparr>)"

definition vttbr_encode :: "vttbr \<Rightarrow> u64" where
  "vttbr_encode t = push_bit 48 (ucast (vb_vmid t)) OR (hpa_get (vb_root t) AND 0x0000fffffffff000)"

record arm_vmid =
  vmid_raw :: u16
  vmid_bits_of :: vmid_bits

definition vmid_new :: "u16 \<Rightarrow> vmid_bits \<Rightarrow> arm_vmid arm_result" where
  "vmid_new raw v =
     (if raw = 0 \<or> max_vmid v < raw
      then Inl (ArmError ArmUnsupportedVmidWidth ''ARM64 VMID is outside the supported VMID width'')
      else Inr \<lparr>vmid_raw = raw, vmid_bits_of = v\<rparr>)"

datatype tlbi_kind = AllStage2 | TlbiVmid arm_vmid | TlbiIpa arm_vmid guest_physical

record tlbi_plan =
  tl_kind :: tlbi_kind
  tl_needs_dsb_ish :: bool
  tl_needs_isb :: bool

abbreviation tlbi_all_stage2 :: tlbi_plan where
  "tlbi_all_stage2 \<equiv> \<lparr>tl_kind = AllStage2, tl_needs_dsb_ish = True, tl_needs_isb = True\<rparr>"

abbreviation tlbi_vmid :: "arm_vmid \<Rightarrow> tlbi_plan" where
  "tlbi_vmid v \<equiv> \<lparr>tl_kind = TlbiVmid v, tl_needs_dsb_ish = True, tl_needs_isb = True\<rparr>"

abbreviation tlbi_ipa :: "arm_vmid \<Rightarrow> guest_physical \<Rightarrow> tlbi_plan" where
  "tlbi_ipa v ipa \<equiv> \<lparr>tl_kind = TlbiIpa v ipa, tl_needs_dsb_ish = True, tl_needs_isb = True\<rparr>"

section \<open>Exception syndromes\<close>

datatype exception_class =
    WfiWfe | Hvc64 | Smc64 | InstructionAbortLowerEl | DataAbortLowerEl | UnknownClass u8

definition exception_class_from_raw :: "u8 \<Rightarrow> exception_class" where
  "exception_class_from_raw raw =
     (if raw = 0x01 then WfiWfe else if raw = 0x16 then Hvc64 else if raw = 0x17 then Smc64
      else if raw = 0x20 then InstructionAbortLowerEl else if raw = 0x24 then DataAbortLowerEl
      else UnknownClass raw)"

datatype esr_el2 = EsrEl2 (esr_raw: u64)

definition esr_exception_class :: "esr_el2 \<Rightarrow> exception_class" where
  "esr_exception_class e = exception_class_from_raw (ucast (drop_bit 26 (esr_raw e) AND 0x3f))"

abbreviation esr_iss :: "esr_el2 \<Rightarrow> u32" where
  "esr_iss e \<equiv> ucast (esr_raw e AND 0x01ffffff)"

datatype fault_status_code =
    FaultAddressSize u8 | FaultTranslation u8 | FaultAccessFlag u8 | FaultPermission u8 | FaultExternal | FaultOther u8

definition fault_status_decode :: "u8 \<Rightarrow> fault_status_code" where
  "fault_status_decode raw =
     (let level = raw AND 3 in
      if raw \<le> 3 then FaultAddressSize level
      else if raw \<le> 7 then FaultTranslation level
      else if raw \<le> 11 then FaultAccessFlag level
      else if raw \<le> 15 then FaultPermission level
      else if raw = 16 then FaultExternal
      else FaultOther raw)"

record stage2_fault =
  sf_access :: arm_access
  sf_status :: fault_status_code
  sf_far_valid :: bool
  sf_far_el2 :: u64
  sf_hpfar_el2 :: u64
  sf_ipa :: "guest_physical option"
  sf_stage1_page_table_walk :: bool

definition hpfar_valid :: "fault_status_code \<Rightarrow> bool \<Rightarrow> bool" where
  "hpfar_valid status walk =
     (case status of
        FaultTranslation _ \<Rightarrow> True
      | FaultAccessFlag _ \<Rightarrow> True
      | FaultAddressSize _ \<Rightarrow> True
      | FaultPermission _ \<Rightarrow> walk
      | _ \<Rightarrow> False)"

definition fault_ipa :: "bool \<Rightarrow> u64 \<Rightarrow> u64 \<Rightarrow> u64" where
  "fault_ipa walk far_el2 hpfar_el2 =
     push_bit 8 (hpfar_el2 AND 0x0ffffffffff0) OR (if walk then 0 else far_el2 AND 0xfff)"

definition stage2_fault_decode :: "esr_el2 \<Rightarrow> u64 \<Rightarrow> u64 \<Rightarrow> stage2_fault arm_result" where
  "stage2_fault_decode esr far_el2 hpfar_el2 =
     (if esr_exception_class esr \<noteq> InstructionAbortLowerEl \<and> esr_exception_class esr \<noteq> DataAbortLowerEl
      then Inl (ArmError ArmInvalidEsr ''ESR_EL2 is not an abort from a lower exception level'')
      else
        let iss = esr_iss esr;
            far_valid = (iss AND push_bit 10 1 = 0);
            walk = (iss AND push_bit 7 1 \<noteq> 0);
            status = fault_status_decode (ucast (iss AND 0x3f));
            access = (if esr_exception_class esr = InstructionAbortLowerEl then ArmExecute
                      else if iss AND push_bit 6 1 \<noteq> 0 then ArmWrite else ArmRead);
            fault = \<lparr>sf_access = access, sf_status = status, sf_far_valid = far_valid, sf_far_el2 = far_el2,
                     sf_hpfar_el2 = hpfar_el2, sf_ipa = None, sf_stage1_page_table_walk = walk\<rparr>
        in if far_valid \<and> hpfar_valid status walk
           then (case guest_physical_new (fault_ipa walk far_el2 hpfar_el2) of
                   Inl _ \<Rightarrow> Inl (ArmError ArmInvalidEsr ''decoded ARM64 IPA used a reserved sentinel value'')
                 | Inr ipa \<Rightarrow> Inr (fault\<lparr>sf_ipa := Some ipa\<rparr>))
           else Inr fault)"

section \<open>Traps\<close>

datatype smc_policy = SmcDeny | SmcForwardToFirmware

datatype arm_trap_action =
    ArmResume | ArmHaltVcpu | ArmYieldVcpu | ArmDenySmc | ArmForwardSmc | Stage2PermissionTrap arm_access

definition handle_sync_trap :: "esr_el2 \<Rightarrow> smc_policy \<Rightarrow> arm_trap_action arm_result" where
  "handle_sync_trap esr policy =
     (case esr_exception_class esr of
        Hvc64 \<Rightarrow> Inr ArmResume
      | Smc64 \<Rightarrow> (case policy of SmcDeny \<Rightarrow> Inr ArmDenySmc | SmcForwardToFirmware \<Rightarrow> Inr ArmForwardSmc)
      | WfiWfe \<Rightarrow> if esr_iss esr AND 1 = 0 then Inr ArmHaltVcpu else Inr ArmYieldVcpu
      | InstructionAbortLowerEl \<Rightarrow>
          Inl (ArmError ArmUnsupportedTrap ''ARM64 abort trap requires Stage-2 fault decode'')
      | DataAbortLowerEl \<Rightarrow>
          Inl (ArmError ArmUnsupportedTrap ''ARM64 abort trap requires Stage-2 fault decode'')
      | UnknownClass _ \<Rightarrow>
          Inl (ArmError ArmUnsupportedTrap ''ARM64 synchronous exception class is not handled by the lab model''))"

datatype arm_trap_kind = ArmTrapExecute | ArmTrapWrite

fun arm_trap_access :: "arm_trap_kind \<Rightarrow> arm_access" where
  "arm_trap_access ArmTrapExecute = ArmExecute"
| "arm_trap_access ArmTrapWrite = ArmWrite"

datatype arm_trap_state = ArmArmed | ArmHit | ArmTemporaryWindow | ArmRearmed

record arm_stage2_trap =
  at_kind :: arm_trap_kind
  at_ipa :: guest_physical
  at_original_permissions :: arm_permissions
  at_armed_permissions :: arm_permissions
  at_state :: arm_trap_state

definition arm_arm :: "arm_mapping \<Rightarrow> arm_trap_kind \<Rightarrow> arm_stage2_trap arm_result" where
  "arm_arm m k =
     (if \<not> arm_allows (am_permissions m) (arm_trap_access k)
      then Inl (ArmError ArmInvalidStage2Mapping
             ''ARM64 trap cannot remove a Stage-2 access bit that is already absent'')
      else Inr \<lparr>at_kind = k, at_ipa = am_ipa m, at_original_permissions = am_permissions m,
                at_armed_permissions = (case k of
                    ArmTrapExecute \<Rightarrow> arm_without_execute (am_permissions m)
                  | ArmTrapWrite \<Rightarrow> arm_without_write (am_permissions m)),
                at_state = ArmArmed\<rparr>)"

definition arm_record_fault :: "arm_stage2_trap \<Rightarrow> stage2_fault \<Rightarrow> arm_trap_action arm_result \<times> arm_stage2_trap" where
  "arm_record_fault t fault =
     (if at_state t \<noteq> ArmArmed \<and> at_state t \<noteq> ArmRearmed
      then (Inl (ArmError ArmUnsupportedTrap ''ARM64 Stage-2 trap fault arrived while trap was not armed''), t)
      else if sf_ipa fault \<noteq> Some (at_ipa t) \<or> sf_access fault \<noteq> arm_trap_access (at_kind t)
      then (Inl (ArmError ArmUnsupportedTrap ''ARM64 Stage-2 fault does not match the armed trap''), t)
      else (Inr (Stage2PermissionTrap (sf_access fault)), t\<lparr>at_state := ArmHit\<rparr>))"

record arm_wx_event =
  aw_ipa :: guest_physical
  aw_previous_permissions :: arm_permissions
  aw_window_permissions :: arm_permissions
  aw_writable_executable :: bool

definition arm_open_write_window :: "arm_stage2_trap \<Rightarrow> arm_wx_event arm_result \<times> arm_stage2_trap" where
  "arm_open_write_window t =
     (if at_kind t \<noteq> ArmTrapWrite \<or> at_state t \<noteq> ArmHit
      then (Inl (ArmError ArmUnsupportedTrap ''ARM64 write window requires a write trap hit''), t)
      else (Inr \<lparr>aw_ipa = at_ipa t, aw_previous_permissions = at_armed_permissions t,
                 aw_window_permissions = arm_with_write (at_original_permissions t),
                 aw_writable_executable = ap_execute (at_original_permissions t)\<rparr>,
            t\<lparr>at_state := ArmTemporaryWindow\<rparr>))"

definition arm_rearm_with_tlbi :: "arm_stage2_trap \<Rightarrow> arm_vmid \<Rightarrow> tlbi_plan arm_result \<times> arm_stage2_trap" where
  "arm_rearm_with_tlbi t v = (Inr (tlbi_ipa v (at_ipa t)), t\<lparr>at_state := ArmRearmed\<rparr>)"

section \<open>The virtual timer\<close>

record virtual_timer =
  tm_cnthctl_el2 :: u64
  tm_cntvoff_el2 :: u64
  tm_cval :: u64
  tm_enabled :: bool
  tm_masked :: bool

abbreviation virtual_timer_new :: "u64 \<Rightarrow> u64 \<Rightarrow> virtual_timer" where
  "virtual_timer_new cnthctl cntvoff \<equiv>
     \<lparr>tm_cnthctl_el2 = cnthctl, tm_cntvoff_el2 = cntvoff, tm_cval = 0, tm_enabled = False, tm_masked = True\<rparr>"

abbreviation el1_physical_timer_visible :: "virtual_timer \<Rightarrow> bool" where
  "el1_physical_timer_visible t \<equiv>
     tm_cnthctl_el2 t AND (push_bit 0 1 OR push_bit 1 1) = (push_bit 0 1 OR push_bit 1 1)"

definition timer_program :: "virtual_timer \<Rightarrow> u64 \<Rightarrow> u64 \<Rightarrow> unit arm_result \<times> virtual_timer" where
  "timer_program t cval now =
     (if cval \<le> now
      then (Inl (ArmError ArmInvalidTimerState ''ARM64 virtual timer compare value must be in the future''), t)
      else (Inr (), t\<lparr>tm_cval := cval, tm_enabled := True, tm_masked := False\<rparr>))"

abbreviation should_fire :: "virtual_timer \<Rightarrow> u64 \<Rightarrow> bool" where
  "should_fire t now \<equiv> tm_enabled t \<and> \<not> tm_masked t \<and> tm_cval t \<le> now"

definition timer_handle_trap :: "virtual_timer \<Rightarrow> u64 \<Rightarrow> bool arm_result" where
  "timer_handle_trap t now =
     (if \<not> tm_enabled t
      then Inl (ArmError ArmInvalidTimerState ''ARM64 virtual timer trap arrived while timer is disabled'')
      else Inr (should_fire t now))"

section \<open>The plan is a map plan\<close>

definition arm_wf :: "arm_map_plan \<Rightarrow> bool" where
  "arm_wf s \<longleftrightarrow> filled (arm_slots s) (arm_len s)"

definition arm_overlaps :: "arm_mapping \<Rightarrow> arm_mapping \<Rightarrow> bool" where
  "arm_overlaps m x \<longleftrightarrow> gpa_get (am_ipa m) < arm_end x \<and> gpa_get (am_ipa x) < arm_end m"

definition arm_admits :: "arm_map_plan \<Rightarrow> arm_mapping \<Rightarrow> bool" where
  "arm_admits s m \<longleftrightarrow>
     length (arm_mappings s) < length (arm_slots s) \<and> (\<forall>x \<in> set (arm_mappings s). \<not> arm_overlaps m x)"

lemma arm_overlap_scan_ok: "arm_overlap_scan m xs = Inr u \<longleftrightarrow> (\<forall>x \<in> set xs. \<not> arm_overlaps m x)"
  by (induction xs) (auto simp: arm_overlaps_def)

lemma arm_contains_perms [simp]: "arm_contains (m\<lparr>am_permissions := p\<rparr>) = arm_contains m"
  by (simp add: fun_eq_iff arm_contains_def arm_end_def)

lemma arm_map_outcome:
  assumes "arm_wf s"
  shows "case arm_map s m of
      (Inl e, s') \<Rightarrow> \<not> arm_admits s m \<and> s' = s
    | (Inr _, s') \<Rightarrow> arm_admits s m \<and> arm_wf s' \<and> arm_mappings s' = arm_mappings s @ [m]"
  using assms filled_push [of "arm_slots s" "arm_len s" m] arm_overlap_scan_ok [of m "arm_mappings s"]
  by (auto simp: arm_map_def arm_admits_def length_live arm_wf_def arm_mappings_def split: sum.split)

lemma arm_set_permissions_outcome:
  assumes "arm_wf s"
  shows "case arm_set_permissions s a p of
      (Inl e, s') \<Rightarrow> (\<forall>m \<in> set (arm_mappings s). \<not> arm_contains m a) \<and> s' = s
    | (Inr old, s') \<Rightarrow> arm_wf s' \<and> (\<exists>us m vs. arm_mappings s = us @ m # vs \<and> arm_contains m a
        \<and> (\<forall>x \<in> set us. \<not> arm_contains x a) \<and> old = am_permissions m
        \<and> arm_mappings s' = us @ m\<lparr>am_permissions := p\<rparr> # vs)"
  using assms unfolding arm_wf_def
  by (cases rule: update_live_cases [where P = "\<lambda>m. arm_contains m a" and f = "\<lambda>m. m\<lparr>am_permissions := p\<rparr>"])
    (auto simp: arm_set_permissions_def arm_mappings_def)

interpretation arm: map_plan arm_wf arm_mappings arm_admits arm_map arm_lookup arm_set_permissions arm_contains
  am_permissions "\<lambda>p m. m\<lparr>am_permissions := p\<rparr>"
proof unfold_locales
  fix s m x a assume "arm_admits s m" "x \<in> set (arm_mappings s)"
  then show "\<not> (arm_contains x a \<and> arm_contains m a)"
    by (auto simp: arm_admits_def arm_overlaps_def arm_contains_def)
qed (simp_all add: arm_map_outcome arm_set_permissions_outcome arm_lookup_def)

lemma arm_new_wf: "arm_wf (arm_plan_new n)" "arm_mappings (arm_plan_new n) = []"
  by (simp_all add: arm_wf_def arm_plan_new_def arm_mappings_def)

lemmas arm_reach = arm.reach_exclusive [OF _ arm_new_wf]

lemma arm_plan_exact:
  assumes "plan_reach arm_map arm_set_permissions (arm_plan_new n) s" "arm_map s m = (Inr u, s')"
  shows "arm_lookup s' a = (if arm_contains m a then Some m else arm_lookup s a)"
  using arm_reach [OF assms(1)] arm.lookup_add [OF _ _ assms(2)] by blast

text \<open>A range that runs past the end of the address space contains no address.\<close>

lemma arm_wrapping_range_is_lost:
  assumes "2 ^ 64 \<le> unat (gpa_get (am_ipa m)) + unat (am_length m)"
  shows "\<not> arm_contains m a"
proof -
  have "arm_end m \<le> gpa_get (am_ipa m)"
    using assms unat_lt_64 [of "am_length m"] unat_lt_64 [of "gpa_get (am_ipa m)"]
    by (simp add: arm_end_def word_le_nat_alt unat_word_ariths le_mod_geq)
  then show ?thesis by (auto simp: arm_contains_def)
qed

section \<open>Register fields\<close>

lemma vttbr_mask: "(0x0000fffffffff000 :: u64) = push_bit 12 (mask 36)"
  by (simp add: mask_eq_exp_minus_1 push_bit_eq_mult)

lemma low_12_clear:
  assumes "(x :: u64) mod 4096 = 0" "n < 12"
  shows "\<not> bit x n"
proof -
  have "take_bit 12 x = 0"
    using assms(1) by (simp add: take_bit_eq_mod)
  then have "\<not> bit (take_bit 12 x) n" by simp
  with assms(2) show ?thesis by (simp add: bit_take_bit_iff)
qed

lemma high_clear:
  assumes "(x :: u64) < 2 ^ 48" "48 \<le> n"
  shows "\<not> bit x n"
proof -
  have "take_bit 48 x = x"
    using assms(1) by (simp add: word_unat_eq_iff unsigned_take_bit_eq take_bit_nat_def word_less_nat_alt)
  then show ?thesis
    using bit_take_bit_iff [of 48 x n] assms(2) by auto
qed

lemma hpfar_mask: "(0x0ffffffffff0 :: u64) = push_bit 4 (mask 40)"
  by (simp add: mask_eq_exp_minus_1 push_bit_eq_mult)

lemma bit_fault_ipa:
  "bit (fault_ipa walk far hpfar) n \<longleftrightarrow>
     (if n < 12 then \<not> walk \<and> bit far n else n < 52 \<and> bit hpfar (n - 8))"
proof -
  have m: "(0xfff :: u64) = mask 12" by (simp add: mask_eq_exp_minus_1)
  have off: "bit (if walk then 0 else far AND 0xfff) n \<longleftrightarrow> n < 12 \<and> \<not> walk \<and> bit far n"
    unfolding m by (auto simp: bit_and_iff bit_mask_iff)
  have page: "bit (push_bit 8 (hpfar AND 0x0ffffffffff0)) n \<longleftrightarrow> 12 \<le> n \<and> n < 52 \<and> bit hpfar (n - 8)"
    unfolding hpfar_mask by (auto simp: bit_and_iff bit_push_bit_iff bit_mask_iff)
  show ?thesis
    unfolding fault_ipa_def bit_or_iff off page by auto
qed

lemma fault_ipa_parts:
  "drop_bit 12 (fault_ipa walk far hpfar) = take_bit 40 (drop_bit 4 hpfar)"
  "take_bit 12 (fault_ipa walk far hpfar) = (if walk then 0 else take_bit 12 far)"
proof -
  show "drop_bit 12 (fault_ipa walk far hpfar) = take_bit 40 (drop_bit 4 hpfar)"
    by (rule bit_word_eqI) (auto simp: bit_drop_bit_eq bit_take_bit_iff bit_fault_ipa)
  show "take_bit 12 (fault_ipa walk far hpfar) = (if walk then 0 else take_bit 12 far)"
    by (rule bit_word_eqI) (auto simp: bit_take_bit_iff bit_fault_ipa)
qed

lemma fault_ipa_not_sentinel: "fault_ipa walk far hpfar \<noteq> - 1"
proof
  assume "fault_ipa walk far hpfar = - 1"
  then have "bit (fault_ipa walk far hpfar) 63" by simp
  then show False by (simp add: bit_fault_ipa)
qed

section \<open>Properties of the ARM64 backend\<close>

text \<open>
  C28. VTTBR values identify the guest: VTTBR is built exactly for VMIDs in range and 4 KiB aligned roots below
  \<open>2 ^ 48\<close>, and its encoding then has the VMID in the top 16 bits and the root address in the rest,
  so guests with different VMIDs or roots never share a value.
\<close>

theorem vttbr_decodes:
  "case vttbr_new vmid root w of
     Inl e \<Rightarrow> \<not> (0 < vmid \<and> vmid \<le> max_vmid w \<and> hpa_get root mod 4096 = 0 \<and> hpa_get root < 2 ^ 48)
   | Inr t \<Rightarrow> 0 < vmid \<and> vmid \<le> max_vmid w \<and> drop_bit 48 (vttbr_encode t) = ucast vmid
       \<and> take_bit 48 (vttbr_encode t) = hpa_get root"
proof (cases "vttbr_new vmid root w")
  case (Inl e)
  then show ?thesis by (auto simp: vttbr_new_def not_less not_le split: if_splits)
next
  case (Inr t)
  then have t: "vb_vmid t = vmid" "vb_root t = root" "vmid \<noteq> 0" "vmid \<le> max_vmid w" "hpa_get root mod 4096 = 0" "hpa_get root < 2 ^ 48"
    by (auto simp: vttbr_new_def not_less not_le split: if_splits)
  have v: "bit (ucast vmid :: u64) n \<longleftrightarrow> bit vmid n" for n
    using bit_imp_le_length [of vmid n] by (auto simp: bit_ucast_iff)
  have bits: "bit (vttbr_encode t) n \<longleftrightarrow> (if 48 \<le> n then n < 64 \<and> bit vmid (n - 48) else bit (hpa_get root) n)" for n
    using low_12_clear [OF t(5), of n] high_clear [OF t(6), of n] bit_imp_le_length [of "hpa_get root" n]
    unfolding vttbr_encode_def t(1,2) vttbr_mask by (auto simp: bit_or_iff bit_and_iff bit_push_bit_iff bit_mask_iff v not_less [symmetric])
  have "drop_bit 48 (vttbr_encode t) = ucast vmid"
    using bit_imp_le_length [of vmid] by (intro bit_word_eqI) (auto simp: bit_drop_bit_eq bits v)
  moreover have "take_bit 48 (vttbr_encode t) = hpa_get root"
    using high_clear [OF t(6)] by (intro bit_word_eqI) (auto simp: bit_take_bit_iff bits)
  ultimately show ?thesis
    using Inr t(3,4) by (simp add: word_gt_0)
qed


text \<open>A trap only recognises faults at the first byte of its range.\<close>

lemma arm_fault_inside_page_is_refused:
  assumes "at_state t = ArmArmed" "sf_ipa fault = Some g" "g \<noteq> at_ipa t"
  shows "\<exists>e. arm_record_fault t fault = (Inl e, t)"
  using assms by (simp add: arm_record_fault_def)

end
