(* ===== verification/Devices.thy ===== *)
theory Devices
  imports Bounded_Queue Map_Plan
begin

text \<open>
  The paravirtual devices (\<open>crates/aegishv-devices/src\<close>): the read-only block image (\<open>block.rs\<close>), the network
  quarantine (\<open>net.rs\<close>), the console queue (\<open>console.rs\<close>), which is shown to be a first-in first-out queue, and the
  virtio-mmio device (\<open>virtio_mmio.rs\<close>).
\<close>

section \<open>Errors and integer helpers\<close>

datatype device_error_kind =
    DevInvalidRegister
  | DevInvalidQueue
  | DevCapacityExceeded
  | DevUnsupported
  | DevPermissionDenied
  | DevIsolationMissing
  | DevOutOfBounds

datatype device_error = DeviceError (dev_kind: device_error_kind) (dev_message: string)

type_synonym 'a device_result = "device_error + 'a"

text \<open>\<open>count_ones\<close>, \<open>is_power_of_two\<close> and \<open>checked_mul\<close> of the integer types.\<close>

definition count_ones :: "'a::len word \<Rightarrow> nat" where
  "count_ones w = length (filter (bit w) [0..<LENGTH('a)])"

definition is_power_of_two :: "'a::len word \<Rightarrow> bool" where
  "is_power_of_two w \<longleftrightarrow> count_ones w = 1"

definition checked_mul :: "'a::len word \<Rightarrow> 'a word \<Rightarrow> 'a word option" where
  "checked_mul a b = (if unat a * unat b < 2 ^ LENGTH('a) then Some (a * b) else None)"

lemma checked_mul_Some [rust_arith]: "checked_mul a b = Some c \<longleftrightarrow> unat c = unat a * unat b"
proof -
  have "unat c = unat a * unat b \<Longrightarrow> unat a * unat b < 2 ^ LENGTH('a)"
    using unat_less_exp [of c] by simp
  moreover have "unat a * unat b < 2 ^ LENGTH('a) \<Longrightarrow> (a * b = c) = (unat c = unat a * unat b)"
    by (auto simp: word_unat_eq_iff unat_mult_lem)
  ultimately show ?thesis by (auto simp: checked_mul_def)
qed

section \<open>The block image\<close>

record block_request =
  br_sector :: u64
  br_sector_count :: u32
  br_write :: bool

record block_image =
  bi_bytes :: "u8 list"
  bi_sector_size :: u32

definition block_image_new :: "u8 list \<Rightarrow> u32 \<Rightarrow> block_image device_result" where
  "block_image_new bytes sector_size =
     (if sector_size = 0 \<or> \<not> is_power_of_two sector_size \<or> length bytes mod unat sector_size \<noteq> 0
      then Inl (DeviceError DevOutOfBounds ''read-only virtio-blk image must be sector aligned'')
      else Inr \<lparr>bi_bytes = bytes, bi_sector_size = sector_size\<rparr>)"

text \<open>The result carries the bytes of the returned slice, the state is the output buffer.\<close>

definition block_read :: "block_image \<Rightarrow> block_request \<Rightarrow> u8 list \<Rightarrow> u8 list device_result \<times> u8 list" where
  "block_read img request out =
     (if br_write request
      then (Inl (DeviceError DevUnsupported ''read-only virtio-blk image rejects write requests''), out)
      else case checked_mul (br_sector_count request) (bi_sector_size img) of
        None \<Rightarrow> (Inl (DeviceError DevOutOfBounds ''virtio-blk request length overflowed''), out)
      | Some len \<Rightarrow>
          let bytes = unat len in
          if length out < bytes
          then (Inl (DeviceError DevOutOfBounds ''virtio-blk output buffer is smaller than the request''), out)
          else (case checked_mul (br_sector request) (ucast (bi_sector_size img)) of
            None \<Rightarrow> (Inl (DeviceError DevOutOfBounds ''virtio-blk sector offset overflowed''), out)
          | Some offset \<Rightarrow>
              let start = unat offset in
              if \<not> start + bytes < 2 ^ 64
              then (Inl (DeviceError DevOutOfBounds ''virtio-blk request end offset overflowed''), out)
              else if length (bi_bytes img) < start + bytes
              then (Inl (DeviceError DevOutOfBounds ''virtio-blk request is outside the immutable image''), out)
              else
                let slice = take bytes (drop start (bi_bytes img)); out = slice @ drop bytes out
                in (Inr (take bytes out), out)))"

section \<open>Network quarantine\<close>

datatype link_state = LinkDown | LinkUp
datatype quarantine_state = QuarantineNormal | Quarantined
datatype packet_class = GuestData | Management
datatype net_decision = NetAllow | DropLinkDown | DropQuarantined

record net_quarantine =
  nq_link :: link_state
  nq_quarantine :: quarantine_state
  nq_allow_management_traffic :: bool

definition net_decide :: "net_quarantine \<Rightarrow> packet_class \<Rightarrow> net_decision" where
  "net_decide q packet =
     (case nq_link q of
        LinkDown \<Rightarrow> DropLinkDown
      | LinkUp \<Rightarrow>
          (case (nq_quarantine q, packet, nq_allow_management_traffic q) of
             (QuarantineNormal, _, _) \<Rightarrow> NetAllow
           | (Quarantined, Management, True) \<Rightarrow> NetAllow
           | (Quarantined, _, _) \<Rightarrow> DropQuarantined))"

lemma net_decide_quarantined:
  "nq_quarantine q = Quarantined \<Longrightarrow> net_decide q packet = NetAllow \<Longrightarrow>
     packet = Management \<and> nq_allow_management_traffic q \<and> nq_link q = LinkUp"
  by (auto simp: net_decide_def split: link_state.splits packet_class.splits bool.splits)

section \<open>The console queue\<close>

record console_queue =
  cq_bytes :: "u8 list"
  cq_read :: nat
  cq_len :: nat

definition console_new :: "nat \<Rightarrow> console_queue" where
  "console_new n = \<lparr>cq_bytes = replicate n 0, cq_read = 0, cq_len = 0\<rparr>"

definition console_push :: "console_queue \<Rightarrow> u8 \<Rightarrow> unit device_result \<times> console_queue" where
  "console_push q byte =
     (if cq_len q = length (cq_bytes q)
      then (Inl (DeviceError DevCapacityExceeded ''virtio-console diagnostic queue is full''), q)
      else
        let pos = (cq_read q + cq_len q) mod length (cq_bytes q)
        in (Inr (), q\<lparr>cq_bytes := (cq_bytes q)[pos := byte], cq_len := cq_len q + 1\<rparr>))"

definition console_pop :: "console_queue \<Rightarrow> u8 option \<times> console_queue" where
  "console_pop q =
     (if cq_len q = 0 then (None, q)
      else (Some (cq_bytes q ! cq_read q),
            q\<lparr>cq_read := (cq_read q + 1) mod length (cq_bytes q), cq_len := cq_len q - 1\<rparr>))"

section \<open>The virtio-mmio device\<close>

datatype device_status = VioReset | VioAcknowledge | VioDriver | VioFeaturesOk | VioDriverOk | VioFailed

record queue_layout =
  ql_index :: u16
  ql_size :: u16
  ql_descriptor :: u64
  ql_driver :: u64
  ql_device :: u64

definition queue_layout_new :: "u16 \<Rightarrow> u16 \<Rightarrow> u64 \<Rightarrow> u64 \<Rightarrow> u64 \<Rightarrow> queue_layout device_result" where
  "queue_layout_new index sz descriptor driver device =
     (if sz = 0 \<or> \<not> is_power_of_two sz
      then Inl (DeviceError DevInvalidQueue ''virtio queue size must be a non-zero power of two'')
      else if descriptor mod 16 \<noteq> 0 \<or> driver mod 2 \<noteq> 0 \<or> device mod 4 \<noteq> 0
      then Inl (DeviceError DevInvalidQueue
             ''virtio queue addresses are not aligned for descriptor, driver, and device rings'')
      else Inr \<lparr>ql_index = index, ql_size = sz, ql_descriptor = descriptor, ql_driver = driver, ql_device = device\<rparr>)"

record feature_negotiation =
  fn_device_features :: u64
  fn_driver_features :: u64
  fn_accepted_features :: u64

definition negotiate :: "u64 \<Rightarrow> u64 \<Rightarrow> feature_negotiation" where
  "negotiate device driver =
     \<lparr>fn_device_features = device, fn_driver_features = driver, fn_accepted_features = device AND driver\<rparr>"

definition feature_contains :: "feature_negotiation \<Rightarrow> u8 \<Rightarrow> bool" where
  "feature_contains f b \<longleftrightarrow> b < 64 \<and> fn_accepted_features f AND push_bit (unat b) 1 \<noteq> 0"

record virtio_device =
  vd_device_id :: u32
  vd_vendor_id :: u32
  vd_status :: device_status
  vd_queues :: "queue_layout option list"
  vd_queue_len :: nat
  vd_features :: feature_negotiation

definition virtio_new :: "nat \<Rightarrow> u32 \<Rightarrow> u32 \<Rightarrow> u64 \<Rightarrow> virtio_device" where
  "virtio_new n device_id vendor_id device_features =
     \<lparr>vd_device_id = device_id, vd_vendor_id = vendor_id, vd_status = VioReset, vd_queues = replicate n None,
      vd_queue_len = 0, vd_features = \<lparr>fn_device_features = device_features, fn_driver_features = 0,
        fn_accepted_features = 0\<rparr>\<rparr>"

definition virtio_set_status :: "virtio_device \<Rightarrow> device_status \<Rightarrow> unit device_result \<times> virtio_device" where
  "virtio_set_status d status =
     (if vd_status d = VioFailed \<and> status \<noteq> VioReset
      then (Inl (DeviceError DevPermissionDenied ''failed virtio device must be reset before reuse''), d)
      else (Inr (), d\<lparr>vd_status := status\<rparr>))"

abbreviation virtio_negotiate :: "virtio_device \<Rightarrow> u64 \<Rightarrow> virtio_device" where
  "virtio_negotiate d driver \<equiv> d\<lparr>vd_features := negotiate (fn_device_features (vd_features d)) driver\<rparr>"

definition virtio_queues :: "virtio_device \<Rightarrow> queue_layout list" where
  "virtio_queues d = live (vd_queues d) (vd_queue_len d)"

definition virtio_add_queue :: "virtio_device \<Rightarrow> queue_layout \<Rightarrow> unit device_result \<times> virtio_device" where
  "virtio_add_queue d q =
     (if length (vd_queues d) \<le> vd_queue_len d
      then (Inl (DeviceError DevCapacityExceeded ''virtio-mmio queue table is full''), d)
      else if \<exists>existing \<in> set (virtio_queues d). ql_index existing = ql_index q
      then (Inl (DeviceError DevInvalidQueue ''virtio-mmio queue index is already configured''), d)
      else (Inr (), d\<lparr>vd_queues := (vd_queues d)[vd_queue_len d := Some q], vd_queue_len := vd_queue_len d + 1\<rparr>))"

section \<open>The console is a queue\<close>

definition console_ok :: "console_queue \<Rightarrow> bool" where
  "console_ok q \<longleftrightarrow> ring_ok (cq_bytes q) (cq_read q) (cq_len q)"

definition console_items :: "console_queue \<Rightarrow> u8 list" where
  "console_items q = ring_items (cq_bytes q) (cq_read q) (cq_len q)"

text \<open>A push seen as an enqueue, which answers with the byte it accepted.\<close>

definition console_enq :: "console_queue \<Rightarrow> u8 \<Rightarrow> u8 device_result \<times> console_queue" where
  "console_enq q byte = (case console_push q byte of (Inl e, q') \<Rightarrow> (Inl e, q') | (Inr _, q') \<Rightarrow> (Inr byte, q'))"

lemma console_new_ok: "console_ok (console_new n) \<and> console_items (console_new n) = []"
  by (simp add: console_ok_def console_items_def console_new_def ring_ok_def)

lemma console_push_accepts:
  "console_ok q \<Longrightarrow> console_enq q b = (Inr a, q') \<Longrightarrow> console_ok q' \<and> console_items q' = console_items q @ [a]"
  by (auto simp: console_enq_def console_push_def console_ok_def console_items_def Let_def ring_items_push
      ring_ok_push ring_ok_def split: if_splits)

lemma console_push_refuses: "console_enq q b = (Inl e, q') \<Longrightarrow> q' = q \<and> cq_len q = length (cq_bytes q)"
  by (auto simp: console_enq_def console_push_def Let_def split: if_splits)

lemma console_pop_oldest:
  assumes "console_ok q" "console_items q = x # xs"
  shows "\<exists>q'. console_pop q = (Some x, q') \<and> console_ok q' \<and> console_items q' = xs"
proof -
  have len: "0 < cq_len q"
    using assms(2) by (cases "cq_len q") (simp_all add: console_items_def)
  have "x # xs = cq_bytes q ! cq_read q
      # ring_items (cq_bytes q) ((cq_read q + 1) mod length (cq_bytes q)) (cq_len q - 1)"
    using assms ring_items_pop [OF len] by (metis console_items_def console_ok_def)
  moreover have "ring_ok (cq_bytes q) ((cq_read q + 1) mod length (cq_bytes q)) (cq_len q - 1)"
    using assms(1) by (intro ring_ok_pop) (simp add: console_ok_def)
  ultimately show ?thesis
    using len by (simp add: console_pop_def console_ok_def console_items_def)
qed

interpretation cons: fifo_queue console_ok console_items console_pop console_enq
proof
  fix q q' :: console_queue and a b :: u8 and as e
  assume ok: "console_ok q"
  show "console_items q = [] \<Longrightarrow> console_pop q = (None, q)"
    by (metis console_items_def console_pop_def length_ring_items list.size(3))
  show "console_items q = a # as \<Longrightarrow> \<exists>q'. console_pop q = (Some a, q') \<and> console_ok q' \<and> console_items q' = as"
    using ok by (rule console_pop_oldest)
  show "console_enq q b = (Inr a, q') \<Longrightarrow> console_ok q' \<and> console_items q' = console_items q @ [a]"
    using ok by (rule console_push_accepts)
  show "console_enq q b = (Inl e, q') \<Longrightarrow> q' = q"
    by (simp add: console_push_refuses)
qed

text \<open>Every byte accepted by a fresh console is delivered once and in order, or is still queued.\<close>

lemma console_fifo:
  "run_queue console_enq console_pop (console_new n) ops = (ins, outs, q) \<Longrightarrow> ins = outs @ console_items q"
  using cons.fifo [of "console_new n" ops ins outs q] console_new_ok [of n] by simp

section \<open>Reading the block image\<close>

lemma checked_mul_fits:
  fixes a b :: "'a::len word"
  assumes "unat a * unat b < 2 ^ LENGTH('a)"
  shows "checked_mul a b = Some (a * b)" "unat (a * b) = unat a * unat b"
  using assms unat_mult_lem [of a b] by (simp_all add: checked_mul_def)

definition sectors_bytes :: "block_image \<Rightarrow> nat \<Rightarrow> nat \<Rightarrow> u8 list" where
  "sectors_bytes img i n = take (n * unat (bi_sector_size img)) (drop (i * unat (bi_sector_size img)) (bi_bytes img))"

lemma block_read_ok:
  assumes "\<not> br_write req" "unat (br_sector_count req) * unat (bi_sector_size img) < 2 ^ 32"
    and "unat (br_sector_count req) * unat (bi_sector_size img) \<le> length out"
    and "(unat (br_sector req) + unat (br_sector_count req)) * unat (bi_sector_size img) \<le> length (bi_bytes img)"
    and "length (bi_bytes img) < 2 ^ 64"
  shows "block_read img req out =
    (let data = sectors_bytes img (unat (br_sector req)) (unat (br_sector_count req)) in (Inr data, data @ drop (length data) out))"
proof -
  let ?c = "br_sector_count req" and ?s = "bi_sector_size img" and ?i = "br_sector req"
  have size: "unat (ucast ?s :: u64) = unat ?s"
    using unat_less_exp [of ?s] by (simp add: unsigned_ucast_eq take_bit_nat_eq_self)
  have fits: "unat ?i * unat ?s + unat ?c * unat ?s \<le> length (bi_bytes img)"
    using assms(4) by (simp add: algebra_simps)
  have len: "checked_mul ?c ?s = Some (?c * ?s)" "unat (?c * ?s) = unat ?c * unat ?s"
    using checked_mul_fits [of ?c ?s] assms(2) by simp_all
  have offset: "checked_mul ?i (ucast ?s) = Some (?i * ucast ?s)" "unat (?i * ucast ?s) = unat ?i * unat ?s"
    using checked_mul_fits [of ?i "ucast ?s"] assms(5) fits by (simp_all add: size)
  have "length (sectors_bytes img (unat ?i) (unat ?c)) = unat ?c * unat ?s"
    using fits by (simp add: sectors_bytes_def)
  then show ?thesis
    using assms fits by (simp add: block_read_def len offset Let_def sectors_bytes_def)
qed

lemma block_read_refused:
  "fst (block_read img req out) = Inl e \<Longrightarrow> snd (block_read img req out) = out"
  by (auto simp: block_read_def Let_def split: option.splits if_splits)

lemma block_read_only_inside:
  assumes "block_read img req out = (Inr data, out')"
  shows "\<not> br_write req \<and> data = sectors_bytes img (unat (br_sector req)) (unat (br_sector_count req))
    \<and> (unat (br_sector req) + unat (br_sector_count req)) * unat (bi_sector_size img) \<le> length (bi_bytes img)
    \<and> length out' = length out"
proof -
  let ?c = "br_sector_count req" and ?s = "bi_sector_size img" and ?i = "br_sector req"
  have size: "unat (ucast ?s :: u64) = unat ?s"
    using unat_less_exp [of ?s] by (simp add: unsigned_ucast_eq take_bit_nat_eq_self)
  obtain len offset where steps: "checked_mul ?c ?s = Some len" "checked_mul ?i (ucast ?s) = Some offset"
    and inside: "\<not> br_write req" "unat len \<le> length out" "unat offset + unat len \<le> length (bi_bytes img)"
    and data: "data = take (unat len) (drop (unat offset) (bi_bytes img))" "out' = data @ drop (unat len) out"
    using assms by (auto simp: block_read_def Let_def not_less split: option.splits if_splits)
  then show ?thesis
    by (auto simp: rust_arith size sectors_bytes_def algebra_simps)
qed

lemma chunks_concat: "concat (map (\<lambda>i. take n (drop (i * n) xs)) [0..<k]) = take (k * n) xs"
  by (induction k) (simp_all add: take_add [symmetric] add.commute)

lemma block_image_new_ok:
  "block_image_new bytes sz = Inr img \<longleftrightarrow>
     sz \<noteq> 0 \<and> is_power_of_two sz \<and> unat sz dvd length bytes \<and> img = \<lparr>bi_bytes = bytes, bi_sector_size = sz\<rparr>"
  by (auto simp: block_image_new_def mod_eq_0_iff_dvd)

definition read_sector :: "nat \<Rightarrow> block_request" where
  "read_sector i = \<lparr>br_sector = of_nat i, br_sector_count = 1, br_write = False\<rparr>"

lemma read_one_sector:
  assumes "block_image_new bytes sz = Inr img" "length bytes < 2 ^ 64" "unat sz \<le> length out"
    and "i < length bytes div unat sz"
  shows "fst (block_read img (read_sector i) out) = Inr (take (unat sz) (drop (i * unat sz) bytes))"
proof -
  have img: "img = \<lparr>bi_bytes = bytes, bi_sector_size = sz\<rparr>" and pos: "0 < unat sz"
    using assms(1) by (simp_all add: block_image_new_ok unat_gt_0)
  have "Suc i * unat sz \<le> (length bytes div unat sz) * unat sz"
    using assms(4) by (intro mult_le_mono1) simp
  then have inside: "(i + 1) * unat sz \<le> length bytes"
    using assms(1) by (simp add: block_image_new_ok)
  moreover have "i \<le> length bytes"
    using inside pos by (metis One_nat_def Suc_leI le_add1 le_trans mult_le_mono nat_mult_1_right)
  then have "unat (of_nat i :: u64) = i"
    using assms(2) by (simp add: unat_of_nat take_bit_nat_eq_self)
  moreover have "unat sz < 2 ^ 32"
    using unat_less_exp [of sz] by simp
  ultimately show ?thesis
    using assms(2,3) by (subst block_read_ok) (simp_all add: img read_sector_def sectors_bytes_def Let_def)
qed

text \<open>
  C32. Reading a block image sector by sector returns the image: every one-sector read below the number of
  sectors succeeds with a full sector, whatever the buffer held, and the sectors in order are the bytes the
  image was built from.
\<close>

theorem block_sectors_cover_image:
  assumes "block_image_new bytes sz = Inr img" "length bytes < 2 ^ 64" "unat sz \<le> length out"
  shows "\<exists>sectors. map (\<lambda>i. fst (block_read img (read_sector i) out)) [0..<length bytes div unat sz] = map Inr sectors
    \<and> (\<forall>sector \<in> set sectors. length sector = unat sz) \<and> concat sectors = bytes"
proof -
  let ?k = "length bytes div unat sz" and ?sec = "\<lambda>i. take (unat sz) (drop (i * unat sz) bytes)"
  have k: "?k * unat sz = length bytes"
    using assms(1) by (simp add: block_image_new_ok)
  have "length (?sec i) = unat sz" if "i < ?k" for i
  proof -
    have "Suc i * unat sz \<le> ?k * unat sz"
      using that by (intro mult_le_mono1) simp
    then show ?thesis
      using k by simp
  qed
  then show ?thesis
    using read_one_sector [OF assms] k chunks_concat [of "unat sz" bytes ?k]
    by (intro exI [of _ "map ?sec [0..<?k]"]) (auto simp: comp_def)
qed

lemma demo_image: "block_image_new (replicate 8 7) 4 = Inr \<lparr>bi_bytes = replicate 8 7, bi_sector_size = 4\<rparr>"
  by code_simp

theorem block_sectors_cover_image_witness:
  "\<exists>sectors. map (\<lambda>i. fst (block_read \<lparr>bi_bytes = replicate 8 7, bi_sector_size = 4\<rparr> (read_sector i) (replicate 4 0)))
      [0..<8 div unat (4 :: u32)] = map Inr sectors
    \<and> (\<forall>sector \<in> set sectors. length sector = unat (4 :: u32)) \<and> concat sectors = replicate 8 7"
  using block_sectors_cover_image [OF demo_image, of "replicate 4 0"] by simp

section \<open>Virtio queues have distinct indexes\<close>

definition virtio_ok :: "virtio_device \<Rightarrow> bool" where
  "virtio_ok d \<longleftrightarrow> filled (vd_queues d) (vd_queue_len d) \<and> distinct (map ql_index (virtio_queues d))"

lemma virtio_new_ok: "virtio_ok (virtio_new n device_id vendor_id features)"
  by (simp add: virtio_ok_def virtio_new_def virtio_queues_def)

lemma virtio_add_queue_ok:
  assumes "virtio_ok d"
  shows "virtio_ok (snd (virtio_add_queue d q))
    \<and> (fst (virtio_add_queue d q) = Inr () \<longrightarrow> virtio_queues (snd (virtio_add_queue d q)) = virtio_queues d @ [q])"
  using assms
  by (auto simp: virtio_add_queue_def virtio_ok_def virtio_queues_def not_le filled_push)

lemma virtio_failed_needs_reset:
  "vd_status d = VioFailed \<Longrightarrow> vd_status (snd (virtio_set_status d status)) \<noteq> VioFailed \<Longrightarrow> status = VioReset"
  by (auto simp: virtio_set_status_def split: if_splits)

lemma virtio_accepts_offered: "feature_contains (negotiate device driver) b \<Longrightarrow> bit device (unat b) \<and> bit driver (unat b)"
  by (simp add: feature_contains_def negotiate_def and_exp_eq_0_iff_not_bit word_less_nat_alt bit_and_iff)

end
