(* ===== verification/Boot.thy ===== *)
theory Boot
  imports Page_Ledger Rust_Text
begin

text \<open>
  The boot crate (\<open>crates/aegishv-type1-boot/src\<close>): validation of the boot hand-off (\<open>handoff.rs\<close>), the usable memory of
  a Limine memory map (\<open>limine.rs\<close>), the link layout (\<open>layout.rs\<close>) and the entry plan (\<open>entry.rs\<close>). A
  validated hand-off is shown to give a memory map that the core accepts and an allocator that owns exactly the
  bytes the hand-off reports as usable.
\<close>

section \<open>The boot hand-off\<close>

datatype boot_protocol = BootLimine | BootUefi | BootMultiboot2

datatype boot_memory_kind =
    BootUsable
  | BootReserved
  | BootAcpi
  | BootMmio
  | BootBad
  | BootBootloaderReclaimable
  | BootKernelAndModules

fun to_core_kind :: "boot_memory_kind \<Rightarrow> memory_region_kind" where
  "to_core_kind BootUsable = Usable"
| "to_core_kind BootBootloaderReclaimable = Reserved"
| "to_core_kind BootAcpi = Acpi"
| "to_core_kind BootMmio = Mmio"
| "to_core_kind BootBad = Bad"
| "to_core_kind BootReserved = Reserved"
| "to_core_kind BootKernelAndModules = Reserved"

record boot_memory_region =
  bm_base :: u64
  bm_length :: u64
  bm_kind :: boot_memory_kind

definition to_core_region :: "boot_memory_region \<Rightarrow> memory_region" where
  "to_core_region r = memory_region_new (bm_base r) (bm_length r) (to_core_kind (bm_kind r))"

record boot_framebuffer =
  fb_address :: u64
  fb_width :: u32
  fb_height :: u32
  fb_pitch :: u32
  fb_bits_per_pixel :: u16

record boot_module =
  mod_name :: string
  mod_address :: u64
  mod_length :: u64

record boot_handoff =
  bh_protocol :: boot_protocol
  bh_bootloader_name :: string
  bh_command_line :: string
  bh_kernel_base :: u64
  bh_kernel_length :: u64
  bh_stack_base :: u64
  bh_stack_length :: u64
  bh_memory_regions :: "boot_memory_region list"
  bh_modules :: "boot_module list"
  bh_rsdp_address :: "u64 option"
  bh_framebuffer :: "boot_framebuffer option"

datatype boot_validation_error =
    MissingBootloaderName
  | KernelRangeInvalid
  | StackRangeInvalid
  | BootStackNotPageAligned
  | MissingMemoryMap
  | MemoryRegionInvalid
  | MemoryRegionOverflow
  | MemoryRegionOverlap
  | MissingUsableMemory
  | ModuleRangeInvalid
  | ModuleOverlapsKernel
  | FramebufferInvalid

type_synonym 'a boot_result = "boot_validation_error + 'a"

record boot_validation_report =
  rp_protocol :: boot_protocol
  rp_usable_regions :: nat
  rp_usable_bytes :: u64
  rp_module_count :: nat
  rp_has_rsdp :: bool
  rp_has_framebuffer :: bool

definition boot_region_end :: "boot_memory_region \<Rightarrow> u64 boot_result" where
  "boot_region_end r = ok_or (checked_add (bm_base r) (bm_length r)) MemoryRegionOverflow"

definition boot_validate_region :: "boot_memory_region \<Rightarrow> u64 boot_result" where
  "boot_validate_region r =
     (if bm_length r = 0 \<or> bm_base r mod 4096 \<noteq> 0 \<or> bm_length r mod 4096 \<noteq> 0 then Inl MemoryRegionInvalid
      else boot_region_end r)"

definition validate_range :: "u64 \<Rightarrow> u64 \<Rightarrow> unit + u64" where
  "validate_range base len = (if len = 0 then Inl () else ok_or (checked_add base len) ())"

definition validate_framebuffer :: "boot_framebuffer \<Rightarrow> unit boot_result" where
  "validate_framebuffer f =
     (if fb_address f = 0 \<or> fb_width f = 0 \<or> fb_height f = 0 \<or> fb_pitch f = 0 \<or> fb_bits_per_pixel f = 0
      then Inl FramebufferInvalid else Inr ())"

text \<open>The loop over the regions before the current one.\<close>

fun boot_overlap_scan :: "boot_memory_region \<Rightarrow> u64 \<Rightarrow> boot_memory_region list \<Rightarrow> unit boot_result" where
  "boot_overlap_scan r en [] = Inr ()"
| "boot_overlap_scan r en (previous # rest) =
     (case boot_region_end previous of
        Inl e \<Rightarrow> Inl e
      | Inr previous_end \<Rightarrow>
          if bm_base r < previous_end \<and> bm_base previous < en then Inl MemoryRegionOverlap
          else boot_overlap_scan r en rest)"

text \<open>The loop over the regions; the first list is the part of the table before the current index.\<close>

fun boot_region_loop ::
    "boot_memory_region list \<Rightarrow> boot_memory_region list \<Rightarrow> nat \<Rightarrow> u64 \<Rightarrow> (nat \<times> u64) boot_result" where
  "boot_region_loop before [] regions bytes = Inr (regions, bytes)"
| "boot_region_loop before (r # rest) regions bytes =
     (case boot_validate_region r of
        Inl e \<Rightarrow> Inl e
      | Inr en \<Rightarrow>
          (case boot_overlap_scan r en before of
             Inl e \<Rightarrow> Inl e
           | Inr _ \<Rightarrow>
               if bm_kind r = BootUsable
               then boot_region_loop (before @ [r]) rest (regions + 1) (saturating_add bytes (bm_length r))
               else boot_region_loop (before @ [r]) rest regions bytes))"

fun boot_module_loop :: "u64 \<Rightarrow> u64 \<Rightarrow> boot_module list \<Rightarrow> unit boot_result" where
  "boot_module_loop kernel_base kernel_end [] = Inr ()"
| "boot_module_loop kernel_base kernel_end (m # rest) =
     (case validate_range (mod_address m) (mod_length m) of
        Inl _ \<Rightarrow> Inl ModuleRangeInvalid
      | Inr _ \<Rightarrow>
          if mod_address m < kernel_end \<and> kernel_base < mod_address m + mod_length m then Inl ModuleOverlapsKernel
          else boot_module_loop kernel_base kernel_end rest)"

definition validate_boot_handoff :: "boot_handoff \<Rightarrow> boot_validation_report boot_result" where
  "validate_boot_handoff h =
     (if blank (bh_bootloader_name h) then Inl MissingBootloaderName
      else case validate_range (bh_kernel_base h) (bh_kernel_length h) of
        Inl _ \<Rightarrow> Inl KernelRangeInvalid
      | Inr _ \<Rightarrow>
     (case validate_range (bh_stack_base h) (bh_stack_length h) of
        Inl _ \<Rightarrow> Inl StackRangeInvalid
      | Inr _ \<Rightarrow>
     (if bh_stack_base h mod 4096 \<noteq> 0 \<or> bh_stack_length h mod 4096 \<noteq> 0 then Inl BootStackNotPageAligned
      else if bh_memory_regions h = [] then Inl MissingMemoryMap
      else
        let kernel_end = bh_kernel_base h + bh_kernel_length h in
        case boot_region_loop [] (bh_memory_regions h) 0 0 of
          Inl e \<Rightarrow> Inl e
        | Inr (regions, bytes) \<Rightarrow>
            if regions = 0 then Inl MissingUsableMemory
            else case boot_module_loop (bh_kernel_base h) kernel_end (bh_modules h) of
              Inl e \<Rightarrow> Inl e
            | Inr _ \<Rightarrow>
                (case (case bh_framebuffer h of Some f \<Rightarrow> validate_framebuffer f | None \<Rightarrow> Inr ()) of
                   Inl e \<Rightarrow> Inl e
                 | Inr _ \<Rightarrow>
                     Inr \<lparr>rp_protocol = bh_protocol h, rp_usable_regions = regions, rp_usable_bytes = bytes,
                          rp_module_count = length (bh_modules h), rp_has_rsdp = bh_rsdp_address h \<noteq> None,
                          rp_has_framebuffer = bh_framebuffer h \<noteq> None\<rparr>))))"

section \<open>The Limine memory map\<close>

datatype limine_memory_kind =
    LimineUsable
  | LimineReserved
  | LimineAcpiReclaimable
  | LimineAcpiNvs
  | LimineBadMemory
  | LimineBootloaderReclaimable
  | LimineExecutableAndModules
  | LimineFramebuffer
  | LimineMappedReserved

datatype limine_map_error =
    UnknownMemoryKind
  | AddressOverflow
  | InvalidUsableRegion
  | UsableRegionOverlap
  | LimineCapacityExceeded

fun to_boot_kind :: "limine_memory_kind \<Rightarrow> boot_memory_kind" where
  "to_boot_kind LimineUsable = BootUsable"
| "to_boot_kind LimineReserved = BootReserved"
| "to_boot_kind LimineAcpiReclaimable = BootAcpi"
| "to_boot_kind LimineAcpiNvs = BootAcpi"
| "to_boot_kind LimineBadMemory = BootBad"
| "to_boot_kind LimineBootloaderReclaimable = BootBootloaderReclaimable"
| "to_boot_kind LimineExecutableAndModules = BootKernelAndModules"
| "to_boot_kind LimineFramebuffer = BootMmio"
| "to_boot_kind LimineMappedReserved = BootReserved"

definition limine_from_raw :: "u64 \<Rightarrow> limine_map_error + limine_memory_kind" where
  "limine_from_raw raw =
     (if raw = 0 then Inr LimineUsable
      else if raw = 1 then Inr LimineReserved
      else if raw = 2 then Inr LimineAcpiReclaimable
      else if raw = 3 then Inr LimineAcpiNvs
      else if raw = 4 then Inr LimineBadMemory
      else if raw = 5 then Inr LimineBootloaderReclaimable
      else if raw = 6 then Inr LimineExecutableAndModules
      else if raw = 7 then Inr LimineFramebuffer
      else if raw = 8 then Inr LimineMappedReserved
      else Inl UnknownMemoryKind)"

record limine_memmap_entry =
  le_base :: u64
  le_length :: u64
  le_kind :: u64

definition limine_entry_end :: "limine_memmap_entry \<Rightarrow> limine_map_error + u64" where
  "limine_entry_end e = ok_or (checked_add (le_base e) (le_length e)) AddressOverflow"

record limine_usable_memory =
  lu_regions :: "boot_memory_region list"
  lu_len :: nat

abbreviation limine_regions :: "limine_usable_memory \<Rightarrow> boot_memory_region list" where
  "limine_regions u \<equiv> take (lu_len u) (lu_regions u)"

fun limine_overlap_scan ::
    "nat \<Rightarrow> limine_memmap_entry \<Rightarrow> u64 \<Rightarrow> (nat \<times> limine_memmap_entry) list \<Rightarrow> limine_map_error + unit" where
  "limine_overlap_scan index e en [] = Inr ()"
| "limine_overlap_scan index e en ((other_index, other) # rest) =
     (if other_index = index then limine_overlap_scan index e en rest
      else case limine_from_raw (le_kind other) of
        Inl err \<Rightarrow> Inl err
      | Inr _ \<Rightarrow>
          (case limine_entry_end other of
             Inl err \<Rightarrow> Inl err
           | Inr other_end \<Rightarrow>
               if le_base e < other_end \<and> le_base other < en then Inl UsableRegionOverlap
               else limine_overlap_scan index e en rest))"

fun limine_loop ::
    "limine_memmap_entry list \<Rightarrow> limine_usable_memory \<Rightarrow> (nat \<times> limine_memmap_entry) list
      \<Rightarrow> limine_map_error + limine_usable_memory" where
  "limine_loop entries usable [] = Inr usable"
| "limine_loop entries usable ((index, e) # rest) =
     (case limine_from_raw (le_kind e) of
        Inl err \<Rightarrow> Inl err
      | Inr k \<Rightarrow>
     (case limine_entry_end e of
        Inl err \<Rightarrow> Inl err
      | Inr en \<Rightarrow>
     (if k \<noteq> LimineUsable then limine_loop entries usable rest
      else if le_length e = 0 \<or> le_base e mod 4096 \<noteq> 0 \<or> le_length e mod 4096 \<noteq> 0 then Inl InvalidUsableRegion
      else case limine_overlap_scan index e en (enumerate 0 entries) of
        Inl err \<Rightarrow> Inl err
      | Inr _ \<Rightarrow>
          if length (lu_regions usable) \<le> lu_len usable then Inl LimineCapacityExceeded
          else limine_loop entries
                 (usable\<lparr>lu_regions := (lu_regions usable)
                    [lu_len usable := \<lparr>bm_base = le_base e, bm_length = le_length e, bm_kind = BootUsable\<rparr>],
                    lu_len := lu_len usable + 1\<rparr>) rest)))"

definition limine_from_entries :: "nat \<Rightarrow> limine_memmap_entry list \<Rightarrow> limine_map_error + limine_usable_memory" where
  "limine_from_entries n entries =
     limine_loop entries
       \<lparr>lu_regions = replicate n \<lparr>bm_base = 0, bm_length = 0, bm_kind = BootReserved\<rparr>, lu_len = 0\<rparr> (enumerate 0 entries)"

section \<open>The link layout and the entry plan\<close>

record link_layout =
  ll_physical_base :: u64
  ll_virtual_base :: u64
  ll_text_start :: u64
  ll_text_end :: u64
  ll_rodata_end :: u64
  ll_data_end :: u64
  ll_bss_end :: u64
  ll_boot_stack_size :: u64

datatype link_layout_error =
    PhysicalBaseTooLow
  | VirtualBaseNotCanonicalHighHalf
  | SectionsOutOfOrder
  | SectionNotPageAligned
  | StackTooSmall
  | StackNotPageAligned

definition validate_link_layout :: "link_layout \<Rightarrow> link_layout_error + unit" where
  "validate_link_layout l =
     (if ll_physical_base l < 0x200000 then Inl PhysicalBaseTooLow
      else if ll_virtual_base l < 0xffff800000000000 then Inl VirtualBaseNotCanonicalHighHalf
      else if \<not> (ll_text_start l \<le> ll_text_end l \<and> ll_text_end l \<le> ll_rodata_end l
                 \<and> ll_rodata_end l \<le> ll_data_end l \<and> ll_data_end l \<le> ll_bss_end l)
      then Inl SectionsOutOfOrder
      else if \<exists>v \<in> set [ll_physical_base l, ll_virtual_base l, ll_text_start l, ll_text_end l, ll_rodata_end l,
                         ll_data_end l, ll_bss_end l]. v mod 4096 \<noteq> 0
      then Inl SectionNotPageAligned
      else if ll_boot_stack_size l < 128 * 1024 then Inl StackTooSmall
      else if ll_boot_stack_size l mod 4096 \<noteq> 0 then Inl StackNotPageAligned
      else Inr ())"

datatype boot_entry_state = FirmwareHandoff | LayoutChecked | MemoryChecked | ReadyForArchitectureInit

record boot_entry_plan =
  be_state :: boot_entry_state
  be_cpu_count_hint :: u16
  be_module_count :: nat
  be_usable_bytes :: u64
  be_stack_top :: u64

datatype boot_entry_error = EntryLayout link_layout_error | EntryHandoff boot_validation_error | StackTopOverflow

definition plan_primary_entry :: "link_layout \<Rightarrow> boot_handoff \<Rightarrow> u16 \<Rightarrow> boot_entry_error + boot_entry_plan" where
  "plan_primary_entry layout h cpu_count_hint =
     (case validate_link_layout layout of
        Inl e \<Rightarrow> Inl (EntryLayout e)
      | Inr _ \<Rightarrow>
     (case validate_boot_handoff h of
        Inl e \<Rightarrow> Inl (EntryHandoff e)
      | Inr report \<Rightarrow>
     (case checked_add (bh_stack_base h) (bh_stack_length h) of
        None \<Rightarrow> Inl StackTopOverflow
      | Some stack_top \<Rightarrow>
          Inr \<lparr>be_state = ReadyForArchitectureInit, be_cpu_count_hint = max cpu_count_hint 1,
               be_module_count = rp_module_count report, be_usable_bytes = rp_usable_bytes report,
               be_stack_top = stack_top\<rparr>)))"

section \<open>What a validated hand-off says about memory\<close>

definition bm_lo :: "boot_memory_region \<Rightarrow> nat" where
  "bm_lo r = unat (bm_base r)"

definition bm_hi :: "boot_memory_region \<Rightarrow> nat" where
  "bm_hi r = unat (bm_base r) + unat (bm_length r)"

definition bm_ok :: "boot_memory_region \<Rightarrow> bool" where
  "bm_ok r \<longleftrightarrow> bm_lo r < bm_hi r \<and> bm_hi r < 2 ^ 64 \<and> 4096 dvd bm_lo r \<and> 4096 dvd bm_hi r"

definition bm_apart :: "boot_memory_region \<Rightarrow> boot_memory_region \<Rightarrow> bool" where
  "bm_apart x y \<longleftrightarrow> bm_hi x \<le> bm_lo y \<or> bm_hi y \<le> bm_lo x"

lemmas bm_defs = bm_lo_def bm_hi_def

lemma word_mod_4096: "(w :: u64) mod 4096 = 0 \<longleftrightarrow> 4096 dvd unat w"
  by (simp add: word_unat_eq_iff unat_mod mod_eq_0_iff_dvd)

lemma boot_region_end_ok: "boot_region_end r = Inr en \<longleftrightarrow> unat en = bm_hi r"
  by (auto simp: boot_region_end_def bm_hi_def rust_arith split: option.splits)

lemma boot_validate_region_ok: "boot_validate_region r = Inr en \<longleftrightarrow> bm_ok r \<and> unat en = bm_hi r"
proof -
  let ?bad = "bm_length r = 0 \<or> bm_base r mod 4096 \<noteq> 0 \<or> bm_length r mod 4096 \<noteq> 0"
  have "bm_length r = 0 \<longleftrightarrow> \<not> bm_lo r < bm_hi r"
    by (simp add: bm_defs word_unat_eq_iff)
  moreover have "bm_base r mod 4096 = 0 \<and> bm_length r mod 4096 = 0 \<longleftrightarrow> 4096 dvd bm_lo r \<and> 4096 dvd bm_hi r"
    unfolding word_mod_4096 bm_defs by (metis dvd_add dvd_add_right_iff)
  ultimately have "bm_ok r \<longleftrightarrow> \<not> ?bad \<and> bm_hi r < 2 ^ 64"
    unfolding bm_ok_def by argo
  moreover have "unat en = bm_hi r \<Longrightarrow> bm_hi r < 2 ^ 64"
    using unat_less_exp [of en] by simp
  moreover have "boot_validate_region r = Inr en \<longleftrightarrow> \<not> ?bad \<and> unat en = bm_hi r"
    unfolding boot_validate_region_def boot_region_end_ok [symmetric] by (cases ?bad) (auto simp: mod_eq_0_iff_dvd)
  ultimately show ?thesis
    by argo
qed

lemma boot_overlap_scan_ok:
  assumes "boot_overlap_scan r en ps = Inr u" "unat en = bm_hi r" "p \<in> set ps"
  shows "bm_apart p r"
  using assms
  by (induction ps)
    (auto simp: boot_region_end_def bm_apart_def bm_defs rust_arith word_less_nat_alt split: sum.splits option.splits if_splits)

abbreviation usable_lengths :: "boot_memory_region list \<Rightarrow> nat" where
  "usable_lengths rs \<equiv> sum_list (map (\<lambda>r. unat (bm_length r)) (filter (\<lambda>r. bm_kind r = BootUsable) rs))"

lemma boot_region_loop_ok:
  assumes "boot_region_loop before rs k b = Inr (k', b')" "sorted_wrt bm_apart before"
  shows "(\<forall>r \<in> set rs. bm_ok r) \<and> sorted_wrt bm_apart (before @ rs)
    \<and> k' = k + length (filter (\<lambda>r. bm_kind r = BootUsable) rs)
    \<and> unat b' = min (unat b + usable_lengths rs) (2 ^ 64 - 1)"
  using assms
proof (induction before rs k b rule: boot_region_loop.induct)
  case (1 before k b)
  then show ?case
    using unat_less_exp [of b] by auto
next
  case (2 before r rs k b)
  from 2(3) obtain en u where en: "boot_validate_region r = Inr en" "boot_overlap_scan r en before = Inr u"
    by (auto split: sum.splits)
  then have ok: "bm_ok r" "unat en = bm_hi r"
    by (simp_all add: boot_validate_region_ok)
  have apart: "sorted_wrt bm_apart (before @ [r])"
    using 2(4) boot_overlap_scan_ok [OF en(2) ok(2)] by (simp add: sorted_wrt_append)
  show ?case
  proof (cases "bm_kind r = BootUsable")
    case True
    then show ?thesis
      using 2(1) [OF en True _ apart] 2(3) en ok by (auto simp: rust_arith)
  next
    case False
    then show ?thesis
      using 2(2) [OF en False _ apart] 2(3) en ok by auto
  qed
qed

lemma validated_regions:
  assumes "validate_boot_handoff h = Inr report"
  shows "(\<forall>r \<in> set (bh_memory_regions h). bm_ok r) \<and> sorted_wrt bm_apart (bh_memory_regions h)
    \<and> rp_usable_regions report = length (filter (\<lambda>r. bm_kind r = BootUsable) (bh_memory_regions h))
    \<and> unat (rp_usable_bytes report) = min (usable_lengths (bh_memory_regions h)) (2 ^ 64 - 1)"
proof -
  obtain k b where "boot_region_loop [] (bh_memory_regions h) 0 0 = Inr (k, b)" "rp_usable_regions report = k"
    "rp_usable_bytes report = b"
    using assms by (auto simp: validate_boot_handoff_def Let_def split: if_splits sum.splits option.splits)
  with boot_region_loop_ok [OF this(1)] show ?thesis by simp
qed

section \<open>From the hand-off to the allocator\<close>

definition bm_pages :: "boot_memory_region \<Rightarrow> nat set" where
  "bm_pages r = pages_in (bm_lo r) (bm_hi r)"

definition boot_usable_pages :: "boot_memory_region list \<Rightarrow> nat set" where
  "boot_usable_pages rs = (\<Union>r \<in> {r \<in> set rs. bm_kind r = BootUsable}. bm_pages r)"

lemma core_region [simp]:
  "region_lo (to_core_region r) = bm_lo r" "region_hi (to_core_region r) = bm_hi r"
  "mr_kind (to_core_region r) = to_core_kind (bm_kind r)"
  by (simp_all add: to_core_region_def memory_region_new_def region_defs bm_defs)

lemma to_core_kind_Usable [simp]: "to_core_kind k = Usable \<longleftrightarrow> k = BootUsable"
  by (cases k) simp_all

lemma bm_apart_disjoint: "bm_apart x y \<Longrightarrow> {bm_lo x ..< bm_hi x} \<inter> {bm_lo y ..< bm_hi y} = {}"
  by (auto simp: bm_apart_def)

lemma boot_regions_no_clash:
  assumes "sorted_wrt bm_apart rs" "x \<in> set (map to_core_region rs)" "y \<in> set (map to_core_region rs)"
  shows "\<not> clash x y"
proof -
  obtain a b where ab: "a \<in> set rs" "b \<in> set rs" "x = to_core_region a" "y = to_core_region b"
    using assms(2,3) by auto
  show ?thesis
    using sorted_wrt_pair [OF assms(1) ab(1,2)] bm_apart_disjoint [of a b] bm_apart_disjoint [of b a] ab
    by (auto simp: clash_def region_addrs_def)
qed

lemma covered_core:
  "covered Usable (map to_core_region rs) = (\<Union>r \<in> {r \<in> set rs. bm_kind r = BootUsable}. {bm_lo r ..< bm_hi r})"
  by (auto simp: covered_def region_addrs_def)

lemma whole_usable_pages:
  assumes "\<forall>r \<in> set rs. bm_ok r"
  shows "{p. 4096 dvd p \<and> {p ..< p + 4096} \<subseteq> covered Usable (map to_core_region rs)} = boot_usable_pages rs"
proof (intro equalityI subsetI)
  fix p assume p: "p \<in> {p. 4096 dvd p \<and> {p ..< p + 4096} \<subseteq> covered Usable (map to_core_region rs)}"
  then have "p \<in> covered Usable (map to_core_region rs)"
    by auto
  with p show "p \<in> boot_usable_pages rs"
    by (auto simp: covered_core boot_usable_pages_def bm_pages_def pages_in_def)
next
  fix p assume "p \<in> boot_usable_pages rs"
  then obtain r where r: "r \<in> set rs" "bm_kind r = BootUsable" "4096 dvd p" "bm_lo r \<le> p" "p < bm_hi r"
    by (auto simp: boot_usable_pages_def bm_pages_def pages_in_def)
  then have "p + 4096 \<le> bm_hi r"
    using assms by (intro page_below_hi) (auto simp: bm_ok_def)
  then have "{p ..< p + 4096} \<subseteq> {bm_lo r ..< bm_hi r}"
    using r(4) by auto
  with r show "p \<in> {p. 4096 dvd p \<and> {p ..< p + 4096} \<subseteq> covered Usable (map to_core_region rs)}"
    by (auto simp: covered_core)
qed

lemma card_bm_pages: "bm_ok r \<Longrightarrow> finite (bm_pages r) \<and> 4096 * card (bm_pages r) = unat (bm_length r)"
proof -
  assume "bm_ok r"
  then have "4096 dvd unat (bm_length r)" "4096 dvd bm_lo r"
    unfolding bm_ok_def bm_defs by (metis dvd_add_right_iff, blast)
  then obtain n where n: "unat (bm_length r) = 4096 * n" "4096 dvd bm_lo r"
    by (auto elim: dvdE)
  then have "bm_pages r = pages_in (bm_lo r) (bm_lo r + n * 4096)"
    by (simp add: bm_pages_def bm_defs mult.commute)
  then show ?thesis
    using n card_pages_in [of "bm_lo r" n] by simp
qed

lemma card_usable_pages:
  assumes "\<forall>r \<in> set rs. bm_ok r" "sorted_wrt bm_apart rs"
  shows "finite (boot_usable_pages rs) \<and> 4096 * card (boot_usable_pages rs) = usable_lengths rs"
  using assms
proof (induction rs)
  case Nil
  then show ?case by (simp add: boot_usable_pages_def)
next
  case (Cons r rs)
  then have IH: "finite (boot_usable_pages rs)" "4096 * card (boot_usable_pages rs) = usable_lengths rs"
    by auto
  show ?case
  proof (cases "bm_kind r = BootUsable")
    case True
    then have split: "boot_usable_pages (r # rs) = bm_pages r \<union> boot_usable_pages rs"
      by (auto simp: boot_usable_pages_def)
    have "bm_pages r \<inter> boot_usable_pages rs = {}"
      using Cons.prems(2) bm_apart_disjoint by (fastforce simp: boot_usable_pages_def bm_pages_def pages_in_def)
    then show ?thesis
      unfolding split using card_bm_pages [of r] Cons.prems(1) IH True by (simp add: card_Un_disjoint)
  next
    case False
    then have "boot_usable_pages (r # rs) = boot_usable_pages rs"
      by (auto simp: boot_usable_pages_def)
    then show ?thesis
      using IH False by simp
  qed
qed

text \<open>Disjoint regions below \<open>2 ^ 64\<close> cannot hold that many bytes, so the saturating sum is exact.\<close>

lemma usable_lengths_bound:
  assumes "\<forall>r \<in> set rs. bm_ok r" "sorted_wrt bm_apart rs"
  shows "usable_lengths rs \<le> 2 ^ 64 - 4096"
proof -
  define N :: nat where "N = 2 ^ 52 - 1"
  have N: "N * 4096 + 4096 = 2 ^ 64"
    by (simp add: N_def)
  have sub: "boot_usable_pages rs \<subseteq> pages_in 0 (0 + N * 4096)"
  proof
    fix p assume "p \<in> boot_usable_pages rs"
    then obtain r where r: "r \<in> set rs" "4096 dvd p" "p < bm_hi r"
      by (auto simp: boot_usable_pages_def bm_pages_def)
    then have "p + 4096 \<le> bm_hi r" "bm_hi r < 2 ^ 64"
      using assms(1) page_below_hi [of p "bm_hi r"] by (auto simp: bm_ok_def)
    then have "p < N * 4096"
      using N by linarith
    with r(2) show "p \<in> pages_in 0 (0 + N * 4096)"
      by simp
  qed
  have "card (boot_usable_pages rs) \<le> N"
    using card_mono [OF finite_pages_in sub] card_pages_in [OF dvd_0_right, of N] by linarith
  then have "4096 * card (boot_usable_pages rs) + 4096 \<le> 2 ^ 64"
    unfolding N [symmetric] by simp
  then show ?thesis
    using card_usable_pages [OF assms] by linarith
qed

lemma no_high_usable_region:
  assumes "\<forall>r \<in> set rs. bm_ok r" "normal_regions (map_regions m)"
    and "covered Usable (map_regions m) = covered Usable (map to_core_region rs)" "x \<in> set (usable_regions m)"
  shows "region_lo x + 4095 < 2 ^ 64"
proof -
  have "region_lo x \<in> covered Usable (map_regions m)"
    using assms(2,4) by (auto simp: usable_regions_def covered_def region_addrs_def normal_regions_def region_ok_def)
  then obtain r where r: "r \<in> set rs" "region_lo x < bm_hi r"
    unfolding assms(3) covered_core by auto
  moreover from r assms(1) have "bm_hi r + 4096 \<le> 2 ^ 64"
    by (intro page_below_hi) (auto simp: bm_ok_def)
  ultimately show ?thesis by simp
qed

section \<open>Properties of the boot path\<close>

text \<open>
  C3. Memory goes from the boot loader to the allocator without loss: if the hand-off is accepted, the core accepts
  its regions as a memory map, and the allocator built from the map either lacks table space or owns exactly the pages
  of the usable regions, no page of any other region; the reported number of usable bytes is exactly the size of these pages,
  so its saturating sum never saturates.
\<close>

theorem boot_memory_reaches_allocator:
  assumes "validate_boot_handoff h = Inr report" "length (bh_memory_regions h) \<le> n"
  shows "\<exists>m. from_entries n (map to_core_region (bh_memory_regions h)) = Inr m \<and>
    (case from_memory_map r a m of
       Inl e \<Rightarrow> kind e = CapacityExceeded
     | Inr s \<Rightarrow> alloc_inv s \<and> alloc_set s = {} \<and> free_set s = boot_usable_pages (bh_memory_regions h)
         \<and> 4096 * card (free_set s) = unat (rp_usable_bytes report))"
proof -
  let ?rs = "bh_memory_regions h"
  note ok = validated_regions [OF assms(1)]
  have bytes: "4096 * card (boot_usable_pages ?rs) = unat (rp_usable_bytes report)"
    using card_usable_pages [of ?rs] usable_lengths_bound [of ?rs] ok by auto
  have "\<forall>e \<in> set (map to_core_region ?rs). region_ok e"
    using ok by (auto simp: region_ok_def bm_ok_def)
  then obtain m where m: "from_entries n (map to_core_region ?rs) = Inr m" "normal_regions (map_regions m)"
    "covered Usable (map_regions m) = covered Usable (map to_core_region ?rs)"
    using from_entries_cases [of "map to_core_region ?rs" n] boot_regions_no_clash [of ?rs] assms(2) ok by auto
  have pages: "{p. 4096 dvd p \<and> {p ..< p + 4096} \<subseteq> covered Usable (map_regions m)} = boot_usable_pages ?rs"
    unfolding m(3) using ok by (intro whole_usable_pages) blast
  have "\<not> (\<exists>x \<in> set (usable_regions m). 2 ^ 64 \<le> region_lo x + 4095)"
    using no_high_usable_region [of ?rs m] m ok by (meson not_less)
  with from_memory_map_spec [OF m(2), of r a] m(1) bytes show ?thesis
    unfolding pages by (intro exI [of _ m]) auto
qed

definition demo_handoff :: boot_handoff where
  "demo_handoff = \<lparr>bh_protocol = BootLimine, bh_bootloader_name = ''Limine'', bh_command_line = [],
     bh_kernel_base = 0x200000, bh_kernel_length = 0x50000, bh_stack_base = 0x300000, bh_stack_length = 0x40000,
     bh_memory_regions = [\<lparr>bm_base = 0x4000, bm_length = 0x2000, bm_kind = BootUsable\<rparr>,
       \<lparr>bm_base = 0x1000, bm_length = 0x1000, bm_kind = BootReserved\<rparr>],
     bh_modules = [], bh_rsdp_address = None, bh_framebuffer = None\<rparr>"

lemma demo_handoff_ok:
  "validate_boot_handoff demo_handoff = Inr \<lparr>rp_protocol = BootLimine, rp_usable_regions = 1, rp_usable_bytes = 0x2000,
     rp_module_count = 0, rp_has_rsdp = False, rp_has_framebuffer = False\<rparr>"
proof -
  have "\<not> blank ''Limine''"
    by code_simp
  then show ?thesis
    by (simp add: validate_boot_handoff_def demo_handoff_def validate_range_def checked_add_def
        boot_validate_region_def boot_region_end_def saturating_add_def)
qed

theorem boot_memory_reaches_allocator_witness:
  "\<exists>m. from_entries 4 (map to_core_region (bh_memory_regions demo_handoff)) = Inr m \<and>
    (case from_memory_map 4 4 m of
       Inl e \<Rightarrow> kind e = CapacityExceeded
     | Inr s \<Rightarrow> alloc_inv s \<and> alloc_set s = {} \<and> free_set s = boot_usable_pages (bh_memory_regions demo_handoff)
         \<and> 4096 * card (free_set s) = unat (0x2000 :: u64))"
proof -
  have "length (bh_memory_regions demo_handoff) \<le> 4"
    by (simp add: demo_handoff_def)
  from boot_memory_reaches_allocator [OF demo_handoff_ok this, of 4 4] show ?thesis
    by (simp only: boot_validation_report.simps)
qed

section \<open>What a Limine map gives\<close>

definition le_hi :: "limine_memmap_entry \<Rightarrow> nat" where
  "le_hi e = unat (le_base e) + unat (le_length e)"

definition le_known :: "limine_memmap_entry \<Rightarrow> bool" where
  "le_known e \<longleftrightarrow> le_kind e \<le> 8 \<and> le_hi e < 2 ^ 64"

definition le_touches :: "limine_memmap_entry \<Rightarrow> limine_memmap_entry \<Rightarrow> bool" where
  "le_touches e other \<longleftrightarrow> unat (le_base e) < le_hi other \<and> unat (le_base other) < le_hi e"

definition le_good :: "limine_memmap_entry list \<Rightarrow> nat \<Rightarrow> limine_memmap_entry \<Rightarrow> bool" where
  "le_good es i e \<longleftrightarrow> le_known e \<and> (le_kind e = 0 \<longrightarrow>
     le_length e \<noteq> 0 \<and> le_base e mod 4096 = 0 \<and> le_length e mod 4096 = 0
     \<and> (\<forall>j < length es. j \<noteq> i \<longrightarrow> le_known (es ! j) \<and> \<not> le_touches e (es ! j)))"

definition limine_ok :: "nat \<Rightarrow> limine_memmap_entry list \<Rightarrow> bool" where
  "limine_ok n es \<longleftrightarrow>
     (\<forall>i < length es. le_good es i (es ! i)) \<and> length (filter (\<lambda>e. le_kind e = 0) es) \<le> n"

definition le_region :: "limine_memmap_entry \<Rightarrow> boot_memory_region" where
  "le_region e = \<lparr>bm_base = le_base e, bm_length = le_length e, bm_kind = BootUsable\<rparr>"

lemma limine_from_raw_ok:
  "(\<exists>k. limine_from_raw raw = Inr k) \<longleftrightarrow> raw \<le> 8" "limine_from_raw raw = Inr LimineUsable \<longleftrightarrow> raw = 0"
proof -
  have "raw \<le> 8 \<longleftrightarrow> raw \<in> {0, 1, 2, 3, 4, 5, 6, 7, 8}"
  proof
    assume "raw \<le> 8"
    then have "unat raw \<in> {0, 1, 2, 3, 4, 5, 6, 7, 8}"
      by (auto simp: word_le_nat_alt)
    then show "raw \<in> {0, 1, 2, 3, 4, 5, 6, 7, 8}"
      by (auto simp: word_unat_eq_iff)
  qed auto
  then show "(\<exists>k. limine_from_raw raw = Inr k) \<longleftrightarrow> raw \<le> 8"
    by (auto simp: limine_from_raw_def)
qed (simp add: limine_from_raw_def)

lemma limine_entry_end_ok: "limine_entry_end e = Inr en \<longleftrightarrow> unat en = le_hi e"
  by (simp add: limine_entry_end_def le_hi_def rust_arith)

lemma limine_entry_end_exists: "(\<exists>en. limine_entry_end e = Inr en) \<longleftrightarrow> le_hi e < 2 ^ 64"
  by (auto simp: limine_entry_end_def le_hi_def checked_add_def)

text \<open>Both lookups of an entry succeed exactly for a known entry.\<close>

lemma le_known_cases:
  obtains (kind_error) err where "\<not> le_known e" "limine_from_raw (le_kind e) = Inl err"
  | (end_error) k err where "\<not> le_known e" "limine_from_raw (le_kind e) = Inr k" "limine_entry_end e = Inl err"
  | (known) k en where "le_known e" "limine_from_raw (le_kind e) = Inr k" "limine_entry_end e = Inr en" "unat en = le_hi e"
  using limine_from_raw_ok(1) [of "le_kind e"] limine_entry_end_exists [of e] limine_entry_end_ok [of e]
  unfolding le_known_def
  by (cases "limine_from_raw (le_kind e)"; cases "limine_entry_end e") auto

lemma limine_overlap_scan_ok:
  assumes "unat en = le_hi e"
  shows "(\<exists>u. limine_overlap_scan i e en ys = Inr u) \<longleftrightarrow>
    (\<forall>(j, other) \<in> set ys. j \<noteq> i \<longrightarrow> le_known other \<and> \<not> le_touches e other)"
proof (induction ys)
  case (Cons y ys)
  obtain j other where y: "y = (j, other)" by (cases y)
  show ?case
  proof (cases rule: le_known_cases [of other])
    case (known k other_end)
    then show ?thesis
      using Cons assms by (auto simp: y le_touches_def word_less_nat_alt)
  qed (use Cons in \<open>auto simp: y\<close>)
qed simp

abbreviation push_entry :: "limine_usable_memory \<Rightarrow> limine_memmap_entry \<Rightarrow> limine_usable_memory" where
  "push_entry u e \<equiv> u\<lparr>lu_regions := (lu_regions u)[lu_len u := le_region e], lu_len := lu_len u + 1\<rparr>"

text \<open>One iteration: an entry that is not good is refused, a good one is skipped or pushed.\<close>

lemma limine_loop_Cons:
  shows limine_loop_bad: "\<not> le_good es i e \<Longrightarrow> \<exists>err. limine_loop es u ((i, e) # xs) = Inl err"
    and limine_loop_skip: "le_good es i e \<Longrightarrow> le_kind e \<noteq> 0 \<Longrightarrow> limine_loop es u ((i, e) # xs) = limine_loop es u xs"
    and limine_loop_push: "le_good es i e \<Longrightarrow> le_kind e = 0 \<Longrightarrow> limine_loop es u ((i, e) # xs) =
      (if length (lu_regions u) \<le> lu_len u then Inl LimineCapacityExceeded else limine_loop es (push_entry u e) xs)"
proof -
  have usable: "k = LimineUsable \<longleftrightarrow> le_kind e = 0" if "limine_from_raw (le_kind e) = Inr k" for k
    using that limine_from_raw_ok(2) [of "le_kind e"] by auto
  have scan: "(\<exists>v. limine_overlap_scan i e en (enumerate 0 es) = Inr v) \<longleftrightarrow>
      (\<forall>j < length es. j \<noteq> i \<longrightarrow> le_known (es ! j) \<and> \<not> le_touches e (es ! j))" if "unat en = le_hi e" for en
    unfolding limine_overlap_scan_ok [OF that] by (auto simp: in_set_enumerate_eq)
  show "\<exists>err. limine_loop es u ((i, e) # xs) = Inl err" if bad: "\<not> le_good es i e"
  proof (cases rule: le_known_cases [of e])
    case (known k en)
    then have "k = LimineUsable"
      using bad usable [of k] by (auto simp: le_good_def)
    then have "le_length e = 0 \<or> le_base e mod 4096 \<noteq> 0 \<or> le_length e mod 4096 \<noteq> 0
        \<or> (\<exists>err. limine_overlap_scan i e en (enumerate 0 es) = Inl err)"
    proof (cases "limine_overlap_scan i e en (enumerate 0 es)")
      case (Inr v)
      with scan [OF known(4)] have "\<forall>j < length es. j \<noteq> i \<longrightarrow> le_known (es ! j) \<and> \<not> le_touches e (es ! j)"
        by blast
      with bad known(1) show ?thesis
        unfolding le_good_def by argo
    qed simp
    then show ?thesis
      using known \<open>k = LimineUsable\<close> by (elim disjE exE) simp_all
  qed simp_all
  show "limine_loop es u ((i, e) # xs) = limine_loop es u xs" if "le_good es i e" "le_kind e \<noteq> 0"
    using that usable by (cases rule: le_known_cases [of e]) (auto simp: le_good_def)
  show "limine_loop es u ((i, e) # xs) =
      (if length (lu_regions u) \<le> lu_len u then Inl LimineCapacityExceeded else limine_loop es (push_entry u e) xs)"
    if "le_good es i e" "le_kind e = 0"
    using that usable scan by (cases rule: le_known_cases [of e]) (auto simp: le_good_def le_region_def)
qed

lemma limine_loop_spec:
  assumes "lu_len u \<le> length (lu_regions u)"
  shows "case limine_loop es u xs of
      Inr u' \<Rightarrow> (\<forall>(i, e) \<in> set xs. le_good es i e)
        \<and> lu_len u + length (filter (\<lambda>(i, e). le_kind e = 0) xs) \<le> length (lu_regions u)
        \<and> limine_regions u' = limine_regions u @ map (le_region \<circ> snd) (filter (\<lambda>(i, e). le_kind e = 0) xs)
    | Inl _ \<Rightarrow> \<not> ((\<forall>(i, e) \<in> set xs. le_good es i e)
        \<and> lu_len u + length (filter (\<lambda>(i, e). le_kind e = 0) xs) \<le> length (lu_regions u))"
  using assms
proof (induction xs arbitrary: u)
  case (Cons x xs)
  obtain i e where x: "x = (i, e)" by (cases x)
  consider (bad) "\<not> le_good es i e" | (skip) "le_good es i e" "le_kind e \<noteq> 0"
    | (push) "le_good es i e" "le_kind e = 0"
    by blast
  then show ?case
  proof cases
    case bad
    then obtain err where "limine_loop es u (x # xs) = Inl err"
      unfolding x using limine_loop_bad by blast
    with bad show ?thesis by (simp del: limine_loop.simps add: x)
  next
    case skip
    then show ?thesis
      using Cons.IH [OF Cons.prems] by (simp del: limine_loop.simps add: x limine_loop_skip split: sum.splits)
  next
    case push
    show ?thesis
    proof (cases "length (lu_regions u) \<le> lu_len u")
      case False
      then have "limine_regions (push_entry u e) = limine_regions u @ [le_region e]"
        by (simp add: take_Suc_conv_app_nth)
      then show ?thesis
        using Cons.IH [of "push_entry u e"] push False
        by (simp del: limine_loop.simps add: x limine_loop_push split: sum.splits)
    qed (use push in \<open>simp del: limine_loop.simps add: x limine_loop_push\<close>)
  qed
qed simp

lemma filter_enumerate: "map snd (filter (\<lambda>(i, e). P e) (enumerate n es)) = filter P es"
  by (induction es arbitrary: n) auto

text \<open>
  C21. The memory taken from a Limine map is exactly its usable memory: the map is accepted exactly when every entry
  has a known kind and ends below \<open>2 ^ 64\<close>, every usable entry is page aligned, not empty and overlaps no other entry of any kind,
  and the usable entries fit the table; the result then lists the usable entries in their order.
\<close>

theorem limine_usable_exact:
  "case limine_from_entries n es of
     Inr u \<Rightarrow> limine_ok n es \<and> limine_regions u = map le_region (filter (\<lambda>e. le_kind e = 0) es)
   | Inl _ \<Rightarrow> \<not> limine_ok n es"
proof -
  let ?u = "\<lparr>lu_regions = replicate n \<lparr>bm_base = 0, bm_length = 0, bm_kind = BootReserved\<rparr>, lu_len = 0\<rparr>"
  let ?us = "filter (\<lambda>(i, e). le_kind e = 0) (enumerate 0 es)"
  have us: "map snd ?us = filter (\<lambda>e. le_kind e = 0) es"
    by (rule filter_enumerate)
  have "length ?us = length (filter (\<lambda>e. le_kind e = 0) es)"
    using arg_cong [OF us, of length] by simp
  moreover have "map (le_region \<circ> snd) ?us = map le_region (filter (\<lambda>e. le_kind e = 0) es)"
    unfolding us [symmetric] by simp
  moreover have "(\<forall>(i, e) \<in> set (enumerate 0 es). le_good es i e) \<longleftrightarrow> (\<forall>i < length es. le_good es i (es ! i))"
    by (auto simp: in_set_enumerate_eq)
  ultimately show ?thesis
    using limine_loop_spec [where u = ?u and es = es and xs = "enumerate 0 es"]
    by (simp add: limine_from_entries_def limine_ok_def split: sum.splits)
qed

section \<open>The entry plan\<close>

text \<open>
  An accepted hand-off leaves room for the stack, so the last check of \<open>plan_primary_entry\<close> never fails, and a plan is made
  exactly when layout and hand-off are accepted.
\<close>

lemma plan_primary_entry_outcome:
  "plan_primary_entry layout h hint \<noteq> Inl StackTopOverflow
   \<and> ((\<exists>plan. plan_primary_entry layout h hint = Inr plan)
      \<longleftrightarrow> validate_link_layout layout = Inr () \<and> (\<exists>report. validate_boot_handoff h = Inr report))"
proof -
  have "\<exists>top. checked_add (bh_stack_base h) (bh_stack_length h) = Some top" if "validate_boot_handoff h = Inr report" for report
    using that by (auto simp: validate_boot_handoff_def validate_range_def split: if_splits sum.splits)
  then show ?thesis
    by (auto simp: plan_primary_entry_def split: sum.splits option.splits)
qed

end
