(* ===== verification/Spec2Isabelle.thy ===== *)
theory Spec2Isabelle
  imports Page_Ledger Abi_Rings Ownership Vm_Lifecycle Percpu Scheduler Hugepage Pci Crash
    Trap_Safety Vmx_Traps Svm_Npt Arm_Vgic Arm_Stage2 Devices Boot
begin

text \<open>
  A verification development for AegisHV, a hypervisor with page traps for guest monitoring.

  \<^bold>\<open>The program.\<close> The crate \<open>crates/aegishv-hypervisor-core\<close> has the parts every hypervisor build shares: the boot
  memory map, the physical page allocator built from it, the table of page owners that decides which host pages a
  guest may map, the event and command rings towards the agent, the VM life cycle, the per-CPU table, the vCPU
  scheduler, huge page plans, the PCI inventory and crash records. The trap engine (\<open>src/trap\<close>) takes an access away
  from guest pages in a second-stage table, handles the hits this causes under a storm guard and a policy, and restores or
  re-arms the page. The architecture crates hold the second-stage tables, trap records and control
  registers of Intel VMX, AMD SVM and ARM64, and the ARM64 virtual interrupt controller. The crate
  \<open>crates/aegishv-devices\<close> has the paravirtual devices, and \<open>crates/aegishv-type1-boot\<close> validates what the boot loader hands over.

  \<^bold>\<open>Conventions.\<close> Types \<open>u8\<close> to \<open>u64\<close> are words of that width, \<open>usize\<close> counts and indexes are
  natural numbers. A plain \<open>+\<close> of the source is the wrapping operation of the release profile; checked and saturating operations
  are the functions of \<open>Prelude\<close>. A \<open>Result\<close> is a sum with the error on the left, with the source's kind and message. An operation
  on \<open>&mut self\<close> returns its result and the state it leaves, on every path. A panic is
  the value \<^const>\<open>None\<close> of an outer option. A fixed array with a length is a list with a length, and the const parameter is the length
  of the list. Strings are byte lists. Getters, named constants and one-line wrappers are abbreviations.

  \<^bold>\<open>Theories of the core.\<close>
  \<^item> \<open>Prelude\<close>: integer operations, loops over arrays, shared lemmas. \<open>Core_Ids\<close>: \<open>error.rs\<close>, \<open>ids.rs\<close>.
  \<^item> \<open>Memory_Map\<close> (\<open>memory.rs\<close>): a successful \<open>from_entries\<close> gives a sorted, disjoint, coalesced table
    that covers exactly the addresses of its entries, kind by kind.
  \<^item> \<open>Page_Allocator\<close>, \<open>Page_Runs\<close>, \<open>Page_Allocator_Correct\<close>, \<open>Page_Ledger\<close> (\<open>allocator.rs\<close>): the run table refines a set of
    free pages; allocation takes the lowest suitable page, freeing undoes it, no page is lost or handed out twice, and
    every refusal has the reason it names. The locale \<open>page_ledger\<close> is the contract for clients, interpreted on
    the allocator.
  \<^item> \<open>Bounded_Queue\<close>: ring arithmetic and the locales \<open>queue_consumer\<close>, \<open>lossy_queue\<close> and \<open>fifo_queue\<close>, interpreted on
    the rings of \<open>Abi_Rings\<close> (\<open>abi.rs\<close>), the run queue of \<open>Scheduler\<close> and the console of \<open>Devices\<close>.
  \<^item> \<open>Ownership\<close> (\<open>ownership.rs\<close>): a guest mapping is accepted exactly when all its bytes belong to the guest, so guests are
    isolated. The walk over the table is a terminating function; with fuel one more than the number of entries the cut-off
    walk \<open>walk_fuel\<close> already has its result, since every iteration leaves one more entry behind.
  \<^item> \<open>Vm_Lifecycle\<close> (\<open>vm.rs\<close>), \<open>Percpu\<close> (\<open>percpu.rs\<close>), \<open>Scheduler\<close> (\<open>scheduler.rs\<close>): invariants over every sequence of
    operations; a vCPU is always in exactly one place.
  \<^item> \<open>Hugepage\<close> (\<open>hugepage.rs\<close>), \<open>Pci\<close> (\<open>pci.rs\<close>), \<open>Crash\<close> (\<open>crash.rs\<close>): splits and merges keep the translation;
    the inventory has no duplicate; text is cut to its capacity and stays valid UTF-8.

  \<^bold>\<open>Theories of the trap engine.\<close>
  \<^item> \<open>Rust_Text\<close>, \<open>Btree_Map\<close>: the strings and ordered maps of the standard library that the engine uses.
  \<^item> \<open>Stage2\<close>, \<open>Stage2_Table\<close> (\<open>stage2.rs\<close>, \<open>stage2_model.rs\<close>): mappings of one space never overlap; a split keeps every
    translation.
  \<^item> \<open>Trap_Storm\<close>, \<open>Single_Step\<close>, \<open>Invalidation\<close>, \<open>Pattern\<close>, \<open>Jit_Policy\<close>: the parts the controller calls. The matcher of
    \<open>pattern.rs\<close> decides the language of a pattern.
  \<^item> \<open>Trap_Controller\<close>, \<open>Trap_Effects\<close>, \<open>Trap_Safety\<close> (\<open>controller.rs\<close>): invariant and effect of arming, hits and re-arming, and
    over any sequence of operations an armed trap blocks its access as long as no page carries two traps.

  \<^bold>\<open>Theories of the architectures and devices.\<close>
  \<^item> \<open>Map_Plan\<close>: the locale \<open>map_plan\<close> of a bounded plan of mappings, interpreted on the plans of the three architectures.
  \<^item> \<open>Vmx_Ept\<close>, \<open>Vmx_Traps\<close> (\<open>vmx/features.rs\<close>, \<open>ept.rs\<close>, \<open>traps.rs\<close>, \<open>controls.rs\<close>): entries decode to what was encoded, trap
    records restore what they changed, one single step at a time, controls respect the capability words.
  \<^item> \<open>Svm_Npt\<close> (\<open>svm/features.rs\<close>, \<open>npt.rs\<close>, \<open>asid.rs\<close>, \<open>traps.rs\<close>): guests never reach a protected hypervisor range that was
    registered before they were mapped; identifiers are fresh.
  \<^item> \<open>Arm_Vgic\<close> (\<open>vgic.rs\<close>): the most urgent deliverable interrupt is offered, and an acknowledged shared interrupt is
    offered to nobody until it is completed.
  \<^item> \<open>Arm_Stage2\<close> (\<open>features.rs\<close>, \<open>stage2.rs\<close>, \<open>vtcr.rs\<close>, \<open>tlbi.rs\<close>, \<open>esr.rs\<close>, \<open>traps.rs\<close>, \<open>timer.rs\<close>): register values decode,
    faults are attributed to the faulting page.
  \<^item> \<open>Devices\<close> (\<open>block.rs\<close>, \<open>net.rs\<close>, \<open>console.rs\<close>, \<open>virtio_mmio.rs\<close>): the sectors read from an image are the image, the console
    is first-in first-out, queue indexes are unique, a failed device needs a reset.
  \<^item> \<open>Boot\<close> (\<open>handoff.rs\<close>, \<open>limine.rs\<close>, \<open>layout.rs\<close>, \<open>entry.rs\<close>): the regions of an accepted hand-off give a memory map
    the core accepts, and the allocator built from it owns exactly the reported usable bytes, a result across the boot crate,
    \<open>Memory_Map\<close> and the allocator; a Limine map yields exactly its usable entries.

  \<^bold>\<open>Parameters.\<close> The instructions that invalidate translations are executed by hardware behind a trait; the executor is an
  argument of the definitions that call it.

  \<^bold>\<open>Not modelled.\<close> The instruction layers of VMX and SVM, the VT-d and serial drivers and the type-1 kernel work on
  raw memory, registers and inline assembly. The agent process is input and output and text formats: command line,
  configuration, trace collection, metrics, host actions. The readers of guest kernels depend on the guests' own
  layouts. The VMCS and VMCB field tables, exit decoding, ACPI parsing, the boot image plan, policy management, detectors and the translation
  walks of the inspection code could be modelled in the same style; the development does not
  cover them.
\<close>

end
